theory Spec2Isabelle
  imports Complex_Main
begin

section \<open>Numeric model\<close>

text \<open>
  The program (\<^verbatim>\<open>audio_matcher.cpp\<close>) computes with C++ \<^verbatim>\<open>float\<close>, \<^verbatim>\<open>double\<close> and
  \<^verbatim>\<open>std::complex<double>\<close>.

  The feature extractor (the transform, the filterbank, the cepstral coefficients) is
  modelled with exact arithmetic: finite values are \<^typ>\<open>real\<close> and \<^typ>\<open>complex\<close> numbers, and
  rounding, overflow and underflow are not part of that model.  Its input samples are
  finite numbers.

  The sequence aligner (\<^verbatim>\<open>cosineSimilarity\<close> and \<^verbatim>\<open>computeDTW\<close>) is modelled twice: with
  exact arithmetic on finite values, and in the \<^verbatim>\<open>float\<close> arithmetic of the program, where
  every operation is rounded to binary32, overflows to an infinity, underflows to zero, and
  the components of the feature vectors are any float values.  A float value is of the type
  \<open>fval\<close>: a finite value, one of the two infinities, or not-a-number, with the IEEE 754
  rules for the special values.

  The C++ \<^verbatim>\<open>int\<close> and \<^verbatim>\<open>size_t\<close> are \<^typ>\<open>int\<close> and \<^typ>\<open>nat\<close>: index arithmetic is taken not to
  wrap around, which holds for vectors of fewer than \<open>2\<^sup>3\<^sup>0\<close> elements.
\<close>

datatype fval = Fin real | PInf | NInf | NaN

text \<open>\<^verbatim>\<open>x + y\<close> on floats.\<close>

fun fadd :: "fval \<Rightarrow> fval \<Rightarrow> fval" where
  "fadd (Fin a) (Fin b) = Fin (a + b)"
| "fadd NaN _ = NaN"
| "fadd _ NaN = NaN"
| "fadd PInf NInf = NaN"
| "fadd NInf PInf = NaN"
| "fadd PInf _ = PInf"
| "fadd _ PInf = PInf"
| "fadd NInf _ = NInf"
| "fadd _ NInf = NInf"

text \<open>\<^verbatim>\<open>-x\<close> and \<^verbatim>\<open>x - y\<close> on floats.\<close>

fun fneg :: "fval \<Rightarrow> fval" where
  "fneg (Fin a) = Fin (- a)"
| "fneg PInf = NInf"
| "fneg NInf = PInf"
| "fneg NaN = NaN"

definition fsub :: "fval \<Rightarrow> fval \<Rightarrow> fval" where
  "fsub x y = fadd x (fneg y)"

text \<open>
  \<^verbatim>\<open>x / n\<close> for a float \<open>x\<close> and an integer count \<open>n \<ge> 0\<close> converted to float:
  a finite value divided by zero is an infinity of its sign, and \<open>0 / 0\<close> is not-a-number.
\<close>

fun fdiv_count :: "fval \<Rightarrow> nat \<Rightarrow> fval" where
  "fdiv_count (Fin a) n =
     (if n = 0 then (if a = 0 then NaN else if 0 < a then PInf else NInf)
      else Fin (a / real n))"
| "fdiv_count PInf n = PInf"
| "fdiv_count NInf n = NInf"
| "fdiv_count NaN n = NaN"

text \<open>\<^verbatim>\<open>x < y\<close> and \<^verbatim>\<open>x <= y\<close> on floats: every comparison with not-a-number is false.\<close>

fun fless :: "fval \<Rightarrow> fval \<Rightarrow> bool" where
  "fless NaN _ = False"
| "fless _ NaN = False"
| "fless (Fin a) (Fin b) = (a < b)"
| "fless _ NInf = False"
| "fless NInf _ = True"
| "fless PInf _ = False"
| "fless _ PInf = True"

fun fle :: "fval \<Rightarrow> fval \<Rightarrow> bool" where
  "fle NaN _ = False"
| "fle _ NaN = False"
| "fle (Fin a) (Fin b) = (a \<le> b)"
| "fle NInf _ = True"
| "fle _ NInf = False"
| "fle _ PInf = True"
| "fle PInf _ = False"

text \<open>
  \<^verbatim>\<open>std::min({a, b, c})\<close>: the leftmost smallest element, found by scanning from the left
  and replacing the candidate when an element compares less than it.
\<close>

definition min3 :: "fval \<Rightarrow> fval \<Rightarrow> fval \<Rightarrow> fval" where
  "min3 a b c = (let s = a; s = (if fless b s then b else s); s = (if fless c s then c else s) in s)"

text \<open>
  Run-time failures of the C++ are values of the model.  Reading or writing a
  \<^verbatim>\<open>std::vector\<close> outside its bounds is undefined behaviour: \<open>IndexOutOfRange\<close>.  A division
  by a span of bin indices that is zero is \<open>DivisionByZero\<close>; the other divisors of the
  feature extractor (sizes and the sample rate) are positive wherever the model follows
  the program.  \<open>OutsideModel\<close> marks the inputs on which the C++ throws from a vector
  constructor, converts a not-a-number to \<^verbatim>\<open>int\<close>, or carries a not-a-number through its
  arithmetic: the real-valued model does not follow the program there.
\<close>

datatype fault = IndexOutOfRange | DivisionByZero | OutsideModel

text \<open>\<^verbatim>\<open>const double PI = acos(-1.0);\<close> and \<^verbatim>\<open>const int SAMPLE_RATE = 48000;\<close>\<close>

definition PI :: real where
  "PI = arccos (- 1)"

definition SAMPLE_RATE :: int where
  "SAMPLE_RATE = 48000"

section \<open>Spectral engine\<close>

subsection \<open>The transform\<close>

text \<open>
  \<^verbatim>\<open>
  void fft(std::vector<cd>& a, bool invert) {
      int n = a.size();
      int lg_n = 0;
      while ((1 << lg_n) < n) lg_n++;
  \<close>
\<close>

function fft_lg :: "nat \<Rightarrow> nat \<Rightarrow> nat" where
  "fft_lg n lg_n = (if push_bit lg_n 1 < n then fft_lg n (Suc lg_n) else lg_n)"
  by pat_completeness auto
termination
proof (relation "measure (\<lambda>(n, lg_n). n - 2 ^ lg_n)")
  show "wf (measure (\<lambda>(n, lg_n). n - 2 ^ lg_n))" by simp
next
  fix n lg_n :: nat
  assume "push_bit lg_n 1 < n"
  then have a: "(2::nat) ^ lg_n < n" by simp
  have b: "(2::nat) ^ lg_n < 2 ^ Suc lg_n"
    by (rule power_strict_increasing) simp_all
  have "n - 2 ^ Suc lg_n < n - 2 ^ lg_n"
    using b a by (rule diff_less_mono2)
  then show "((n, Suc lg_n), (n, lg_n)) \<in> measure (\<lambda>(n, lg_n). n - 2 ^ lg_n)"
    by (simp del: power_Suc)
qed

declare fft_lg.simps [simp del]

text \<open>
  \<^verbatim>\<open>
      for (int i = 0; i < n; i++) {
          int rev = 0;
          for (int j = 0; j < lg_n; j++) {
              if (i & (1 << j)) rev |= (1 << (lg_n - 1 - j));
          }
          if (i < rev) std::swap(a[i], a[rev]);
      }
  \<close>
  \<open>fft_rev\<close> is the inner loop, \<open>fft_permute\<close> the outer one.  \<open>a[i]\<close> is in range by the loop
  condition; \<open>a[rev]\<close> is checked.  (The variable \<open>rev\<close> of the C++ is \<open>rv\<close> here,
  \<open>power\<close> is \<open>pw\<close> and \<open>sum\<close> is \<open>acc\<close>: the C++ names are constants of HOL.)
\<close>

function fft_rev :: "nat \<Rightarrow> nat \<Rightarrow> nat \<Rightarrow> nat \<Rightarrow> nat" where
  "fft_rev i lg_n j rv =
     (if j < lg_n
      then fft_rev i lg_n (Suc j)
             (if and i (push_bit j 1) \<noteq> 0 then or rv (push_bit (lg_n - 1 - j) 1) else rv)
      else rv)"
  by pat_completeness auto
termination
  by (relation "measure (\<lambda>(i, lg_n, j, rv). lg_n - j)") auto

declare fft_rev.simps [simp del]

function fft_permute :: "complex list \<Rightarrow> nat \<Rightarrow> nat \<Rightarrow> nat \<Rightarrow> fault + complex list" where
  "fft_permute a n lg_n i =
     (if i < n
      then let rv = fft_rev i lg_n 0 0
           in if i < rv
              then if rv < length a \<and> i < length a
                   then fft_permute (a[i := a ! rv, rv := a ! i]) n lg_n (Suc i)
                   else Inl IndexOutOfRange
              else fft_permute a n lg_n (Suc i)
      else Inr a)"
  by pat_completeness auto
termination
  by (relation "measure (\<lambda>(a, n, lg_n, i). n - i)") auto

declare fft_permute.simps [simp del]

text \<open>
  \<^verbatim>\<open>
      for (int len = 2; len <= n; len <<= 1) {
          double ang = 2 * PI / len * (invert ? -1 : 1);
          cd wlen(std::cos(ang), std::sin(ang));
          for (int i = 0; i < n; i += len) {
              cd w(1);
              for (int j = 0; j < len / 2; j++) {
                  cd u = a[i + j], v = a[i + j + len / 2] * w;
                  a[i + j] = u + v;
                  a[i + j + len / 2] = u - v;
                  w *= wlen;
              }
          }
      }
  \<close>
  \<open>fft_butterfly\<close> is the loop over \<open>j\<close>, \<open>fft_blocks\<close> the loop over \<open>i\<close> and \<open>fft_stages\<close> the
  loop over \<open>len\<close>.  The larger of the two indices of a butterfly is checked against the
  size of the vector.  \<open>len\<close> starts at 2 and doubles; the test \<open>0 < len\<close> in \<open>fft_blocks\<close> and
  \<open>fft_stages\<close> is true at every call and only makes the recursion well-founded for all
  arguments.
\<close>

function fft_butterfly :: "complex list \<Rightarrow> nat \<Rightarrow> nat \<Rightarrow> complex \<Rightarrow> nat \<Rightarrow> complex \<Rightarrow> fault + complex list" where
  "fft_butterfly a i len wlen j w =
     (if j < len div 2
      then if i + j + len div 2 < length a
           then let u = a ! (i + j); v = a ! (i + j + len div 2) * w
                in fft_butterfly (a[i + j := u + v, i + j + len div 2 := u - v]) i len wlen (Suc j) (w * wlen)
           else Inl IndexOutOfRange
      else Inr a)"
  by pat_completeness auto
termination
  by (relation "measure (\<lambda>(a, i, len, wlen, j, w). len div 2 - j)") auto

declare fft_butterfly.simps [simp del]

function fft_blocks :: "complex list \<Rightarrow> nat \<Rightarrow> nat \<Rightarrow> complex \<Rightarrow> nat \<Rightarrow> fault + complex list" where
  "fft_blocks a n len wlen i =
     (if i < n \<and> 0 < len
      then case fft_butterfly a i len wlen 0 1 of
             Inl e \<Rightarrow> Inl e
           | Inr a' \<Rightarrow> fft_blocks a' n len wlen (i + len)
      else Inr a)"
  by pat_completeness auto
termination
  by (relation "measure (\<lambda>(a, n, len, wlen, i). n - i)") auto

declare fft_blocks.simps [simp del]

function fft_stages :: "complex list \<Rightarrow> nat \<Rightarrow> bool \<Rightarrow> nat \<Rightarrow> fault + complex list" where
  "fft_stages a n invert len =
     (if len \<le> n \<and> 0 < len
      then let ang = 2 * PI / real len * (if invert then - 1 else 1);
               wlen = Complex (cos ang) (sin ang)
           in case fft_blocks a n len wlen 0 of
                Inl e \<Rightarrow> Inl e
              | Inr a' \<Rightarrow> fft_stages a' n invert (push_bit 1 len)
      else Inr a)"
  by pat_completeness auto
termination
  by (relation "measure (\<lambda>(a, n, invert, len). Suc n - len)") (auto simp: push_bit_eq_mult)

declare fft_stages.simps [simp del]

text \<open>
  \<^verbatim>\<open>
      if (invert) {
          for (cd& x : a) x /= n;
      }
  }
  \<close>
  The vector is updated in place; the model returns it.
\<close>

definition fft :: "complex list \<Rightarrow> bool \<Rightarrow> fault + complex list" where
  "fft a invert =
     (let n = length a;
          lg_n = fft_lg n 0
      in case fft_permute a n lg_n 0 of
           Inl e \<Rightarrow> Inl e
         | Inr a1 \<Rightarrow>
             (case fft_stages a1 n invert 2 of
                Inl e \<Rightarrow> Inl e
              | Inr a2 \<Rightarrow> Inr (if invert then map (\<lambda>x. x / of_nat n) a2 else a2)))"

subsection \<open>Power spectrum\<close>

text \<open>
  \<^verbatim>\<open>
  std::vector<double> power_spectrum(const std::vector<float>& frame) {
      int n = frame.size();
      int fft_size = 1;
      while (fft_size < n) fft_size <<= 1;
      std::vector<cd> fft_input(fft_size, 0.0);
      for (int i = 0; i < n; i++) fft_input[i] = frame[i];
      fft(fft_input, false);
      std::vector<double> power(fft_size / 2 + 1);
      for (int i = 0; i <= fft_size / 2; i++) {
          power[i] = std::norm(fft_input[i]) / fft_size;
      }
      return power;
  }
  \<close>
  \<^verbatim>\<open>std::norm\<close> is the squared magnitude.  The first loop stops at \<open>fft_size \<ge> n\<close>, so the
  copy stays inside \<open>fft_input\<close>; the last loop reads indices up to \<open>fft_size / 2 < fft_size\<close>.
  \<open>fft_size\<close> starts at 1 and doubles; the test \<open>0 < fft_size\<close> in \<open>fft_size_loop\<close> is true at
  every call and only makes the recursion well-founded for all arguments.
\<close>

function fft_size_loop :: "nat \<Rightarrow> nat \<Rightarrow> nat" where
  "fft_size_loop n fft_size =
     (if fft_size < n \<and> 0 < fft_size then fft_size_loop n (push_bit 1 fft_size) else fft_size)"
  by pat_completeness auto
termination
  by (relation "measure (\<lambda>(n, fft_size). n - fft_size)") (auto simp: push_bit_eq_mult)

declare fft_size_loop.simps [simp del]

definition power_spectrum :: "real list \<Rightarrow> fault + real list" where
  "power_spectrum frame =
     (let n = length frame;
          fft_size = fft_size_loop n 1;
          fft_input = map (\<lambda>i. if i < n then complex_of_real (frame ! i) else 0) [0..<fft_size]
      in case fft fft_input False of
           Inl e \<Rightarrow> Inl e
         | Inr spectrum \<Rightarrow>
             Inr (map (\<lambda>i. (cmod (spectrum ! i))\<^sup>2 / real fft_size) [0..<fft_size div 2 + 1]))"

section \<open>Feature extractor\<close>

subsection \<open>Pre-emphasis and window\<close>

text \<open>
  \<^verbatim>\<open>
  void pre_emphasis(std::vector<float>& signal) {
      for (size_t i = signal.size() - 1; i > 0; --i) {
          signal[i] -= 0.95f * signal[i - 1];
      }
  }
  \<close>
  On an empty vector \<open>signal.size() - 1\<close> wraps around to the largest \<^verbatim>\<open>size_t\<close> and the first
  access is out of range.
\<close>

function pre_emphasis_loop :: "real list \<Rightarrow> nat \<Rightarrow> real list" where
  "pre_emphasis_loop signal i =
     (if i > 0
      then pre_emphasis_loop (signal[i := signal ! i - 0.95 * signal ! (i - 1)]) (i - 1)
      else signal)"
  by pat_completeness auto
termination
  by (relation "measure (\<lambda>(signal, i). i)") auto

declare pre_emphasis_loop.simps [simp del]

definition pre_emphasis :: "real list \<Rightarrow> fault + real list" where
  "pre_emphasis signal =
     (if signal = [] then Inl IndexOutOfRange
      else Inr (pre_emphasis_loop signal (length signal - 1)))"

text \<open>
  \<^verbatim>\<open>
  void hamming_window(std::vector<float>& frame) {
      int n = frame.size();
      for (int i = 0; i < n; i++) {
          frame[i] *= 0.54 - 0.46 * std::cos(2 * PI * i / (n - 1));
      }
  }
  \<close>
  Each step touches only \<open>frame[i]\<close>.  For \<open>n = 1\<close> the quotient is \<open>0.0 / 0\<close>, a not-a-number.
\<close>

definition hamming_window :: "real list \<Rightarrow> fault + real list" where
  "hamming_window frame =
     (let n = length frame
      in if n = 1 then Inl OutsideModel
         else Inr (map (\<lambda>i. frame ! i * (0.54 - 0.46 * cos (2 * PI * real i / real (n - 1)))) [0..<n]))"

subsection \<open>Mel filterbank\<close>

text \<open>
  \<^verbatim>\<open>
  double hz_to_mel(double hz) { return 2595.0 * std::log10(1.0 + hz / 700.0); }
  double mel_to_hz(double mel) { return 700.0 * (std::pow(10.0, mel / 2595.0) - 1.0); }
  \<close>
\<close>

definition hz_to_mel :: "real \<Rightarrow> real" where
  "hz_to_mel hz = 2595 * log 10 (1 + hz / 700)"

definition mel_to_hz :: "real \<Rightarrow> real" where
  "mel_to_hz mel = 700 * (10 powr (mel / 2595) - 1)"

text \<open>
  \<^verbatim>\<open>
  std::vector<std::vector<double>> create_mel_filterbanks(int num_filters, int fft_size, int sample_rate) {
      double low_freq_mel = 0.0;
      double high_freq_mel = hz_to_mel(sample_rate / 2.0);
      std::vector<double> mel_points(num_filters + 2);
      for (int i = 0; i < num_filters + 2; i++) {
          mel_points[i] = low_freq_mel + (high_freq_mel - low_freq_mel) * i / (num_filters + 1);
      }
      std::vector<double> hz_points(num_filters + 2);
      for (int i = 0; i < num_filters + 2; i++) {
          hz_points[i] = mel_to_hz(mel_points[i]);
      }
      std::vector<int> bin(num_filters + 2);
      for (int i = 0; i < num_filters + 2; i++) {
          bin[i] = static_cast<int>(std::floor((fft_size + 1) * hz_points[i] / sample_rate));
      }
  \<close>
  The three loops fill one cell per step; \<open>mel_bins\<close> is the vector \<open>bin\<close> they leave.
\<close>

definition mel_bins :: "nat \<Rightarrow> int \<Rightarrow> int \<Rightarrow> int list" where
  "mel_bins num_filters fft_size sample_rate =
     (let low_freq_mel = 0;
          high_freq_mel = hz_to_mel (real_of_int sample_rate / 2);
          mel_points = map (\<lambda>i. low_freq_mel + (high_freq_mel - low_freq_mel) * real i / real (num_filters + 1))
                         [0..<num_filters + 2];
          hz_points = map (\<lambda>i. mel_to_hz (mel_points ! i)) [0..<num_filters + 2]
      in map (\<lambda>i. \<lfloor>real_of_int (fft_size + 1) * (hz_points ! i) / real_of_int sample_rate\<rfloor>)
           [0..<num_filters + 2])"

text \<open>
  \<^verbatim>\<open>
      std::vector<std::vector<double>> filters(num_filters, std::vector<double>(fft_size / 2 + 1, 0.0));
      for (int m = 1; m <= num_filters; m++) {
          for (int k = bin[m - 1]; k < bin[m]; k++) {
              filters[m - 1][k] = (k - bin[m - 1]) * 1.0 / (bin[m] - bin[m - 1]);
          }
          for (int k = bin[m]; k < bin[m + 1]; k++) {
              filters[m - 1][k] = (bin[m + 1] - k) * 1.0 / (bin[m + 1] - bin[m]);
          }
      }
      return filters;
  }
  \<close>
  \<open>ramp_up\<close> and \<open>ramp_down\<close> are the two loops over \<open>k\<close>, working on row \<open>m - 1\<close>; each
  division checks its divisor, each write its index.  \<open>fill_filters\<close> is the loop over \<open>m\<close>;
  it reads \<open>bin[m - 1]\<close>, \<open>bin[m]\<close> and \<open>bin[m + 1]\<close> with \<open>m + 1 \<le> num_filters + 1\<close>, inside
  \<open>bin\<close>, and row \<open>m - 1 < num_filters\<close>.
\<close>

function ramp_up :: "real list \<Rightarrow> int \<Rightarrow> int \<Rightarrow> int \<Rightarrow> fault + real list" where
  "ramp_up row lo hi k =
     (if k < hi
      then if hi - lo = 0 then Inl DivisionByZero
           else if k < 0 \<or> int (length row) \<le> k then Inl IndexOutOfRange
           else ramp_up (row[nat k := real_of_int (k - lo) * 1 / real_of_int (hi - lo)]) lo hi (k + 1)
      else Inr row)"
  by pat_completeness auto
termination
  by (relation "measure (\<lambda>(row, lo, hi, k). nat (hi - k))") auto

declare ramp_up.simps [simp del]

function ramp_down :: "real list \<Rightarrow> int \<Rightarrow> int \<Rightarrow> int \<Rightarrow> fault + real list" where
  "ramp_down row lo hi k =
     (if k < hi
      then if hi - lo = 0 then Inl DivisionByZero
           else if k < 0 \<or> int (length row) \<le> k then Inl IndexOutOfRange
           else ramp_down (row[nat k := real_of_int (hi - k) * 1 / real_of_int (hi - lo)]) lo hi (k + 1)
      else Inr row)"
  by pat_completeness auto
termination
  by (relation "measure (\<lambda>(row, lo, hi, k). nat (hi - k))") auto

declare ramp_down.simps [simp del]

function fill_filters :: "int list \<Rightarrow> nat \<Rightarrow> nat \<Rightarrow> real list list \<Rightarrow> fault + real list list" where
  "fill_filters bin num_filters m filters =
     (if m \<le> num_filters
      then case ramp_up (filters ! (m - 1)) (bin ! (m - 1)) (bin ! m) (bin ! (m - 1)) of
             Inl e \<Rightarrow> Inl e
           | Inr row1 \<Rightarrow>
               (case ramp_down row1 (bin ! m) (bin ! (m + 1)) (bin ! m) of
                  Inl e \<Rightarrow> Inl e
                | Inr row2 \<Rightarrow> fill_filters bin num_filters (m + 1) (filters[m - 1 := row2]))
      else Inr filters)"
  by pat_completeness auto
termination
  by (relation "measure (\<lambda>(bin, num_filters, m, filters). Suc num_filters - m)") auto

declare fill_filters.simps [simp del]

text \<open>
  The builder.  Its contract is a filter count and an FFT size that are not negative and a
  positive sample rate; outside it the C++ throws from a vector constructor or meets a
  not-a-number, and the model answers \<open>OutsideModel\<close>.
\<close>

definition create_mel_filterbanks :: "int \<Rightarrow> int \<Rightarrow> int \<Rightarrow> fault + real list list" where
  "create_mel_filterbanks num_filters fft_size sample_rate =
     (if num_filters < 0 \<or> fft_size < 0 \<or> sample_rate \<le> 0 then Inl OutsideModel
      else let bin = mel_bins (nat num_filters) fft_size sample_rate;
               filters = replicate (nat num_filters) (replicate (nat (fft_size div 2 + 1)) 0)
           in fill_filters bin (nat num_filters) 1 filters)"

subsection \<open>Filter energies and cosine transform\<close>

text \<open>
  \<^verbatim>\<open>
  std::vector<double> apply_mel_filters(const std::vector<double>& power,
                                        const std::vector<std::vector<double>>& filterbanks) {
      int num_filters = filterbanks.size();
      std::vector<double> mel_energies(num_filters, 0.0);
      for (int m = 0; m < num_filters; m++) {
          for (size_t k = 0; k < power.size(); k++) {
              mel_energies[m] += power[k] * filterbanks[m][k];
          }
          if (mel_energies[m] > 0) mel_energies[m] = std::log(mel_energies[m]);
          else mel_energies[m] = std::log(1e-10); // Avoid log(0)
      }
      return mel_energies;
  }
  \<close>
  \<open>mel_energy_loop\<close> is the loop over \<open>k\<close> with the running sum \<open>mel_energies[m]\<close>; the read
  \<open>filterbanks[m][k]\<close> is checked against the size of the row.  \<open>mel_filters_loop\<close> is the
  loop over \<open>m\<close>, storing the logarithms in order.
\<close>

function mel_energy_loop :: "real list \<Rightarrow> real list \<Rightarrow> nat \<Rightarrow> real \<Rightarrow> fault + real" where
  "mel_energy_loop pw weights k energy =
     (if k < length pw
      then if k < length weights
           then mel_energy_loop pw weights (Suc k) (energy + pw ! k * weights ! k)
           else Inl IndexOutOfRange
      else Inr energy)"
  by pat_completeness auto
termination
  by (relation "measure (\<lambda>(pw, weights, k, energy). length pw - k)") auto

declare mel_energy_loop.simps [simp del]

function mel_filters_loop :: "real list \<Rightarrow> real list list \<Rightarrow> nat \<Rightarrow> real list \<Rightarrow> fault + real list" where
  "mel_filters_loop pw filterbanks m mel_energies =
     (if m < length filterbanks
      then case mel_energy_loop pw (filterbanks ! m) 0 (mel_energies ! m) of
             Inl e \<Rightarrow> Inl e
           | Inr energy \<Rightarrow>
               mel_filters_loop pw filterbanks (Suc m)
                 (mel_energies[m := (if energy > 0 then ln energy else ln (1 / 10 ^ 10))])
      else Inr mel_energies)"
  by pat_completeness auto
termination
  by (relation "measure (\<lambda>(pw, filterbanks, m, mel_energies). length filterbanks - m)") auto

declare mel_filters_loop.simps [simp del]

definition apply_mel_filters :: "real list \<Rightarrow> real list list \<Rightarrow> fault + real list" where
  "apply_mel_filters pw filterbanks =
     (let num_filters = length filterbanks;
          mel_energies = replicate num_filters 0
      in mel_filters_loop pw filterbanks 0 mel_energies)"

text \<open>
  \<^verbatim>\<open>
  std::vector<float> dct(const std::vector<double>& mel_energies) {
      int num_mfcc = 13;
      int num_filters = mel_energies.size();
      std::vector<float> mfcc(num_mfcc, 0.0f);
      for (int k = 0; k < num_mfcc; k++) {
          double sum = 0.0;
          for (int m = 0; m < num_filters; m++) {
              sum += mel_energies[m] * std::cos(PI * k * (m + 0.5) / num_filters);
          }
          mfcc[k] = static_cast<float>(sum);
      }
      return mfcc;
  }
  \<close>
\<close>

function dct_sum_loop :: "real list \<Rightarrow> nat \<Rightarrow> nat \<Rightarrow> real \<Rightarrow> real" where
  "dct_sum_loop mel_energies k m acc =
     (if m < length mel_energies
      then dct_sum_loop mel_energies k (Suc m)
             (acc + mel_energies ! m * cos (PI * real k * (real m + 0.5) / real (length mel_energies)))
      else acc)"
  by pat_completeness auto
termination
  by (relation "measure (\<lambda>(mel_energies, k, m, acc). length mel_energies - m)") auto

declare dct_sum_loop.simps [simp del]

function dct_loop :: "real list \<Rightarrow> nat \<Rightarrow> nat \<Rightarrow> real list \<Rightarrow> real list" where
  "dct_loop mel_energies num_mfcc k mfcc =
     (if k < num_mfcc
      then dct_loop mel_energies num_mfcc (Suc k) (mfcc[k := dct_sum_loop mel_energies k 0 0])
      else mfcc)"
  by pat_completeness auto
termination
  by (relation "measure (\<lambda>(mel_energies, num_mfcc, k, mfcc). num_mfcc - k)") auto

declare dct_loop.simps [simp del]

definition dct :: "real list \<Rightarrow> real list" where
  "dct mel_energies =
     (let num_mfcc = 13;
          mfcc = replicate num_mfcc 0
      in dct_loop mel_energies num_mfcc 0 mfcc)"

subsection \<open>MFCC of one frame\<close>

text \<open>
  \<^verbatim>\<open>
  extractMFCC(JNIEnv* env, jobject, jfloatArray audioData) {
      ... frame = the samples of audioData ...
      pre_emphasis(frame);
      hamming_window(frame);
      std::vector<double> power = power_spectrum(frame);
      std::vector<std::vector<double>> filterbanks =
          create_mel_filterbanks(40, power.size() * 2 - 2, SAMPLE_RATE);
      std::vector<double> mel_energies = apply_mel_filters(power, filterbanks);
      std::vector<float> mfcc = dct(mel_energies);
      ... return mfcc as a float array ...
  }
  \<close>
  The marshalling of the Java arrays is not modelled: the frame comes in and the
  coefficients go out as lists.
\<close>

definition extractMFCC :: "real list \<Rightarrow> fault + real list" where
  "extractMFCC audioData =
     (case pre_emphasis audioData of
        Inl e \<Rightarrow> Inl e
      | Inr frame1 \<Rightarrow>
     (case hamming_window frame1 of
        Inl e \<Rightarrow> Inl e
      | Inr frame \<Rightarrow>
     (case power_spectrum frame of
        Inl e \<Rightarrow> Inl e
      | Inr pw \<Rightarrow>
     (case create_mel_filterbanks 40 (int (length pw) * 2 - 2) SAMPLE_RATE of
        Inl e \<Rightarrow> Inl e
      | Inr filterbanks \<Rightarrow>
     (case apply_mel_filters pw filterbanks of
        Inl e \<Rightarrow> Inl e
      | Inr mel_energies \<Rightarrow> Inr (dct mel_energies))))))"

section \<open>Sequence aligner in exact arithmetic\<close>

text \<open>
  The two functions of the sequence aligner with every operation exact, on finite values.
  The next section has them in the arithmetic of the program.
\<close>

subsection \<open>Cosine similarity\<close>

text \<open>
  \<^verbatim>\<open>
  float cosineSimilarity(const std::vector<float>& vec1, const std::vector<float>& vec2) {
      if (vec1.size() != vec2.size()) return 0.0f;
      float dot = 0.0f, norm1 = 0.0f, norm2 = 0.0f;
      for (size_t i = 0; i < vec1.size(); ++i) {
          dot += vec1[i] * vec2[i];
          norm1 += vec1[i] * vec1[i];
          norm2 += vec2[i] * vec2[i];
      }
      float denom = std::sqrt(norm1) * std::sqrt(norm2);
      return denom == 0.0f ? 0.0f : dot / denom;
  }
  \<close>
  The loop carries the three accumulators; it is entered only when both vectors have the
  same size, so every index it reads is in range.
\<close>

function cosine_loop :: "real list \<Rightarrow> real list \<Rightarrow> nat \<Rightarrow> real \<times> real \<times> real \<Rightarrow> real \<times> real \<times> real" where
  "cosine_loop vec1 vec2 i (dot, norm1, norm2) =
     (if i < length vec1
      then cosine_loop vec1 vec2 (Suc i)
             (dot + vec1 ! i * vec2 ! i, norm1 + vec1 ! i * vec1 ! i, norm2 + vec2 ! i * vec2 ! i)
      else (dot, norm1, norm2))"
  by pat_completeness auto
termination
  by (relation "measure (\<lambda>(vec1, vec2, i, acc). length vec1 - i)") auto

declare cosine_loop.simps [simp del]

definition cosineSimilarity :: "real list \<Rightarrow> real list \<Rightarrow> real" where
  "cosineSimilarity vec1 vec2 =
     (if length vec1 \<noteq> length vec2 then 0
      else (case cosine_loop vec1 vec2 0 (0, 0, 0) of
              (dot, norm1, norm2) \<Rightarrow>
                let denom = sqrt norm1 * sqrt norm2
                in if denom = 0 then 0 else dot / denom))"

subsection \<open>Dynamic time warping\<close>

text \<open>
  \<^verbatim>\<open>
  std::vector<std::vector<float>> dp(len1 + 1,
      std::vector<float>(len2 + 1, std::numeric_limits<float>::infinity()));
  dp[0][0] = 0.0f;
  for (size_t i = 1; i <= len1; ++i) {
      for (size_t j = 1; j <= len2; ++j) {
          float cost = 1.0f - cosineSimilarity(seq1[i - 1], seq2[j - 1]);
          dp[i][j] = cost + std::min({dp[i - 1][j], dp[i][j - 1], dp[i - 1][j - 1]});
      }
  }
  return 1.0f - (dp[len1][len2] / (len1 + len2));
  \<close>
  The table is a list of rows, updated in place.  The loops keep \<open>1 \<le> i \<le> len1\<close> and
  \<open>1 \<le> j \<le> len2\<close>, so every read and write is inside the table and the sequences.
\<close>

function dtw_inner :: "real list list \<Rightarrow> real list list \<Rightarrow> nat \<Rightarrow> nat \<Rightarrow> fval list list \<Rightarrow> fval list list" where
  "dtw_inner seq1 seq2 i j dp =
     (if j \<le> length seq2
      then let cost = 1 - cosineSimilarity (seq1 ! (i - 1)) (seq2 ! (j - 1));
               c = fadd (Fin cost) (min3 (dp ! (i - 1) ! j) (dp ! i ! (j - 1)) (dp ! (i - 1) ! (j - 1)))
           in dtw_inner seq1 seq2 i (Suc j) (dp[i := (dp ! i)[j := c]])
      else dp)"
  by pat_completeness auto
termination
  by (relation "measure (\<lambda>(seq1, seq2, i, j, dp). Suc (length seq2) - j)") auto

declare dtw_inner.simps [simp del]

function dtw_outer :: "real list list \<Rightarrow> real list list \<Rightarrow> nat \<Rightarrow> fval list list \<Rightarrow> fval list list" where
  "dtw_outer seq1 seq2 i dp =
     (if i \<le> length seq1
      then dtw_outer seq1 seq2 (Suc i) (dtw_inner seq1 seq2 i 1 dp)
      else dp)"
  by pat_completeness auto
termination
  by (relation "measure (\<lambda>(seq1, seq2, i, dp). Suc (length seq1) - i)") auto

declare dtw_outer.simps [simp del]

text \<open>The table as it stands when the loops are done.\<close>

definition dtw_table :: "real list list \<Rightarrow> real list list \<Rightarrow> fval list list" where
  "dtw_table seq1 seq2 =
     (let len1 = length seq1; len2 = length seq2;
          dp = replicate (len1 + 1) (replicate (len2 + 1) PInf);
          dp = dp[0 := (dp ! 0)[0 := Fin 0]]
      in dtw_outer seq1 seq2 1 dp)"

definition computeDTW :: "real list list \<Rightarrow> real list list \<Rightarrow> fval" where
  "computeDTW seq1 seq2 =
     (let len1 = length seq1; len2 = length seq2;
          dp = dtw_table seq1 seq2
      in fsub (Fin 1) (fdiv_count (dp ! len1 ! len2) (len1 + len2)))"

section \<open>Sequence aligner in float arithmetic\<close>

text \<open>
  \<^verbatim>\<open>cosineSimilarity\<close> and \<^verbatim>\<open>computeDTW\<close> compute in \<^verbatim>\<open>float\<close>, the IEEE 754 binary32
  format.  This section models the two functions with that arithmetic: a value is a finite
  number, an infinity or not-a-number (\<open>fval\<close>), a feature vector is a list of such values,
  and every operation returns its exact result rounded by a function \<open>rnd\<close>.  With \<open>rnd32\<close>
  for \<open>rnd\<close> the functions compute what the program computes, overflow and underflow
  included; with \<open>Fin\<close> for \<open>rnd\<close> nothing is rounded and they compute in exact arithmetic.

  The two zeros of the format are one value here.  The program does not tell them apart:
  it compares a zero only with \<^verbatim>\<open>==\<close>, and the only division by a zero is the \<open>0 / 0\<close> of
  two empty sequences.
\<close>

subsection \<open>Rounding to binary32\<close>

text \<open>
  Rounding of a real number to the nearest integer, a tie going to the even one.
\<close>

definition round_even :: "real \<Rightarrow> int" where
  "round_even y =
     (let f = \<lfloor>y\<rfloor>; d = y - of_int f
      in if d < 1 / 2 then f else if 1 / 2 < d then f + 1
         else if even f then f else f + 1)"

text \<open>
  Rounding to nearest, ties to even, to binary32.  A number \<open>x\<close> with
  \<open>2\<^sup>e \<le> |x| < 2\<^sup>e\<^sup>+\<^sup>1\<close> is rounded to a multiple of \<open>2\<^sup>e\<^sup>-\<^sup>2\<^sup>3\<close> (a significand of 24 bits);
  below \<open>2\<^sup>-\<^sup>1\<^sup>2\<^sup>6\<close> the spacing stays \<open>2\<^sup>-\<^sup>1\<^sup>4\<^sup>9\<close> (subnormal numbers, and underflow to
  zero); a result of magnitude \<open>2\<^sup>1\<^sup>2\<^sup>8\<close> or more is the infinity of the sign (overflow).
\<close>

definition rnd32 :: "real \<Rightarrow> fval" where
  "rnd32 x =
     (if x = 0 then Fin 0
      else let e = max \<lfloor>log 2 \<bar>x\<bar>\<rfloor> (- 126);
               u = 2 powr (of_int e - 23);
               r = of_int (round_even (x / u)) * u
           in if 2 ^ 128 \<le> \<bar>r\<bar> then (if 0 < x then PInf else NInf) else Fin r)"

text \<open>The result of an operation, rounded: a finite result is rounded, a special value stays.\<close>

fun fround :: "(real \<Rightarrow> fval) \<Rightarrow> fval \<Rightarrow> fval" where
  "fround rnd (Fin a) = rnd a"
| "fround rnd PInf = PInf"
| "fround rnd NInf = NInf"
| "fround rnd NaN = NaN"

subsection \<open>Multiplication, division and square root\<close>

text \<open>\<^verbatim>\<open>x * y\<close> on floats, before rounding: zero times an infinity is not-a-number.\<close>

fun fmul :: "fval \<Rightarrow> fval \<Rightarrow> fval" where
  "fmul (Fin a) (Fin b) = Fin (a * b)"
| "fmul NaN _ = NaN"
| "fmul _ NaN = NaN"
| "fmul (Fin a) PInf = (if a = 0 then NaN else if 0 < a then PInf else NInf)"
| "fmul (Fin a) NInf = (if a = 0 then NaN else if 0 < a then NInf else PInf)"
| "fmul PInf (Fin b) = (if b = 0 then NaN else if 0 < b then PInf else NInf)"
| "fmul NInf (Fin b) = (if b = 0 then NaN else if 0 < b then NInf else PInf)"
| "fmul PInf PInf = PInf"
| "fmul PInf NInf = NInf"
| "fmul NInf PInf = NInf"
| "fmul NInf NInf = PInf"

text \<open>
  \<^verbatim>\<open>x / y\<close> on floats, before rounding: a finite non-zero value divided by zero is an
  infinity, \<open>0 / 0\<close> and an infinity divided by an infinity are not-a-number, and a finite
  value divided by an infinity is zero.
\<close>

fun fdiv :: "fval \<Rightarrow> fval \<Rightarrow> fval" where
  "fdiv NaN _ = NaN"
| "fdiv _ NaN = NaN"
| "fdiv (Fin a) (Fin b) =
     (if b = 0 then (if a = 0 then NaN else if 0 < a then PInf else NInf) else Fin (a / b))"
| "fdiv (Fin a) PInf = Fin 0"
| "fdiv (Fin a) NInf = Fin 0"
| "fdiv PInf (Fin b) = (if 0 \<le> b then PInf else NInf)"
| "fdiv NInf (Fin b) = (if 0 \<le> b then NInf else PInf)"
| "fdiv PInf PInf = NaN"
| "fdiv PInf NInf = NaN"
| "fdiv NInf PInf = NaN"
| "fdiv NInf NInf = NaN"

text \<open>\<^verbatim>\<open>std::sqrt(x)\<close> on floats, before rounding.\<close>

fun fsqrt :: "fval \<Rightarrow> fval" where
  "fsqrt (Fin a) = (if a < 0 then NaN else Fin (sqrt a))"
| "fsqrt PInf = PInf"
| "fsqrt NInf = NaN"
| "fsqrt NaN = NaN"

subsection \<open>Cosine similarity\<close>

text \<open>
  \<^verbatim>\<open>
  float cosineSimilarity(const std::vector<float>& vec1, const std::vector<float>& vec2) {
      if (vec1.size() != vec2.size()) return 0.0f;
      float dot = 0.0f, norm1 = 0.0f, norm2 = 0.0f;
      for (size_t i = 0; i < vec1.size(); ++i) {
          dot += vec1[i] * vec2[i];
          norm1 += vec1[i] * vec1[i];
          norm2 += vec2[i] * vec2[i];
      }
      float denom = std::sqrt(norm1) * std::sqrt(norm2);
      return denom == 0.0f ? 0.0f : dot / denom;
  }
  \<close>
  Each product and each sum of the loop is rounded, the two square roots (the \<^verbatim>\<open>float\<close>
  overload of \<^verbatim>\<open>std::sqrt\<close>) are rounded, and so are their product and the quotient.
  The comparison \<^verbatim>\<open>denom == 0.0f\<close> is false for an infinity and for not-a-number.
\<close>

function cosine_loop_fl :: "(real \<Rightarrow> fval) \<Rightarrow> fval list \<Rightarrow> fval list \<Rightarrow> nat \<Rightarrow> fval \<times> fval \<times> fval \<Rightarrow> fval \<times> fval \<times> fval" where
  "cosine_loop_fl rnd vec1 vec2 i (dot, norm1, norm2) =
     (if i < length vec1
      then cosine_loop_fl rnd vec1 vec2 (Suc i)
             (fround rnd (fadd dot (fround rnd (fmul (vec1 ! i) (vec2 ! i)))),
              fround rnd (fadd norm1 (fround rnd (fmul (vec1 ! i) (vec1 ! i)))),
              fround rnd (fadd norm2 (fround rnd (fmul (vec2 ! i) (vec2 ! i)))))
      else (dot, norm1, norm2))"
  by pat_completeness auto
termination
  by (relation "measure (\<lambda>(rnd, vec1, vec2, i, acc). length vec1 - i)") auto

declare cosine_loop_fl.simps [simp del]

definition cosineSimilarity_fl :: "(real \<Rightarrow> fval) \<Rightarrow> fval list \<Rightarrow> fval list \<Rightarrow> fval" where
  "cosineSimilarity_fl rnd vec1 vec2 =
     (if length vec1 \<noteq> length vec2 then Fin 0
      else (case cosine_loop_fl rnd vec1 vec2 0 (Fin 0, Fin 0, Fin 0) of
              (dot, norm1, norm2) \<Rightarrow>
                let denom = fround rnd (fmul (fround rnd (fsqrt norm1)) (fround rnd (fsqrt norm2)))
                in if denom = Fin 0 then Fin 0 else fround rnd (fdiv dot denom)))"

subsection \<open>Dynamic time warping\<close>

text \<open>
  \<^verbatim>\<open>
  std::vector<std::vector<float>> dp(len1 + 1,
      std::vector<float>(len2 + 1, std::numeric_limits<float>::infinity()));
  dp[0][0] = 0.0f;
  for (size_t i = 1; i <= len1; ++i) {
      for (size_t j = 1; j <= len2; ++j) {
          float cost = 1.0f - cosineSimilarity(seq1[i - 1], seq2[j - 1]);
          dp[i][j] = cost + std::min({dp[i - 1][j], dp[i][j - 1], dp[i - 1][j - 1]});
      }
  }
  return 1.0f - (dp[len1][len2] / (len1 + len2));
  \<close>
  The subtraction that gives the cost and the addition that gives the cell are rounded.  In
  the last line the integer \<open>len1 + len2\<close> is converted to \<^verbatim>\<open>float\<close>, which rounds it, and
  the division and the subtraction are rounded.
\<close>

function dtw_inner_fl :: "(real \<Rightarrow> fval) \<Rightarrow> fval list list \<Rightarrow> fval list list \<Rightarrow> nat \<Rightarrow> nat \<Rightarrow> fval list list \<Rightarrow> fval list list" where
  "dtw_inner_fl rnd seq1 seq2 i j dp =
     (if j \<le> length seq2
      then let cost = fround rnd (fsub (Fin 1) (cosineSimilarity_fl rnd (seq1 ! (i - 1)) (seq2 ! (j - 1))));
               c = fround rnd (fadd cost (min3 (dp ! (i - 1) ! j) (dp ! i ! (j - 1)) (dp ! (i - 1) ! (j - 1))))
           in dtw_inner_fl rnd seq1 seq2 i (Suc j) (dp[i := (dp ! i)[j := c]])
      else dp)"
  by pat_completeness auto
termination
  by (relation "measure (\<lambda>(rnd, seq1, seq2, i, j, dp). Suc (length seq2) - j)") auto

declare dtw_inner_fl.simps [simp del]

function dtw_outer_fl :: "(real \<Rightarrow> fval) \<Rightarrow> fval list list \<Rightarrow> fval list list \<Rightarrow> nat \<Rightarrow> fval list list \<Rightarrow> fval list list" where
  "dtw_outer_fl rnd seq1 seq2 i dp =
     (if i \<le> length seq1
      then dtw_outer_fl rnd seq1 seq2 (Suc i) (dtw_inner_fl rnd seq1 seq2 i 1 dp)
      else dp)"
  by pat_completeness auto
termination
  by (relation "measure (\<lambda>(rnd, seq1, seq2, i, dp). Suc (length seq1) - i)") auto

declare dtw_outer_fl.simps [simp del]

text \<open>The table as it stands when the loops are done.\<close>

definition dtw_table_fl :: "(real \<Rightarrow> fval) \<Rightarrow> fval list list \<Rightarrow> fval list list \<Rightarrow> fval list list" where
  "dtw_table_fl rnd seq1 seq2 =
     (let len1 = length seq1; len2 = length seq2;
          dp = replicate (len1 + 1) (replicate (len2 + 1) PInf);
          dp = dp[0 := (dp ! 0)[0 := Fin 0]]
      in dtw_outer_fl rnd seq1 seq2 1 dp)"

definition computeDTW_fl :: "(real \<Rightarrow> fval) \<Rightarrow> fval list list \<Rightarrow> fval list list \<Rightarrow> fval" where
  "computeDTW_fl rnd seq1 seq2 =
     (let len1 = length seq1; len2 = length seq2;
          dp = dtw_table_fl rnd seq1 seq2
      in fround rnd (fsub (Fin 1) (fround rnd (fdiv (dp ! len1 ! len2) (rnd (real (len1 + len2)))))))"

section \<open>Verification of the transform\<close>

subsection \<open>Definitions for the specification\<close>

text \<open>
  The discrete Fourier sum \<open>\<Sum>j<m. g j * w ^ (j * k)\<close>, the root of unity
  \<open>cos (sg * 2 * pi / m) + \<i> * sin (sg * 2 * pi / m)\<close> (\<open>sg = 1\<close> for the forward and \<open>sg = -1\<close> for the
  inverse direction), and the transform of a whole sequence with that root.
\<close>

definition dft_sum :: "nat \<Rightarrow> complex \<Rightarrow> (nat \<Rightarrow> complex) \<Rightarrow> nat \<Rightarrow> complex" where
  "dft_sum m w g k = (\<Sum>j<m. g j * w ^ (j * k))"

definition unity_root :: "real \<Rightarrow> nat \<Rightarrow> complex" where
  "unity_root sg m = cis (sg * (2 * pi) / real m)"

definition dft :: "real \<Rightarrow> complex list \<Rightarrow> complex list" where
  "dft sg x = map (\<lambda>k. dft_sum (length x) (unity_root sg (length x)) (\<lambda>j. x ! j) k) [0..<length x]"

text \<open>
  The reversal of the lowest \<open>l\<close> bits of an index, which the permutation loop computes.
\<close>

fun bitrev :: "nat \<Rightarrow> nat \<Rightarrow> nat" where
  "bitrev 0 i = 0"
| "bitrev (Suc l) i = 2 ^ l * (i mod 2) + bitrev l (i div 2)"

text \<open>
  One cell of the vector after a butterfly stage of half block size \<open>h\<close>: the lower half of
  a block holds \<open>u + v\<close>, the upper half \<open>u - v\<close>.
\<close>

definition fft_stage_cell :: "complex list \<Rightarrow> nat \<Rightarrow> complex \<Rightarrow> nat \<Rightarrow> complex" where
  "fft_stage_cell a h wlen p =
     (if p mod (2 * h) < h then a ! p + a ! (p + h) * wlen ^ (p mod (2 * h))
      else a ! (p - h) - a ! p * wlen ^ (p mod (2 * h) - h))"

text \<open>
  The invariant of the loop over \<open>len\<close>: once the blocks of size \<open>2 ^ s\<close> are done, block
  \<open>b\<close> holds the transform of the \<open>2 ^ s\<close> input elements whose index is the reversal of
  \<open>b\<close> modulo \<open>2 ^ (l - s)\<close>.
\<close>

definition fft_level :: "complex list \<Rightarrow> nat \<Rightarrow> nat \<Rightarrow> real \<Rightarrow> complex list \<Rightarrow> bool" where
  "fft_level x l s sg a \<longleftrightarrow>
     length a = 2 ^ l \<and>
     (\<forall>b < 2 ^ (l - s). \<forall>k < 2 ^ s.
        a ! (b * 2 ^ s + k) =
          dft_sum (2 ^ s) (unity_root sg (2 ^ s)) (\<lambda>j. x ! (bitrev (l - s) b + j * 2 ^ (l - s))) k)"

subsection \<open>Bit reversal and the permutation loop\<close>

lemma fft_lg_pow2: "l \<le> L \<Longrightarrow> fft_lg (2 ^ L) l = L"
proof (induction "L - l" arbitrary: l)
  case 0
  then have "l = L" by simp
  then show ?case by (subst fft_lg.simps) simp
next
  case (Suc d)
  then have lt: "l < L" by simp
  then have "(2::nat) ^ l < 2 ^ L" by simp
  moreover have "fft_lg (2 ^ L) (Suc l) = L" using Suc lt by simp
  ultimately show ?case by (subst fft_lg.simps) simp
qed

lemma bitrev_less: "bitrev l i < 2 ^ l"
proof (induction l arbitrary: i)
  case 0
  show ?case by simp
next
  case (Suc l)
  have "i mod 2 \<le> 1" by simp
  then have "2 ^ l * (i mod 2) \<le> 2 ^ l * 1" by (rule mult_le_mono2)
  then have a: "2 ^ l * (i mod 2) \<le> (2::nat) ^ l" by simp
  from add_le_less_mono[OF a Suc[of "i div 2"]] show ?case by simp
qed

lemma fft_rev_bitrev:
  "j \<le> l \<Longrightarrow> 2 ^ (l - j) dvd rv \<Longrightarrow> fft_rev i l j rv = rv + bitrev (l - j) (i div 2 ^ j)"
proof (induction i l j rv rule: fft_rev.induct)
  case (1 i l j rv)
  show ?case
  proof (cases "j < l")
    case True
    obtain d where d: "l - j = Suc d" using True by (cases "l - j") auto
    then have d': "l - 1 - j = d" "l - Suc j = d" by simp_all
    have bit: "and i (push_bit j 1) \<noteq> 0 \<longleftrightarrow> odd (i div 2 ^ j)"
      by (simp add: and_exp_eq_0_iff_not_bit bit_iff_odd)
    obtain q where q: "rv = 2 ^ Suc d * q" using "1.prems"(2) d by (auto simp: dvd_def)
    have disj: "and rv (2 ^ d) = 0"
      unfolding q by (simp add: and_exp_eq_0_iff_not_bit bit_iff_odd)
    have orr: "or rv (push_bit (l - 1 - j) 1) = rv + 2 ^ d"
      using disjunctive_add_eq_or[OF disj] by (simp add: d')
    define rv2 where "rv2 = (if and i (push_bit j 1) \<noteq> 0 then or rv (push_bit (l - 1 - j) 1) else rv)"
    have rv': "rv2 = rv + 2 ^ d * ((i div 2 ^ j) mod 2)"
      unfolding rv2_def using bit orr by (auto simp: odd_iff_mod_2_eq_one)
    have "2 ^ d dvd 2 ^ Suc d * q + 2 ^ d * ((i div 2 ^ j) mod 2)" by simp
    then have dv: "2 ^ (l - Suc j) dvd rv2"
      by (simp only: rv' d' q)
    have "fft_rev i l j rv = fft_rev i l (Suc j) rv2"
      using True unfolding rv2_def by (subst fft_rev.simps) simp
    also have "\<dots> = rv2 + bitrev (l - Suc j) (i div 2 ^ Suc j)"
      using "1.IH"[OF True _ dv[unfolded rv2_def]] True unfolding rv2_def by simp
    also have "\<dots> = rv + bitrev (l - j) (i div 2 ^ j)"
    proof -
      have "i div 2 ^ Suc j = i div 2 ^ j div 2"
        by (simp only: power_Suc2 div_mult2_eq)
      then show ?thesis unfolding rv' d d' by simp
    qed
    finally show ?thesis .
  next
    case False
    then have "l - j = 0" by simp
    with False show ?thesis by (subst fft_rev.simps) simp
  qed
qed

lemma fft_rev_eq: "fft_rev i l 0 0 = bitrev l i"
  using fft_rev_bitrev[of 0 l 0 i] by simp

lemma bitrev_even: "bitrev (Suc l) (2 * b) = bitrev l b"
  by simp

lemma bitrev_odd: "bitrev (Suc l) (2 * b + 1) = 2 ^ l + bitrev l b"
  by simp

lemma bitrev_high: "y < 2 ^ l \<Longrightarrow> c < 2 \<Longrightarrow> bitrev (Suc l) (2 ^ l * c + y) = 2 * bitrev l y + c"
proof (induction l arbitrary: y)
  case 0
  then show ?case by simp
next
  case (Suc l)
  have y2: "y div 2 < 2 ^ l" using Suc.prems(1) by simp
  have e: "2 ^ Suc l * c + y = 2 * (2 ^ l * c) + y" by simp
  have m: "(2 ^ Suc l * c + y) mod 2 = y mod 2" unfolding e by simp
  have d: "(2 ^ Suc l * c + y) div 2 = 2 ^ l * c + y div 2" unfolding e by simp
  have "bitrev (Suc (Suc l)) (2 ^ Suc l * c + y)
      = 2 ^ Suc l * (y mod 2) + bitrev (Suc l) (2 ^ l * c + y div 2)"
    by (simp only: bitrev.simps m d)
  also have "\<dots> = 2 ^ Suc l * (y mod 2) + (2 * bitrev l (y div 2) + c)"
    using Suc.IH[OF y2 Suc.prems(2)] by simp
  also have "\<dots> = 2 * bitrev (Suc l) y + c" by simp
  finally show ?case .
qed

lemma bitrev_involution: "i < 2 ^ l \<Longrightarrow> bitrev l (bitrev l i) = i"
proof (induction l arbitrary: i)
  case 0
  then show ?case by simp
next
  case (Suc l)
  have i2: "i div 2 < 2 ^ l" using Suc.prems by simp
  have "bitrev (Suc l) (bitrev (Suc l) i) = bitrev (Suc l) (2 ^ l * (i mod 2) + bitrev l (i div 2))"
    by simp
  also have "\<dots> = 2 * bitrev l (bitrev l (i div 2)) + i mod 2"
    by (rule bitrev_high) (simp_all add: bitrev_less)
  also have "\<dots> = i" using Suc.IH[OF i2] by simp
  finally show ?case .
qed

lemma fft_permute_inv:
  "n = 2 ^ l \<Longrightarrow> length x = n \<Longrightarrow> length c = n \<Longrightarrow> i \<le> n \<Longrightarrow>
   (\<forall>p < n. c ! p = (if p < i \<or> bitrev l p < i then x ! bitrev l p else x ! p)) \<Longrightarrow>
   fft_permute c n l i = Inr (map (\<lambda>p. x ! bitrev l p) [0..<n])"
proof (induction c n l i rule: fft_permute.induct)
  case (1 c n l i)
  note n = "1.prems"(1) and lx = "1.prems"(2) and lc = "1.prems"(3) and inv = "1.prems"(5)
  show ?case
  proof (cases "i < n")
    case True
    note i = this
    let ?r = "bitrev l i"
    have r: "?r < n" using n by (simp add: bitrev_less)
    have rr: "bitrev l ?r = i" using i n by (simp add: bitrev_involution)
    have rev: "fft_rev i l 0 0 = ?r" by (rule fft_rev_eq)
    show ?thesis
    proof (cases "i < ?r")
      case True
      let ?c = "c[i := c ! ?r, ?r := c ! i]"
      have ci: "c ! i = x ! i" using inv i True by simp
      have cr: "c ! ?r = x ! ?r" using inv r rr True by simp
      have inv': "\<forall>p < n. ?c ! p = (if p < Suc i \<or> bitrev l p < Suc i then x ! bitrev l p else x ! p)"
      proof (intro allI impI)
        fix p assume p: "p < n"
        show "?c ! p = (if p < Suc i \<or> bitrev l p < Suc i then x ! bitrev l p else x ! p)"
        proof (cases "p = ?r")
          case True
          then show ?thesis using r lc ci rr by simp
        next
          case False
          note pr = this
          show ?thesis
          proof (cases "p = i")
            case True
            then show ?thesis using pr i lc cr by simp
          next
            case False
            have "bitrev l p \<noteq> i"
            proof
              assume "bitrev l p = i"
              then have "bitrev l (bitrev l p) = ?r" by simp
              then show False using pr p n by (simp add: bitrev_involution)
            qed
            then have "(p < Suc i \<or> bitrev l p < Suc i) \<longleftrightarrow> (p < i \<or> bitrev l p < i)"
              using False by auto
            moreover have "?c ! p = c ! p" using pr False by simp
            ultimately show ?thesis using inv p by simp
          qed
        qed
      qed
      have "fft_permute c n l i = fft_permute ?c n l (Suc i)"
        using i True r lc rev by (subst fft_permute.simps) (simp add: Let_def)
      also have "\<dots> = Inr (map (\<lambda>p. x ! bitrev l p) [0..<n])"
        using "1.IH"(1)[OF i rev[symmetric] _ _ n lx _ _ inv'] True r lc i rev by simp
      finally show ?thesis .
    next
      case False
      have inv': "\<forall>p < n. c ! p = (if p < Suc i \<or> bitrev l p < Suc i then x ! bitrev l p else x ! p)"
      proof (intro allI impI)
        fix p assume p: "p < n"
        show "c ! p = (if p < Suc i \<or> bitrev l p < Suc i then x ! bitrev l p else x ! p)"
        proof (cases "p = i")
          case True
          show ?thesis
          proof (cases "?r = i")
            case True
            then show ?thesis using inv i \<open>p = i\<close> by simp
          next
            case False
            then have "?r < i" using \<open>\<not> i < ?r\<close> by simp
            then show ?thesis using inv i \<open>p = i\<close> by simp
          qed
        next
          case False
          note pi = this
          show ?thesis
          proof (cases "bitrev l p = i")
            case True
            then have "bitrev l (bitrev l p) = ?r" by simp
            then have pr: "p = ?r" using p n by (simp add: bitrev_involution)
            then have "p < i" using \<open>\<not> i < ?r\<close> pi by simp
            then show ?thesis using inv p by simp
          next
            case False
            then have "(p < Suc i \<or> bitrev l p < Suc i) \<longleftrightarrow> (p < i \<or> bitrev l p < i)"
              using pi by auto
            then show ?thesis using inv p by simp
          qed
        qed
      qed
      have "fft_permute c n l i = fft_permute c n l (Suc i)"
        using i False rev by (subst fft_permute.simps) (simp add: Let_def)
      also have "\<dots> = Inr (map (\<lambda>p. x ! bitrev l p) [0..<n])"
        using "1.IH"(2)[OF i rev[symmetric] _ n lx lc _ inv'] False i rev by simp
      finally show ?thesis .
    qed
  next
    case False
    then have "i = n" using "1.prems"(4) by simp
    then have "\<forall>p < n. c ! p = x ! bitrev l p" using inv by simp
    then have "c = map (\<lambda>p. x ! bitrev l p) [0..<n]"
      using lc by (intro nth_equalityI) simp_all
    moreover have "fft_permute c n l i = Inr c"
      using False by (subst fft_permute.simps) simp
    ultimately show ?thesis by simp
  qed
qed

lemma fft_permute_result:
  "length x = 2 ^ l \<Longrightarrow> fft_permute x (2 ^ l) l 0 = Inr (map (\<lambda>p. x ! bitrev l p) [0..<2 ^ l])"
  by (rule fft_permute_inv[of "2 ^ l" l x x 0]) simp_all

subsection \<open>The butterfly loops\<close>

lemma fft_butterfly_result:
  "i + 2 * (len div 2) \<le> length a \<Longrightarrow> w = wlen ^ j \<Longrightarrow>
   \<exists>a'. fft_butterfly a i len wlen j w = Inr a' \<and> length a' = length a \<and>
     (\<forall>p < length a. a' ! p =
        (if i + j \<le> p \<and> p < i + len div 2 then a ! p + a ! (p + len div 2) * wlen ^ (p - i)
         else if i + len div 2 + j \<le> p \<and> p < i + 2 * (len div 2)
              then a ! (p - len div 2) - a ! p * wlen ^ (p - len div 2 - i)
         else a ! p))"
proof (induction a i len wlen j w rule: fft_butterfly.induct)
  case (1 a i len wlen j w)
  let ?h = "len div 2"
  note bound = "1.prems"(1) and w = "1.prems"(2)
  show ?case
  proof (cases "j < ?h")
    case True
    note j = this
    have idx: "i + j + ?h < length a" using bound j by simp
    define u where "u = a ! (i + j)"
    define v where "v = a ! (i + j + ?h) * w"
    define a1 where "a1 = a[i + j := u + v, i + j + ?h := u - v]"
    have l1: "length a1 = length a" by (simp add: a1_def)
    have step: "fft_butterfly a i len wlen j w = fft_butterfly a1 i len wlen (Suc j) (w * wlen)"
      using j idx by (subst fft_butterfly.simps) (simp add: Let_def a1_def u_def v_def)
    have "\<exists>a'. fft_butterfly a1 i len wlen (Suc j) (w * wlen) = Inr a' \<and> length a' = length a1 \<and>
     (\<forall>p < length a1. a' ! p =
        (if i + Suc j \<le> p \<and> p < i + ?h then a1 ! p + a1 ! (p + ?h) * wlen ^ (p - i)
         else if i + ?h + Suc j \<le> p \<and> p < i + 2 * ?h
              then a1 ! (p - ?h) - a1 ! p * wlen ^ (p - ?h - i)
         else a1 ! p))"
    proof (rule "1.IH"[OF j idx u_def v_def, folded a1_def])
      show "i + 2 * ?h \<le> length a1" using bound l1 by simp
      show "w * wlen = wlen ^ Suc j" using w by simp
    qed
    then obtain a' where a': "fft_butterfly a1 i len wlen (Suc j) (w * wlen) = Inr a'"
      "length a' = length a1"
      "\<And>p. p < length a1 \<Longrightarrow> a' ! p =
        (if i + Suc j \<le> p \<and> p < i + ?h then a1 ! p + a1 ! (p + ?h) * wlen ^ (p - i)
         else if i + ?h + Suc j \<le> p \<and> p < i + 2 * ?h
              then a1 ! (p - ?h) - a1 ! p * wlen ^ (p - ?h - i)
         else a1 ! p)"
      by blast
    have n1: "a1 ! p = a ! p" if "p \<noteq> i + j" "p \<noteq> i + j + ?h" for p
      using that by (simp add: a1_def)
    have n2: "a1 ! (i + j) = u + v"
      using idx j by (simp add: a1_def)
    have n3: "a1 ! (i + j + ?h) = u - v"
      using idx by (simp add: a1_def)
    have "a' ! p =
        (if i + j \<le> p \<and> p < i + ?h then a ! p + a ! (p + ?h) * wlen ^ (p - i)
         else if i + ?h + j \<le> p \<and> p < i + 2 * ?h
              then a ! (p - ?h) - a ! p * wlen ^ (p - ?h - i)
         else a ! p)" if p: "p < length a" for p
    proof -
      consider (A) "p = i + j" | (B) "p = i + j + ?h" | (C) "i + Suc j \<le> p \<and> p < i + ?h"
        | (D) "i + ?h + Suc j \<le> p \<and> p < i + 2 * ?h"
        | (E) "p < i + j \<or> (i + ?h \<le> p \<and> p < i + ?h + j) \<or> i + 2 * ?h \<le> p"
        by linarith
      then show ?thesis
      proof cases
        case A
        then have "a' ! p = a1 ! p" using a'(3)[of p] p l1 j by simp
        then show ?thesis using A n2 j by (simp add: u_def v_def w)
      next
        case B
        then have "a' ! p = a1 ! p" using a'(3)[of p] p l1 j by simp
        then show ?thesis using B n3 j by (simp add: u_def v_def w)
      next
        case C
        then have "a' ! p = a1 ! p + a1 ! (p + ?h) * wlen ^ (p - i)"
          using a'(3)[of p] p l1 by simp
        moreover have "a1 ! p = a ! p"
          using C by (intro n1) linarith+
        moreover have "a1 ! (p + ?h) = a ! (p + ?h)"
          using C by (intro n1) linarith+
        ultimately show ?thesis using C by simp
      next
        case D
        then have "a' ! p = a1 ! (p - ?h) - a1 ! p * wlen ^ (p - ?h - i)"
          using a'(3)[of p] p l1 by simp
        moreover have "a1 ! p = a ! p"
          using D j by (intro n1) linarith+
        moreover have "a1 ! (p - ?h) = a ! (p - ?h)"
          using D j by (intro n1) linarith+
        ultimately show ?thesis using D by simp
      next
        case E
        then have "a' ! p = a1 ! p" using a'(3)[of p] p l1 by auto
        moreover have "a1 ! p = a ! p" using E j by (intro n1) auto
        ultimately show ?thesis using E by auto
      qed
    qed
    then show ?thesis using step a'(1) a'(2) l1 by auto
  next
    case False
    then have "fft_butterfly a i len wlen j w = Inr a"
      by (subst fft_butterfly.simps) simp
    then show ?thesis using False by auto
  qed
qed

lemma block_start_le:
  fixes len i p :: nat
  assumes "len dvd i" "i \<le> p"
  shows "i \<le> p - p mod len"
proof -
  obtain c where c: "i = len * c" using assms(1) by (auto simp: dvd_def)
  show ?thesis
  proof (cases "len = 0")
    case True
    then show ?thesis using c by simp
  next
    case False
    have "c \<le> p div len"
      using assms(2) c False by (simp add: less_eq_div_iff_mult_less_eq mult.commute)
    then have "len * c \<le> len * (p div len)" by simp
    also have "\<dots> = p - p mod len" by (simp add: minus_mod_eq_mult_div)
    finally show ?thesis using c by simp
  qed
qed

lemma block_end_le:
  fixes len n p :: nat
  assumes "len dvd n" "p < n" "0 < len"
  shows "p - p mod len + len \<le> n"
proof -
  obtain c where c: "n = len * c" using assms(1) by (auto simp: dvd_def)
  have "p div len < c"
    using assms(2,3) c by (simp add: div_less_iff_less_mult mult.commute)
  then have "Suc (p div len) \<le> c" by simp
  then have "len * Suc (p div len) \<le> len * c" by (rule mult_le_mono2)
  moreover have "p - p mod len = len * (p div len)" by (simp add: minus_mod_eq_mult_div)
  ultimately show ?thesis using c by simp
qed

lemma block_offset:
  fixes len i p :: nat
  assumes "len dvd i" "i \<le> p" "p < i + len"
  shows "p mod len = p - i"
proof -
  obtain c where c: "i = len * c" using assms(1) by (auto simp: dvd_def)
  have "p = (p - i) + len * c" using assms(2) c by simp
  then have "p mod len = (p - i) mod len" by (metis mod_mult_self2)
  also have "\<dots> = p - i" using assms(2,3) by simp
  finally show ?thesis .
qed

lemma fft_blocks_result:
  "len = 2 * h \<Longrightarrow> 0 < h \<Longrightarrow> len dvd n \<Longrightarrow> len dvd i \<Longrightarrow> i \<le> n \<Longrightarrow> length a = n \<Longrightarrow>
   \<exists>a'. fft_blocks a n len wlen i = Inr a' \<and> length a' = n \<and>
     (\<forall>p < n. a' ! p = (if i \<le> p then fft_stage_cell a h wlen p else a ! p))"
proof (induction a n len wlen i rule: fft_blocks.induct)
  case (1 a n len wlen i)
  note len = "1.prems"(1) and h = "1.prems"(2) and dn = "1.prems"(3) and di = "1.prems"(4)
    and la = "1.prems"(6)
  have h2: "len div 2 = h" using len by simp
  show ?case
  proof (cases "i < n")
    case True
    note i = this
    have iend: "i + len \<le> n"
      using block_end_le[OF dn i] block_offset[OF di, of i] len h by simp
    obtain a1 where a1: "fft_butterfly a i len wlen 0 1 = Inr a1" "length a1 = length a"
      "\<And>p. p < length a \<Longrightarrow> a1 ! p =
        (if i + 0 \<le> p \<and> p < i + len div 2 then a ! p + a ! (p + len div 2) * wlen ^ (p - i)
         else if i + len div 2 + 0 \<le> p \<and> p < i + 2 * (len div 2)
              then a ! (p - len div 2) - a ! p * wlen ^ (p - len div 2 - i)
         else a ! p)"
      using fft_butterfly_result[of i len a 1 wlen 0] iend la len by auto
    have "\<exists>a'. fft_blocks a1 n len wlen (i + len) = Inr a' \<and> length a' = n \<and>
     (\<forall>p < n. a' ! p = (if i + len \<le> p then fft_stage_cell a1 h wlen p else a1 ! p))"
    proof (rule "1.IH"[OF _ a1(1) len h dn])
      show "i < n \<and> 0 < len" using i len h by simp
      show "len dvd i + len" using di by simp
      show "i + len \<le> n" by (rule iend)
      show "length a1 = n" using a1(2) la by simp
    qed
    then obtain a' where a': "fft_blocks a1 n len wlen (i + len) = Inr a'" "length a' = n"
      "\<And>p. p < n \<Longrightarrow> a' ! p = (if i + len \<le> p then fft_stage_cell a1 h wlen p else a1 ! p)"
      by blast
    have run: "fft_blocks a n len wlen i = Inr a'"
      using i len h a1(1) a'(1) by (subst fft_blocks.simps) simp
    have "a' ! p = (if i \<le> p then fft_stage_cell a h wlen p else a ! p)" if p: "p < n" for p
    proof -
      consider (before) "p < i" | (inside) "i \<le> p \<and> p < i + len" | (after) "i + len \<le> p"
        by linarith
      then show ?thesis
      proof cases
        case before
        then have "a' ! p = a1 ! p" using a'(3)[OF p] by simp
        also have "\<dots> = a ! p" using a1(3)[of p] p la before by simp
        finally show ?thesis using before by simp
      next
        case inside
        have off: "p mod (2 * h) = p - i"
          using block_offset[OF di, of p] inside len by simp
        have "a' ! p = a1 ! p" using a'(3)[OF p] inside by simp
        also have "\<dots> = (if p < i + h then a ! p + a ! (p + h) * wlen ^ (p - i)
              else a ! (p - h) - a ! p * wlen ^ (p - h - i))"
          using a1(3)[of p] p la inside h2 len by simp
        also have "\<dots> = fft_stage_cell a h wlen p"
        proof -
          have "p - h - i = p - i - h" by simp
          moreover have "p < i + h \<longleftrightarrow> p - i < h" using inside by auto
          ultimately show ?thesis unfolding fft_stage_cell_def off by simp
        qed
        finally show ?thesis using inside by simp
      next
        case after
        have base: "i + 2 * h \<le> p - p mod (2 * h)"
          using block_start_le[of len "i + len" p] di after len by simp
        have top: "p - p mod (2 * h) + 2 * h \<le> n"
          using block_end_le[OF dn p] len h by simp
        have ml: "p mod (2 * h) \<le> p" by (rule mod_less_eq_dividend)
        have same: "a1 ! q = a ! q" if "i + len \<le> q" "q < n" for q
          using a1(3)[of q] that la h2 len by simp
        have "a' ! p = fft_stage_cell a1 h wlen p" using a'(3)[OF p] after by simp
        also have "\<dots> = fft_stage_cell a h wlen p"
        proof (cases "p mod (2 * h) < h")
          case True
          have "p + h < n" using True top ml by linarith
          then have "a1 ! (p + h) = a ! (p + h)" using after by (intro same) simp_all
          moreover have "a1 ! p = a ! p" using after p by (intro same)
          ultimately show ?thesis using True by (simp add: fft_stage_cell_def)
        next
          case False
          have "i + len \<le> p - h" using False base ml len by linarith
          then have "a1 ! (p - h) = a ! (p - h)" using p by (intro same) simp_all
          moreover have "a1 ! p = a ! p" using after p by (intro same)
          ultimately show ?thesis using False by (simp add: fft_stage_cell_def)
        qed
        finally show ?thesis using after by simp
      qed
    qed
    with run a'(2) show ?thesis by blast
  next
    case False
    then have "fft_blocks a n len wlen i = Inr a" by (subst fft_blocks.simps) simp
    then show ?thesis using False la by auto
  qed
qed

subsection \<open>Splitting a Fourier sum\<close>

lemma sum_even_odd:
  fixes f :: "nat \<Rightarrow> complex"
  shows "(\<Sum>j<2 * m. f j) = (\<Sum>j<m. f (2 * j)) + (\<Sum>j<m. f (2 * j + 1))"
proof (induction m)
  case 0
  show ?case by simp
next
  case (Suc m)
  have "2 * Suc m = Suc (Suc (2 * m))" by simp
  then have "(\<Sum>j<2 * Suc m. f j) = (\<Sum>j<2 * m. f j) + f (2 * m) + f (2 * m + 1)"
    by (simp only: sum.lessThan_Suc) simp
  then show ?case using Suc by simp
qed

lemma dft_split_low:
  "dft_sum (2 * m) w g k =
     dft_sum m (w\<^sup>2) (\<lambda>j. g (2 * j)) k + w ^ k * dft_sum m (w\<^sup>2) (\<lambda>j. g (2 * j + 1)) k"
proof -
  have e: "g (2 * j) * w ^ (2 * j * k) = g (2 * j) * (w\<^sup>2) ^ (j * k)" for j
    by (simp add: power_mult[symmetric] mult.assoc)
  have o: "g (2 * j + 1) * w ^ ((2 * j + 1) * k) = w ^ k * (g (2 * j + 1) * (w\<^sup>2) ^ (j * k))" for j
  proof -
    have "(2 * j + 1) * k = 2 * (j * k) + k" by (simp add: algebra_simps)
    then have "w ^ ((2 * j + 1) * k) = (w\<^sup>2) ^ (j * k) * w ^ k"
      by (simp only: power_add power_mult)
    then show ?thesis by simp
  qed
  have "dft_sum (2 * m) w g k =
      (\<Sum>j<m. g (2 * j) * w ^ (2 * j * k)) + (\<Sum>j<m. g (2 * j + 1) * w ^ ((2 * j + 1) * k))"
    unfolding dft_sum_def by (rule sum_even_odd)
  also have "\<dots> = (\<Sum>j<m. g (2 * j) * (w\<^sup>2) ^ (j * k)) + (\<Sum>j<m. w ^ k * (g (2 * j + 1) * (w\<^sup>2) ^ (j * k)))"
    by (simp only: e o)
  also have "\<dots> = dft_sum m (w\<^sup>2) (\<lambda>j. g (2 * j)) k + w ^ k * dft_sum m (w\<^sup>2) (\<lambda>j. g (2 * j + 1)) k"
    by (simp add: dft_sum_def sum_distrib_left)
  finally show ?thesis .
qed

lemma dft_sum_shift:
  assumes "w ^ m = 1"
  shows "dft_sum m w g (k + m) = dft_sum m w g k"
proof -
  have "w ^ (j * (k + m)) = w ^ (j * k)" for j
  proof -
    have "j * (k + m) = j * k + m * j" by (simp add: algebra_simps)
    then have "w ^ (j * (k + m)) = w ^ (j * k) * (w ^ m) ^ j"
      by (simp only: power_add power_mult)
    then show ?thesis using assms by simp
  qed
  then show ?thesis by (simp add: dft_sum_def)
qed

lemma dft_split_high:
  assumes "w ^ m = - 1"
  shows "dft_sum (2 * m) w g (k + m) =
     dft_sum m (w\<^sup>2) (\<lambda>j. g (2 * j)) k - w ^ k * dft_sum m (w\<^sup>2) (\<lambda>j. g (2 * j + 1)) k"
proof -
  have "(w\<^sup>2) ^ m = (w ^ m)\<^sup>2" by (simp add: power_mult[symmetric] mult.commute)
  then have one: "(w\<^sup>2) ^ m = 1" using assms by simp
  have "w ^ (k + m) = - (w ^ k)" using assms by (simp add: power_add)
  then show ?thesis
    by (simp add: dft_split_low dft_sum_shift[OF one])
qed

lemma PI_eq_pi: "PI = pi"
  by (simp add: PI_def)

lemma wlen_unity_root:
  "Complex (cos (2 * PI / real len * (if invert then - 1 else 1)))
           (sin (2 * PI / real len * (if invert then - 1 else 1)))
   = unity_root (if invert then - 1 else 1) len"
  by (simp add: unity_root_def PI_eq_pi complex_eq_iff)

lemma unity_root_square: "(unity_root sg (2 * m))\<^sup>2 = unity_root sg m"
proof -
  have "real 2 * (sg * (2 * pi) / real (2 * m)) = sg * (2 * pi) / real m" by simp
  then show ?thesis unfolding unity_root_def by (simp only: DeMoivre)
qed

lemma unity_root_half:
  assumes "sg = 1 \<or> sg = - 1" "0 < m"
  shows "unity_root sg (2 * m) ^ m = - 1"
proof -
  have "real m * (sg * (2 * pi) / real (2 * m)) = sg * pi" using assms(2) by simp
  then have "unity_root sg (2 * m) ^ m = cis (sg * pi)"
    unfolding unity_root_def by (simp only: DeMoivre)
  also have "\<dots> = - 1" using assms(1) by (auto simp: complex_eq_iff)
  finally show ?thesis .
qed

lemma unity_root_full:
  assumes "sg = 1 \<or> sg = - 1" "0 < m"
  shows "unity_root sg m ^ m = 1"
proof -
  have "real m * (sg * (2 * pi) / real m) = sg * (2 * pi)" using assms(2) by simp
  then have "unity_root sg m ^ m = cis (sg * (2 * pi))"
    unfolding unity_root_def by (simp only: DeMoivre)
  also have "\<dots> = 1" using assms(1) by (auto simp: complex_eq_iff)
  finally show ?thesis .
qed

subsection \<open>The stages compute the transform\<close>

lemma fft_level_start:
  "fft_level x l 0 sg (map (\<lambda>p. x ! bitrev l p) [0..<2 ^ l])"
  by (simp add: fft_level_def dft_sum_def)

lemma fft_level_step:
  assumes lev: "fft_level x l s sg a" and s: "s < l" and sg: "sg = 1 \<or> sg = - 1"
    and la1: "length a1 = 2 ^ l"
    and a1: "\<And>p. p < 2 ^ l \<Longrightarrow> a1 ! p = fft_stage_cell a (2 ^ s) (unity_root sg (2 ^ Suc s)) p"
  shows "fft_level x l (Suc s) sg a1"
proof -
  obtain t where t: "l - s = Suc t" using s by (cases "l - s") auto
  then have t': "l - Suc s = t" by simp
  have l: "l = Suc (s + t)" using t s by simp
  let ?h = "2 ^ s :: nat"
  define w where "w = unity_root sg (2 ^ Suc s)"
  have w2: "w\<^sup>2 = unity_root sg ?h"
    unfolding w_def using unity_root_square[of sg ?h] by simp
  have wh: "w ^ ?h = - 1"
    unfolding w_def using unity_root_half[OF sg, of ?h] by simp
  have cell: "a ! (b * ?h + k) =
      dft_sum ?h (w\<^sup>2) (\<lambda>j. x ! (bitrev (Suc t) b + j * 2 ^ Suc t)) k"
    if "b < 2 ^ Suc t" "k < ?h" for b k
    using lev that unfolding fft_level_def t w2 by blast
  have goal: "a1 ! (b * 2 ^ Suc s + q) =
      dft_sum (2 ^ Suc s) w (\<lambda>j. x ! (bitrev t b + j * 2 ^ t)) q"
    if b: "b < 2 ^ t" and q: "q < 2 ^ Suc s" for b q
  proof -
    define g where "g = (\<lambda>j. x ! (bitrev t b + j * 2 ^ t))"
    define p where "p = b * 2 ^ Suc s + q"
    have "b * 2 ^ Suc s + q < 2 ^ t * 2 ^ Suc s"
    proof -
      have "Suc b \<le> 2 ^ t" using b by simp
      then have "Suc b * 2 ^ Suc s \<le> 2 ^ t * 2 ^ Suc s" by (rule mult_le_mono1)
      then show ?thesis using q by simp
    qed
    moreover have "(2::nat) ^ t * 2 ^ Suc s = 2 ^ l"
      unfolding l by (simp add: power_add)
    ultimately have p: "p < 2 ^ l" by (simp add: p_def)
    have pm: "p mod (2 * ?h) = q" using q by (simp add: p_def)
    have ge: "(\<lambda>j. x ! (bitrev (Suc t) (2 * b) + j * 2 ^ Suc t)) = (\<lambda>j. g (2 * j))"
    proof -
      have "2 * j * 2 ^ t = j * 2 ^ Suc t" for j :: nat by simp
      then show ?thesis unfolding g_def by (simp only: bitrev_even)
    qed
    have go: "(\<lambda>j. x ! (bitrev (Suc t) (2 * b + 1) + j * 2 ^ Suc t)) = (\<lambda>j. g (2 * j + 1))"
    proof -
      have "bitrev t b + (2 * j + 1) * 2 ^ t = 2 ^ t + bitrev t b + j * 2 ^ Suc t" for j :: nat
        by (simp add: algebra_simps)
      then show ?thesis unfolding g_def by (simp only: bitrev_odd)
    qed
    have b2: "2 * b < 2 ^ Suc t" "2 * b + 1 < 2 ^ Suc t" using b by simp_all
    have size: "dft_sum (2 ^ Suc s) w g k = dft_sum (2 * ?h) w g k" for k by simp
    have "a1 ! p = dft_sum (2 ^ Suc s) w g q"
    proof (cases "q < ?h")
      case True
      have i1: "p = (2 * b) * ?h + q" by (simp add: p_def)
      have i2: "p + ?h = (2 * b + 1) * ?h + q" by (simp add: p_def algebra_simps)
      have E: "a ! p = dft_sum ?h (w\<^sup>2) (\<lambda>j. g (2 * j)) q"
        unfolding i1 using cell[OF b2(1) True] unfolding ge .
      have O: "a ! (p + ?h) = dft_sum ?h (w\<^sup>2) (\<lambda>j. g (2 * j + 1)) q"
        unfolding i2 using cell[OF b2(2) True] unfolding go .
      have "a1 ! p = a ! p + a ! (p + ?h) * w ^ q"
        using a1[OF p] True unfolding fft_stage_cell_def pm w_def by simp
      also have "\<dots> = dft_sum ?h (w\<^sup>2) (\<lambda>j. g (2 * j)) q + w ^ q * dft_sum ?h (w\<^sup>2) (\<lambda>j. g (2 * j + 1)) q"
        unfolding E O by (simp only: mult.commute)
      also have "\<dots> = dft_sum (2 * ?h) w g q" by (rule dft_split_low[symmetric])
      finally show ?thesis unfolding size .
    next
      case False
      define q' where "q' = q - ?h"
      have q': "q' < ?h" "q = q' + ?h" using False q by (simp_all add: q'_def)
      have i1: "p - ?h = (2 * b) * ?h + q'" using q'(2) by (simp add: p_def)
      have i2: "p = (2 * b + 1) * ?h + q'" using q'(2) by (simp add: p_def algebra_simps)
      have E: "a ! (p - ?h) = dft_sum ?h (w\<^sup>2) (\<lambda>j. g (2 * j)) q'"
        unfolding i1 using cell[OF b2(1) q'(1)] unfolding ge .
      have O: "a ! p = dft_sum ?h (w\<^sup>2) (\<lambda>j. g (2 * j + 1)) q'"
        using cell[OF b2(2) q'(1)] unfolding go i2[symmetric] .
      have "a1 ! p = a ! (p - ?h) - a ! p * w ^ q'"
        using a1[OF p] False unfolding fft_stage_cell_def pm w_def q'_def by simp
      also have "\<dots> = dft_sum ?h (w\<^sup>2) (\<lambda>j. g (2 * j)) q' - w ^ q' * dft_sum ?h (w\<^sup>2) (\<lambda>j. g (2 * j + 1)) q'"
        unfolding E O by (simp only: mult.commute)
      also have "\<dots> = dft_sum (2 * ?h) w g (q' + ?h)" by (rule dft_split_high[OF wh, symmetric])
      finally show ?thesis unfolding size q'(2) .
    qed
    then show ?thesis unfolding p_def g_def .
  qed
  show ?thesis
    unfolding fft_level_def t' using la1 goal[unfolded w_def] by blast
qed

lemma fft_stages_result:
  assumes sg: "sg = (if invert then - 1 else 1)"
  shows "s \<le> l \<Longrightarrow> fft_level x l s sg a \<Longrightarrow>
    \<exists>a'. fft_stages a (2 ^ l) invert (2 ^ Suc s) = Inr a' \<and> fft_level x l l sg a'"
proof (induction "l - s" arbitrary: s a)
  case 0
  then have s: "s = l" by simp
  have "\<not> ((2::nat) ^ Suc s \<le> 2 ^ l \<and> 0 < (2::nat) ^ Suc s)" using s by simp
  then have "fft_stages a (2 ^ l) invert (2 ^ Suc s) = Inr a"
    by (subst fft_stages.simps) (simp only: if_False)
  then show ?case using "0.prems"(2) s by simp
next
  case (Suc d)
  then have s: "s < l" by simp
  let ?len = "2 ^ Suc s :: nat"
  let ?n = "2 ^ l :: nat"
  have sg': "sg = 1 \<or> sg = - 1" using sg by simp
  have la: "length a = ?n" using Suc.prems(2) by (simp add: fft_level_def)
  have dv: "?len dvd ?n" using s by (intro le_imp_power_dvd) simp
  have le: "?len \<le> ?n" using s by (intro power_increasing) simp_all
  define wlen where "wlen = unity_root sg ?len"
  have "\<exists>a1. fft_blocks a ?n ?len wlen 0 = Inr a1 \<and> length a1 = ?n \<and>
     (\<forall>p < ?n. a1 ! p = (if 0 \<le> p then fft_stage_cell a (2 ^ s) wlen p else a ! p))"
    by (rule fft_blocks_result[OF _ _ dv _ _ la]) simp_all
  then obtain a1 where a1: "fft_blocks a ?n ?len wlen 0 = Inr a1" "length a1 = ?n"
    "\<And>p. p < ?n \<Longrightarrow> a1 ! p = fft_stage_cell a (2 ^ s) wlen p"
    by auto
  have lev: "fft_level x l (Suc s) sg a1"
    by (rule fft_level_step[OF Suc.prems(2) s sg' a1(2)]) (simp add: a1(3) wlen_def)
  have "\<exists>a'. fft_stages a1 (2 ^ l) invert (2 ^ Suc (Suc s)) = Inr a' \<and> fft_level x l l sg a'"
    using Suc.hyps(1)[of "Suc s" a1] Suc.hyps(2) s lev by simp
  then obtain a' where a': "fft_stages a1 (2 ^ l) invert (2 ^ Suc (Suc s)) = Inr a'"
    "fft_level x l l sg a'" by blast
  have w: "Complex (cos (2 * PI / real ?len * (if invert then - 1 else 1)))
           (sin (2 * PI / real ?len * (if invert then - 1 else 1))) = wlen"
    unfolding wlen_def sg by (rule wlen_unity_root)
  have pb: "push_bit 1 ?len = 2 ^ Suc (Suc s)" by (simp add: push_bit_eq_mult)
  have "fft_stages a ?n invert ?len =
      (case fft_blocks a ?n ?len wlen 0 of Inl e \<Rightarrow> Inl e
       | Inr a' \<Rightarrow> fft_stages a' ?n invert (push_bit 1 ?len))"
    using le by (subst fft_stages.simps) (simp only: Let_def w, simp)
  also have "\<dots> = Inr a'" unfolding a1(1) pb using a'(1) by simp
  finally show ?case using a'(2) by blast
qed

lemma fft_result:
  assumes "length x = 2 ^ l"
  shows "fft x invert =
    Inr (if invert then map (\<lambda>z. z / of_nat (length x)) (dft (- 1) x) else dft 1 x)"
proof -
  define sg :: real where "sg = (if invert then - 1 else 1)"
  let ?n = "2 ^ l :: nat"
  have lg: "fft_lg (length x) 0 = l" using assms by (simp add: fft_lg_pow2)
  have perm: "fft_permute x (length x) l 0 = Inr (map (\<lambda>p. x ! bitrev l p) [0..<?n])"
    using fft_permute_result[OF assms] assms by simp
  obtain a' where a': "fft_stages (map (\<lambda>p. x ! bitrev l p) [0..<?n]) ?n invert (2 ^ Suc 0) = Inr a'"
    "fft_level x l l sg a'"
    using fft_stages_result[OF sg_def, of 0 l x "map (\<lambda>p. x ! bitrev l p) [0..<?n]"]
      fft_level_start[of x l sg] by auto
  have "a' = dft sg x"
  proof (rule nth_equalityI)
    show "length a' = length (dft sg x)"
      using a'(2) assms by (simp add: fft_level_def dft_def)
  next
    fix k assume "k < length a'"
    then have k: "k < ?n" using a'(2) by (simp add: fft_level_def)
    have "a' ! (0 * 2 ^ l + k) = dft_sum (2 ^ l) (unity_root sg (2 ^ l)) (\<lambda>j. x ! (bitrev (l - l) 0 + j * 2 ^ (l - l))) k"
      using a'(2) k unfolding fft_level_def by (elim conjE allE[of _ 0] allE[of _ k] impE) simp_all
    then show "a' ! k = dft sg x ! k"
      using k assms by (simp add: dft_def)
  qed
  then have st: "fft_stages (map (\<lambda>p. x ! bitrev l p) [0..<?n]) (length x) invert 2 = Inr (dft sg x)"
    using a'(1) assms by simp
  have "fft x invert = Inr (if invert then map (\<lambda>z. z / of_nat (length x)) (dft sg x) else dft sg x)"
    unfolding fft_def Let_def lg perm using st by simp
  then show ?thesis by (simp add: sg_def)
qed

subsection \<open>Inverse after forward\<close>

lemma length_dft [simp]: "length (dft sg x) = length x"
  by (simp add: dft_def)

lemma nth_dft:
  "k < length x \<Longrightarrow> dft sg x ! k = (\<Sum>j<length x. x ! j * unity_root sg (length x) ^ (j * k))"
  by (simp add: dft_def dft_sum_def)

lemma unity_root_neq_one:
  assumes "i < n" "k < n" "i \<noteq> k"
  shows "unity_root 1 n ^ i * unity_root (- 1) n ^ k \<noteq> 1"
proof
  assume eq: "unity_root 1 n ^ i * unity_root (- 1) n ^ k = 1"
  have n: "0 < n" using assms(1) by simp
  let ?t = "real i * (2 * pi / real n) + real k * (- (2 * pi) / real n)"
  have "unity_root 1 n ^ i * unity_root (- 1) n ^ k = cis ?t"
    by (simp add: unity_root_def DeMoivre cis_mult)
  then have "cos ?t = 1" using eq by (simp add: complex_eq_iff)
  then obtain m :: int where m: "?t = real_of_int m * 2 * pi"
    using cos_one_2pi_int by blast
  have "?t = (real i - real k) / real n * (2 * pi)"
  proof -
    have "real i * (2 * pi / real n) = real i / real n * (2 * pi)" by simp
    moreover have "real k * (- (2 * pi) / real n) = - (real k / real n * (2 * pi))" by simp
    ultimately have "?t = (real i / real n - real k / real n) * (2 * pi)"
      by (simp only: left_diff_distrib)
    then show ?thesis by (simp only: diff_divide_distrib)
  qed
  then have "(real i - real k) / real n * (2 * pi) = real_of_int m * (2 * pi)"
    using m by simp
  moreover have nz: "2 * pi \<noteq> (0::real)" by simp
  ultimately have "(real i - real k) / real n = real_of_int m"
    using mult_right_cancel[OF nz, of "(real i - real k) / real n" "real_of_int m"] by blast
  then have "real i - real k = real_of_int m * real n" using n by (simp add: field_simps)
  then have "real_of_int (int i - int k) = real_of_int (m * int n)" by simp
  then have d: "int i - int k = m * int n" by (simp only: of_int_eq_iff)
  have "m \<noteq> 0" using d assms(3) by auto
  then have "1 \<le> \<bar>m\<bar>" by simp
  then have "1 * int n \<le> \<bar>m\<bar> * int n" by (rule mult_right_mono) simp
  then have "int n \<le> \<bar>m * int n\<bar>"
    by (simp add: abs_mult)
  moreover have "\<bar>int i - int k\<bar> < int n" using assms(1,2) by simp
  ultimately show False using d by simp
qed

lemma unity_root_orthogonal:
  assumes "i < n" "k < n"
  shows "(\<Sum>j<n. unity_root 1 n ^ (i * j) * unity_root (- 1) n ^ (j * k)) = (if i = k then of_nat n else 0)"
proof -
  have n: "0 < n" using assms(1) by simp
  let ?z = "unity_root 1 n ^ i * unity_root (- 1) n ^ k"
  have pw: "unity_root 1 n ^ (i * j) * unity_root (- 1) n ^ (j * k) = ?z ^ j" for j
    by (simp add: power_mult power_mult_distrib mult.commute[of j k])
  have sum: "(\<Sum>j<n. unity_root 1 n ^ (i * j) * unity_root (- 1) n ^ (j * k)) = (\<Sum>j<n. ?z ^ j)"
    by (simp only: pw)
  show ?thesis
  proof (cases "i = k")
    case True
    have "unity_root 1 n * unity_root (- 1) n = 1"
      by (simp add: unity_root_def cis_mult)
    then have "?z = 1" using True by (simp add: power_mult_distrib[symmetric])
    then show ?thesis using True sum by simp
  next
    case False
    have z1: "?z \<noteq> 1" by (rule unity_root_neq_one[OF assms False])
    have "?z ^ n = (unity_root 1 n ^ n) ^ i * (unity_root (- 1) n ^ n) ^ k"
      by (simp add: power_mult_distrib power_mult[symmetric] mult.commute)
    also have "\<dots> = 1" using n by (simp add: unity_root_full)
    finally have zn: "?z ^ n = 1" .
    have "(\<Sum>j<n. ?z ^ j) = (?z ^ n - 1) / (?z - 1)" using z1 by (rule geometric_sum)
    then show ?thesis using False sum zn by simp
  qed
qed

lemma dft_inverse:
  assumes k: "k < length x"
  shows "dft (- 1) (dft 1 x) ! k = of_nat (length x) * x ! k"
proof -
  let ?n = "length x"
  let ?w = "unity_root 1 ?n" and ?v = "unity_root (- 1) ?n"
  have "dft (- 1) (dft 1 x) ! k = (\<Sum>j<?n. dft 1 x ! j * ?v ^ (j * k))"
    using k by (simp add: nth_dft)
  also have "\<dots> = (\<Sum>j<?n. (\<Sum>i<?n. x ! i * ?w ^ (i * j)) * ?v ^ (j * k))"
    by (rule sum.cong) (simp_all add: nth_dft)
  also have "\<dots> = (\<Sum>j<?n. \<Sum>i<?n. x ! i * (?w ^ (i * j) * ?v ^ (j * k)))"
    by (simp add: sum_distrib_right mult.assoc)
  also have "\<dots> = (\<Sum>i<?n. \<Sum>j<?n. x ! i * (?w ^ (i * j) * ?v ^ (j * k)))"
    by (rule sum.swap)
  also have "\<dots> = (\<Sum>i<?n. x ! i * (\<Sum>j<?n. ?w ^ (i * j) * ?v ^ (j * k)))"
    by (simp add: sum_distrib_left)
  also have "\<dots> = (\<Sum>i<?n. x ! i * (if i = k then of_nat ?n else 0))"
    by (rule sum.cong) (simp_all add: unity_root_orthogonal[OF _ k])
  also have "\<dots> = (\<Sum>i<?n. if i = k then of_nat ?n * x ! k else 0)"
    by (rule sum.cong) simp_all
  also have "\<dots> = of_nat ?n * x ! k"
    using k by simp
  finally show ?thesis .
qed

lemma fft_round_trip:
  assumes "length x = 2 ^ l"
  shows "fft x False = Inr (dft 1 x)" and "fft (dft 1 x) True = Inr x"
proof -
  show f: "fft x False = Inr (dft 1 x)" using fft_result[OF assms, of False] by simp
  have len: "length (dft 1 x) = 2 ^ l" using assms by simp
  have "map (\<lambda>z. z / of_nat (length (dft 1 x))) (dft (- 1) (dft 1 x)) = x"
  proof (rule nth_equalityI)
    show "length (map (\<lambda>z. z / of_nat (length (dft 1 x))) (dft (- 1) (dft 1 x))) = length x" by simp
  next
    fix k assume "k < length (map (\<lambda>z. z / of_nat (length (dft 1 x))) (dft (- 1) (dft 1 x)))"
    then have k: "k < length x" by simp
    then have "x \<noteq> []" by auto
    then show "map (\<lambda>z. z / of_nat (length (dft 1 x))) (dft (- 1) (dft 1 x)) ! k = x ! k"
      using k by (simp add: dft_inverse)
  qed
  then show "fft (dft 1 x) True = Inr x" using fft_result[OF len, of True] by simp
qed

subsection \<open>The round trip in exact arithmetic\<close>

text \<open>
  With exact arithmetic, for a complex sequence \<open>x\<close> whose length is a power of two, the
  forward transform succeeds and gives the discrete Fourier transform of \<open>x\<close>; the inverse
  transform of that result succeeds, is the conjugate transform with every element divided
  by \<open>n\<close>, and is \<open>x\<close> again, element for element.  The program computes with
  \<^verbatim>\<open>std::complex<double>\<close> and the cosine and sine of the C library: how far its round trip
  is from \<open>x\<close> (C3) depends on their rounding errors, of which this model has none.
\<close>
lemma fft_inverse_forward_exact:
  assumes "length x = 2 ^ l"
  shows "fft x False = Inr (dft 1 x) \<and> length (dft 1 x) = length x \<and>
    fft (dft 1 x) True = Inr (map (\<lambda>z. z / of_nat (length x)) (dft (- 1) (dft 1 x))) \<and>
    fft (dft 1 x) True = Inr x"
proof -
  have len: "length (dft 1 x) = 2 ^ l" using assms by simp
  have "fft (dft 1 x) True = Inr (map (\<lambda>z. z / of_nat (length x)) (dft (- 1) (dft 1 x)))"
    using fft_result[OF len, of True] by simp
  then show ?thesis using fft_round_trip[OF assms] by simp
qed

section \<open>Verification of the mel filterbank\<close>

subsection \<open>Definitions from the specification\<close>

text \<open>
  The triangular filter of the specification: filter \<open>f\<close> (counted from 0) ramps linearly up
  from its left bin \<open>bin[f]\<close> to its centre bin \<open>bin[f+1]\<close> and linearly down from the centre to
  its right bin \<open>bin[f+2]\<close>; outside it is zero.
\<close>

definition mel_weight :: "int list \<Rightarrow> nat \<Rightarrow> int \<Rightarrow> real" where
  "mel_weight bin f k =
     (if bin ! f \<le> k \<and> k < bin ! (f + 1)
      then real_of_int (k - bin ! f) / real_of_int (bin ! (f + 1) - bin ! f)
      else if bin ! (f + 1) \<le> k \<and> k < bin ! (f + 2)
      then real_of_int (bin ! (f + 2) - k) / real_of_int (bin ! (f + 2) - bin ! (f + 1))
      else 0)"

text \<open>
  The bin indices fit the filter rows: there are \<open>num_filters + 2\<close> of them, none negative
  and none beyond the width of a row.
\<close>

definition bins_ok :: "int list \<Rightarrow> nat \<Rightarrow> nat \<Rightarrow> bool" where
  "bins_ok bin num_filters width \<longleftrightarrow>
     length bin = num_filters + 2 \<and> (\<forall>i < num_filters + 2. 0 \<le> bin ! i \<and> bin ! i \<le> int width)"

subsection \<open>The ramp loops never divide by zero\<close>

lemma ramp_up_no_div: "lo \<le> k \<Longrightarrow> ramp_up row lo hi k \<noteq> Inl DivisionByZero"
proof (induction row lo hi k rule: ramp_up.induct)
  case (1 row lo hi k)
  show ?case
  proof (cases "k < hi")
    case True
    then have nz: "hi - lo \<noteq> 0" using "1.prems" by simp
    show ?thesis
    proof (cases "k < 0 \<or> int (length row) \<le> k")
      case True
      with \<open>k < hi\<close> nz show ?thesis by (subst ramp_up.simps) simp
    next
      case False
      have "ramp_up (row[nat k := real_of_int (k - lo) * 1 / real_of_int (hi - lo)]) lo hi (k + 1)
            \<noteq> Inl DivisionByZero"
        using "1.IH"[OF True nz False] "1.prems" by simp
      with True nz False show ?thesis by (subst ramp_up.simps) simp
    qed
  next
    case False
    then show ?thesis by (subst ramp_up.simps) simp
  qed
qed

lemma ramp_down_no_div: "lo \<le> k \<Longrightarrow> ramp_down row lo hi k \<noteq> Inl DivisionByZero"
proof (induction row lo hi k rule: ramp_down.induct)
  case (1 row lo hi k)
  show ?case
  proof (cases "k < hi")
    case True
    then have nz: "hi - lo \<noteq> 0" using "1.prems" by simp
    show ?thesis
    proof (cases "k < 0 \<or> int (length row) \<le> k")
      case True
      with \<open>k < hi\<close> nz show ?thesis by (subst ramp_down.simps) simp
    next
      case False
      have "ramp_down (row[nat k := real_of_int (hi - k) * 1 / real_of_int (hi - lo)]) lo hi (k + 1)
            \<noteq> Inl DivisionByZero"
        using "1.IH"[OF True nz False] "1.prems" by simp
      with True nz False show ?thesis by (subst ramp_down.simps) simp
    qed
  next
    case False
    then show ?thesis by (subst ramp_down.simps) simp
  qed
qed

lemma ramp_up_empty: "hi \<le> k \<Longrightarrow> ramp_up row lo hi k = Inr row"
  by (subst ramp_up.simps) simp

lemma ramp_down_empty: "hi \<le> k \<Longrightarrow> ramp_down row lo hi k = Inr row"
  by (subst ramp_down.simps) simp

lemma fill_filters_no_div: "fill_filters bin num_filters m filters \<noteq> Inl DivisionByZero"
proof (induction bin num_filters m filters rule: fill_filters.induct)
  case (1 bin num_filters m filters)
  show ?case
  proof (cases "m \<le> num_filters")
    case True
    note m = this
    show ?thesis
    proof (cases "ramp_up (filters ! (m - 1)) (bin ! (m - 1)) (bin ! m) (bin ! (m - 1))")
      case (Inl e)
      then have "e \<noteq> DivisionByZero"
        using ramp_up_no_div[of "bin ! (m - 1)" "bin ! (m - 1)" "filters ! (m - 1)" "bin ! m"] by auto
      with Inl m show ?thesis by (subst fill_filters.simps) simp
    next
      case (Inr row1)
      note r1 = this
      show ?thesis
      proof (cases "ramp_down row1 (bin ! m) (bin ! (m + 1)) (bin ! m)")
        case (Inl e)
        then have "e \<noteq> DivisionByZero"
          using ramp_down_no_div[of "bin ! m" "bin ! m" row1 "bin ! (m + 1)"] by auto
        with Inl r1 m show ?thesis by (subst fill_filters.simps) simp
      next
        case (Inr row2)
        from "1.IH"[OF m r1 Inr] r1 Inr m show ?thesis by (subst fill_filters.simps) simp
      qed
    qed
  next
    case False
    then show ?thesis by (subst fill_filters.simps) simp
  qed
qed

lemma create_mel_filterbanks_no_div:
  "create_mel_filterbanks num_filters fft_size sample_rate \<noteq> Inl DivisionByZero"
  by (simp add: create_mel_filterbanks_def Let_def fill_filters_no_div)

subsection \<open>The loops compute the triangular weights\<close>

lemma ramp_up_result:
  "lo \<le> k \<Longrightarrow> 0 \<le> k \<Longrightarrow> hi \<le> int (length row) \<Longrightarrow>
   \<exists>row'. ramp_up row lo hi k = Inr row' \<and> length row' = length row \<and>
     (\<forall>p < length row. row' ! p =
        (if k \<le> int p \<and> int p < hi then real_of_int (int p - lo) / real_of_int (hi - lo) else row ! p))"
proof (induction row lo hi k rule: ramp_up.induct)
  case (1 row lo hi k)
  show ?case
  proof (cases "k < hi")
    case True
    then have nz: "hi - lo \<noteq> 0" using "1.prems" by simp
    have inr: "\<not> (k < 0 \<or> int (length row) \<le> k)" using True "1.prems" by simp
    let ?row = "row[nat k := real_of_int (k - lo) * 1 / real_of_int (hi - lo)]"
    obtain row' where r: "ramp_up ?row lo hi (k + 1) = Inr row'" "length row' = length ?row"
      "\<forall>p < length ?row. row' ! p =
        (if k + 1 \<le> int p \<and> int p < hi then real_of_int (int p - lo) / real_of_int (hi - lo) else ?row ! p)"
      using "1.IH"[OF True nz inr] "1.prems" by auto
    have "ramp_up row lo hi k = Inr row'"
      using True nz inr r(1) by (subst ramp_up.simps) simp
    moreover have "length row' = length row" using r(2) by simp
    moreover have "row' ! p =
        (if k \<le> int p \<and> int p < hi then real_of_int (int p - lo) / real_of_int (hi - lo) else row ! p)"
      if "p < length row" for p
    proof (cases "int p = k")
      case True
      then have "nat k = p" by simp
      then show ?thesis using r(3) that True \<open>k < hi\<close> by auto
    next
      case False
      then have "nat k \<noteq> p" using "1.prems"(2) by auto
      then show ?thesis using r(3) that False by auto
    qed
    ultimately show ?thesis by blast
  next
    case False
    then show ?thesis by (subst ramp_up.simps) auto
  qed
qed

lemma ramp_down_result:
  "lo \<le> k \<Longrightarrow> 0 \<le> k \<Longrightarrow> hi \<le> int (length row) \<Longrightarrow>
   \<exists>row'. ramp_down row lo hi k = Inr row' \<and> length row' = length row \<and>
     (\<forall>p < length row. row' ! p =
        (if k \<le> int p \<and> int p < hi then real_of_int (hi - int p) / real_of_int (hi - lo) else row ! p))"
proof (induction row lo hi k rule: ramp_down.induct)
  case (1 row lo hi k)
  show ?case
  proof (cases "k < hi")
    case True
    then have nz: "hi - lo \<noteq> 0" using "1.prems" by simp
    have inr: "\<not> (k < 0 \<or> int (length row) \<le> k)" using True "1.prems" by simp
    let ?row = "row[nat k := real_of_int (hi - k) * 1 / real_of_int (hi - lo)]"
    obtain row' where r: "ramp_down ?row lo hi (k + 1) = Inr row'" "length row' = length ?row"
      "\<forall>p < length ?row. row' ! p =
        (if k + 1 \<le> int p \<and> int p < hi then real_of_int (hi - int p) / real_of_int (hi - lo) else ?row ! p)"
      using "1.IH"[OF True nz inr] "1.prems" by auto
    have "ramp_down row lo hi k = Inr row'"
      using True nz inr r(1) by (subst ramp_down.simps) simp
    moreover have "length row' = length row" using r(2) by simp
    moreover have "row' ! p =
        (if k \<le> int p \<and> int p < hi then real_of_int (hi - int p) / real_of_int (hi - lo) else row ! p)"
      if "p < length row" for p
    proof (cases "int p = k")
      case True
      then have "nat k = p" by simp
      then show ?thesis using r(3) that True \<open>k < hi\<close> by auto
    next
      case False
      then have "nat k \<noteq> p" using "1.prems"(2) by auto
      then show ?thesis using r(3) that False by auto
    qed
    ultimately show ?thesis by blast
  next
    case False
    then show ?thesis by (subst ramp_down.simps) auto
  qed
qed

lemma fill_filters_result:
  "bins_ok bin num_filters width \<Longrightarrow> 1 \<le> m \<Longrightarrow> length filters = num_filters \<Longrightarrow> \<forall>f < num_filters. length (filters ! f) = width \<Longrightarrow>
    \<exists>filters'. fill_filters bin num_filters m filters = Inr filters' \<and> length filters' = num_filters \<and>
      (\<forall>f < num_filters. length (filters' ! f) = width \<and>
         (\<forall>p < width. filters' ! f ! p =
            (if m - 1 \<le> f
             then (if bin ! (f + 1) \<le> int p \<and> int p < bin ! (f + 2)
                   then real_of_int (bin ! (f + 2) - int p) / real_of_int (bin ! (f + 2) - bin ! (f + 1))
                   else if bin ! f \<le> int p \<and> int p < bin ! (f + 1)
                   then real_of_int (int p - bin ! f) / real_of_int (bin ! (f + 1) - bin ! f)
                   else filters ! f ! p)
             else filters ! f ! p)))"
proof (induction bin num_filters m filters rule: fill_filters.induct)
  case (1 bin num_filters m filters)
  note ok = "1.prems"(1) and m1 = "1.prems"(2) and flen = "1.prems"(3) and frows = "1.prems"(4)
  show ?case
  proof (cases "m \<le> num_filters")
    case True
    note m = this
    have bnd: "\<And>i. i < num_filters + 2 \<Longrightarrow> 0 \<le> bin ! i \<and> bin ! i \<le> int width"
      using ok by (simp add: bins_ok_def)
    have rowlen: "length (filters ! (m - 1)) = width"
      using frows m m1 by simp
    obtain row1 where r1: "ramp_up (filters ! (m - 1)) (bin ! (m - 1)) (bin ! m) (bin ! (m - 1)) = Inr row1"
      "length row1 = width"
      "\<forall>p < width. row1 ! p =
        (if bin ! (m - 1) \<le> int p \<and> int p < bin ! m
         then real_of_int (int p - bin ! (m - 1)) / real_of_int (bin ! m - bin ! (m - 1))
         else filters ! (m - 1) ! p)"
      using ramp_up_result[of "bin ! (m - 1)" "bin ! (m - 1)" "bin ! m" "filters ! (m - 1)"]
        bnd[of "m - 1"] bnd[of m] m rowlen by auto
    obtain row2 where r2: "ramp_down row1 (bin ! m) (bin ! (m + 1)) (bin ! m) = Inr row2"
      "length row2 = width"
      "\<forall>p < width. row2 ! p =
        (if bin ! m \<le> int p \<and> int p < bin ! (m + 1)
         then real_of_int (bin ! (m + 1) - int p) / real_of_int (bin ! (m + 1) - bin ! m)
         else row1 ! p)"
      using ramp_down_result[of "bin ! m" "bin ! m" "bin ! (m + 1)" row1]
        bnd[of m] bnd[of "m + 1"] m r1(2) by auto
    let ?filters = "filters[m - 1 := row2]"
    have len': "length ?filters = num_filters" using flen by simp
    have rows': "\<forall>f < num_filters. length (?filters ! f) = width"
    proof (intro allI impI)
      fix f assume "f < num_filters"
      then show "length (?filters ! f) = width"
        using frows flen r2(2) by (cases "f = m - 1") simp_all
    qed
    obtain filters' where f': "fill_filters bin num_filters (m + 1) ?filters = Inr filters'"
      "length filters' = num_filters"
      "\<forall>f < num_filters. length (filters' ! f) = width \<and>
         (\<forall>p < width. filters' ! f ! p =
            (if m + 1 - 1 \<le> f
             then (if bin ! (f + 1) \<le> int p \<and> int p < bin ! (f + 2)
                   then real_of_int (bin ! (f + 2) - int p) / real_of_int (bin ! (f + 2) - bin ! (f + 1))
                   else if bin ! f \<le> int p \<and> int p < bin ! (f + 1)
                   then real_of_int (int p - bin ! f) / real_of_int (bin ! (f + 1) - bin ! f)
                   else ?filters ! f ! p)
             else ?filters ! f ! p))"
      using "1.IH"[OF m r1(1) r2(1) ok _ len' rows'] by auto
    have run: "fill_filters bin num_filters m filters = Inr filters'"
      using m r1(1) r2(1) f'(1) by (subst fill_filters.simps) simp
    have cell: "length (filters' ! f) = width \<and>
         (\<forall>p < width. filters' ! f ! p =
            (if m - 1 \<le> f
             then (if bin ! (f + 1) \<le> int p \<and> int p < bin ! (f + 2)
                   then real_of_int (bin ! (f + 2) - int p) / real_of_int (bin ! (f + 2) - bin ! (f + 1))
                   else if bin ! f \<le> int p \<and> int p < bin ! (f + 1)
                   then real_of_int (int p - bin ! f) / real_of_int (bin ! (f + 1) - bin ! f)
                   else filters ! f ! p)
             else filters ! f ! p))" if f: "f < num_filters" for f
    proof (cases "f = m - 1")
      case True
      have eq: "f + 1 = m" "f + 2 = m + 1" "m - 1 \<le> f" "\<not> m + 1 - 1 \<le> f"
        using m1 True by simp_all
      have upd: "?filters ! f = row2"
        using True f flen by simp
      have l: "length (filters' ! f) = width" using f'(3) f by simp
      have "filters' ! f ! p =
            (if bin ! (f + 1) \<le> int p \<and> int p < bin ! (f + 2)
                   then real_of_int (bin ! (f + 2) - int p) / real_of_int (bin ! (f + 2) - bin ! (f + 1))
                   else if bin ! f \<le> int p \<and> int p < bin ! (f + 1)
                   then real_of_int (int p - bin ! f) / real_of_int (bin ! (f + 1) - bin ! f)
                   else filters ! f ! p)" if p: "p < width" for p
      proof -
        have "filters' ! f ! p = ?filters ! f ! p"
          using f'(3) f p eq(4) by simp
        also have "\<dots> = row2 ! p" by (simp only: upd)
        also have "\<dots> = (if bin ! m \<le> int p \<and> int p < bin ! (m + 1)
         then real_of_int (bin ! (m + 1) - int p) / real_of_int (bin ! (m + 1) - bin ! m)
         else row1 ! p)" using r2(3) p by simp
        also have "row1 ! p = (if bin ! (m - 1) \<le> int p \<and> int p < bin ! m
         then real_of_int (int p - bin ! (m - 1)) / real_of_int (bin ! m - bin ! (m - 1))
         else filters ! (m - 1) ! p)" using r1(3) p by simp
        finally show ?thesis unfolding eq(1) eq(2) using True by simp
      qed
      then show ?thesis using l eq(3) by simp
    next
      case False
      have "?filters ! f = filters ! f" using False by (simp add: nth_list_update)
      moreover have "m + 1 - 1 \<le> f \<longleftrightarrow> m - 1 \<le> f" using False m1 by auto
      ultimately show ?thesis using f'(3) f by simp
    qed
    show ?thesis using run f'(2) cell by blast
  next
    case False
    then have "fill_filters bin num_filters m filters = Inr filters"
      by (subst fill_filters.simps) simp
    moreover have "\<not> m - 1 \<le> f" if "f < num_filters" for f
      using that False by simp
    ultimately show ?thesis using flen frows by simp
  qed
qed

lemma fill_filters_weights:
  assumes "bins_ok bin num_filters width"
  shows "\<exists>filters. fill_filters bin num_filters 1 (replicate num_filters (replicate width 0)) = Inr filters \<and>
      length filters = num_filters \<and>
      (\<forall>f < num_filters. length (filters ! f) = width \<and>
         (\<forall>p < width. filters ! f ! p = mel_weight bin f (int p)))"
proof -
  obtain filters where f: "fill_filters bin num_filters 1 (replicate num_filters (replicate width 0)) = Inr filters"
    "length filters = num_filters"
    "\<forall>f < num_filters. length (filters ! f) = width \<and>
         (\<forall>p < width. filters ! f ! p =
            (if 1 - 1 \<le> f
             then (if bin ! (f + 1) \<le> int p \<and> int p < bin ! (f + 2)
                   then real_of_int (bin ! (f + 2) - int p) / real_of_int (bin ! (f + 2) - bin ! (f + 1))
                   else if bin ! f \<le> int p \<and> int p < bin ! (f + 1)
                   then real_of_int (int p - bin ! f) / real_of_int (bin ! (f + 1) - bin ! f)
                   else replicate num_filters (replicate width 0) ! f ! p)
             else replicate num_filters (replicate width 0) ! f ! p))"
    using fill_filters_result[OF assms, of 1 "replicate num_filters (replicate width 0)"] by auto
  have "filters ! f ! p = mel_weight bin f (int p)" if "f < num_filters" "p < width" for f p
    using f(3) that by (auto simp: mel_weight_def)
  with f show ?thesis by blast
qed

subsection \<open>The bin indices\<close>

lemma hz_to_mel_nonneg: "0 \<le> hz \<Longrightarrow> 0 \<le> hz_to_mel hz"
  by (simp add: hz_to_mel_def zero_le_log_cancel_iff)

lemma mel_to_hz_mono: "a \<le> b \<Longrightarrow> mel_to_hz a \<le> mel_to_hz b"
  by (simp add: mel_to_hz_def powr_mono divide_right_mono)

lemma mel_to_hz_zero: "mel_to_hz 0 = 0"
  by (simp add: mel_to_hz_def)

lemma mel_to_hz_hz_to_mel: "0 \<le> hz \<Longrightarrow> mel_to_hz (hz_to_mel hz) = hz"
proof -
  assume "0 \<le> hz"
  then have "0 < 1 + hz / 700" by (simp add: add_pos_nonneg)
  then have "10 powr (log 10 (1 + hz / 700)) = 1 + hz / 700"
    by (simp add: powr_log_cancel)
  then show ?thesis by (simp add: mel_to_hz_def hz_to_mel_def)
qed

lemma length_mel_bins: "length (mel_bins num_filters fft_size sample_rate) = num_filters + 2"
  by (simp add: mel_bins_def Let_def)

lemma nth_mel_bins:
  assumes "i < num_filters + 2"
  shows "mel_bins num_filters fft_size sample_rate ! i =
    \<lfloor>real_of_int (fft_size + 1) *
      mel_to_hz (hz_to_mel (real_of_int sample_rate / 2) * real i / real (num_filters + 1)) /
      real_of_int sample_rate\<rfloor>"
proof -
  have "[0..<num_filters + 2] ! i = i" using assms by (rule nth_upt[of 0, simplified])
  then show ?thesis
    using assms by (simp add: mel_bins_def Let_def del: upt_Suc)
qed

lemma mel_bins_mono:
  assumes "0 \<le> fft_size" "0 < sample_rate" "i \<le> j" "j < num_filters + 2"
  shows "mel_bins num_filters fft_size sample_rate ! i \<le> mel_bins num_filters fft_size sample_rate ! j"
proof -
  let ?h = "hz_to_mel (real_of_int sample_rate / 2)"
  have h: "0 \<le> ?h" using assms(2) by (intro hz_to_mel_nonneg) simp
  have "?h * real i / real (num_filters + 1) \<le> ?h * real j / real (num_filters + 1)"
    using h assms(3) by (intro divide_right_mono mult_left_mono) simp_all
  then have "mel_to_hz (?h * real i / real (num_filters + 1)) \<le> mel_to_hz (?h * real j / real (num_filters + 1))"
    by (rule mel_to_hz_mono)
  then have "real_of_int (fft_size + 1) * mel_to_hz (?h * real i / real (num_filters + 1)) / real_of_int sample_rate
      \<le> real_of_int (fft_size + 1) * mel_to_hz (?h * real j / real (num_filters + 1)) / real_of_int sample_rate"
    using assms(1,2) by (intro divide_right_mono mult_left_mono) simp_all
  then show ?thesis
    using assms(3,4) by (simp add: nth_mel_bins floor_mono)
qed

lemma mel_bins_first: "mel_bins num_filters fft_size sample_rate ! 0 = 0"
  by (simp add: nth_mel_bins mel_to_hz_zero)

lemma mel_bins_last:
  assumes "0 < sample_rate"
  shows "mel_bins num_filters fft_size sample_rate ! (num_filters + 1) = (fft_size + 1) div 2"
proof -
  have e: "hz_to_mel (real_of_int sample_rate / 2) * real (num_filters + 1) / real (num_filters + 1)
      = hz_to_mel (real_of_int sample_rate / 2)" by simp
  have "mel_bins num_filters fft_size sample_rate ! (num_filters + 1) =
     \<lfloor>real_of_int (fft_size + 1) *
      mel_to_hz (hz_to_mel (real_of_int sample_rate / 2) * real (num_filters + 1) / real (num_filters + 1)) /
      real_of_int sample_rate\<rfloor>"
    by (rule nth_mel_bins) simp
  then have "mel_bins num_filters fft_size sample_rate ! (num_filters + 1) =
     \<lfloor>real_of_int (fft_size + 1) * mel_to_hz (hz_to_mel (real_of_int sample_rate / 2)) / real_of_int sample_rate\<rfloor>"
    unfolding e .
  also have "\<dots> = \<lfloor>real_of_int (fft_size + 1) * (real_of_int sample_rate / 2) / real_of_int sample_rate\<rfloor>"
    using assms by (simp add: mel_to_hz_hz_to_mel)
  also have "real_of_int (fft_size + 1) * (real_of_int sample_rate / 2) / real_of_int sample_rate
       = real_of_int (fft_size + 1) / real_of_int 2"
    using assms by simp
  also have "\<lfloor>real_of_int (fft_size + 1) / real_of_int 2\<rfloor> = (fft_size + 1) div 2"
    by (rule floor_divide_of_int_eq)
  finally show ?thesis .
qed

lemma mel_bins_ok:
  assumes "0 \<le> fft_size" "0 < sample_rate"
  shows "bins_ok (mel_bins num_filters fft_size sample_rate) num_filters (nat (fft_size div 2 + 1))"
proof -
  have "0 \<le> mel_bins num_filters fft_size sample_rate ! i \<and>
        mel_bins num_filters fft_size sample_rate ! i \<le> int (nat (fft_size div 2 + 1))"
    if "i < num_filters + 2" for i
  proof -
    have "mel_bins num_filters fft_size sample_rate ! 0 \<le> mel_bins num_filters fft_size sample_rate ! i"
      using assms that by (intro mel_bins_mono) simp_all
    moreover have "mel_bins num_filters fft_size sample_rate ! i
        \<le> mel_bins num_filters fft_size sample_rate ! (num_filters + 1)"
      using assms that by (intro mel_bins_mono) simp_all
    moreover have "(fft_size + 1) div 2 \<le> int (nat (fft_size div 2 + 1))"
      using assms(1) by simp
    ultimately show ?thesis
      using mel_bins_first[of num_filters fft_size sample_rate]
        mel_bins_last[OF assms(2), of num_filters fft_size] by simp
  qed
  then show ?thesis by (simp add: bins_ok_def length_mel_bins)
qed

subsection \<open>Properties of the triangular weights\<close>

lemma mel_weight_range: "0 \<le> mel_weight bin f k \<and> mel_weight bin f k \<le> 1"
  by (simp add: mel_weight_def divide_le_eq)

lemma mel_weight_nonzero:
  "mel_weight bin f k \<noteq> 0 \<Longrightarrow>
     (bin ! f < k \<and> k < bin ! (f + 1)) \<or> (bin ! (f + 1) \<le> k \<and> k < bin ! (f + 2))"
  by (auto simp: mel_weight_def split: if_splits)

lemma mel_weight_overlap:
  assumes "bin ! (f + 1) \<le> k" "k < bin ! (f + 2)"
  shows "mel_weight bin f k = real_of_int (bin ! (f + 2) - k) / real_of_int (bin ! (f + 2) - bin ! (f + 1))"
    and "mel_weight bin (f + 1) k = real_of_int (k - bin ! (f + 1)) / real_of_int (bin ! (f + 2) - bin ! (f + 1))"
    and "mel_weight bin f k + mel_weight bin (f + 1) k = 1"
proof -
  show a: "mel_weight bin f k = real_of_int (bin ! (f + 2) - k) / real_of_int (bin ! (f + 2) - bin ! (f + 1))"
    using assms by (simp add: mel_weight_def)
  show b: "mel_weight bin (f + 1) k = real_of_int (k - bin ! (f + 1)) / real_of_int (bin ! (f + 2) - bin ! (f + 1))"
    using assms by (simp add: mel_weight_def numeral_2_eq_2)
  have "real_of_int (bin ! (f + 2) - bin ! (f + 1)) \<noteq> 0" using assms by simp
  then show "mel_weight bin f k + mel_weight bin (f + 1) k = 1"
    unfolding a b by (simp add: add_divide_distrib[symmetric] del: of_int_diff)
qed

lemma mel_weight_adjacent:
  assumes mono: "\<And>i j. i \<le> j \<Longrightarrow> j < n + 2 \<Longrightarrow> bin ! i \<le> bin ! j"
    and "f < g" "g < n" "mel_weight bin f k \<noteq> 0" "mel_weight bin g k \<noteq> 0"
  shows "g = f + 1"
proof (rule ccontr)
  assume "g \<noteq> f + 1"
  then have g: "f + 2 \<le> g" using assms(2) by simp
  have "k < bin ! (f + 2)"
    using mel_weight_nonzero[OF assms(4)] mono[of "f + 1" "f + 2"] assms(2,3) by auto
  moreover have "bin ! g \<le> k"
    using mel_weight_nonzero[OF assms(5)] mono[of g "g + 1"] assms(3) by auto
  moreover have "bin ! (f + 2) \<le> bin ! g"
    using g assms(3) by (intro mono) simp_all
  ultimately show False by simp
qed

lemma create_mel_filterbanks_result:
  assumes "0 \<le> num_filters" "0 \<le> fft_size" "0 < sample_rate"
  shows "\<exists>filters. create_mel_filterbanks num_filters fft_size sample_rate = Inr filters \<and>
      length filters = nat num_filters \<and>
      (\<forall>f < nat num_filters. length (filters ! f) = nat (fft_size div 2 + 1) \<and>
         (\<forall>p < nat (fft_size div 2 + 1).
            filters ! f ! p = mel_weight (mel_bins (nat num_filters) fft_size sample_rate) f (int p)))"
proof -
  have g: "\<not> (num_filters < 0 \<or> fft_size < 0 \<or> sample_rate \<le> 0)" using assms by simp
  have "create_mel_filterbanks num_filters fft_size sample_rate =
      fill_filters (mel_bins (nat num_filters) fft_size sample_rate) (nat num_filters) 1
        (replicate (nat num_filters) (replicate (nat (fft_size div 2 + 1)) 0))"
    unfolding create_mel_filterbanks_def Let_def using g by (simp only: if_False)
  then show ?thesis
    using fill_filters_weights[OF mel_bins_ok[OF assms(2,3), of "nat num_filters"]] by simp
qed

subsection \<open>Claims\<close>

text \<open>
  C8. For a positive filter count, a positive FFT size (a power of two or not) and a positive
  sample rate, \<open>create_mel_filterbanks\<close> returns \<open>num_filters\<close> rows of \<open>fft_size / 2 + 1\<close>
  weights.  Every weight lies in \<open>[0, 1]\<close>.  Two filters that both have a non-zero weight at
  one bin are adjacent, so no bin has a non-zero weight in three filters.  In the overlap
  region \<open>bin[f+1] \<le> k < bin[f+2]\<close> of filters \<open>f\<close> and \<open>f + 1\<close>, the weight of filter \<open>f\<close> is
  its down-ramp, the weight of filter \<open>f + 1\<close> its up-ramp, and the two sum to 1.
\<close>
theorem create_mel_filterbanks_weights:
  assumes "0 < num_filters" and "0 < fft_size" and "0 < sample_rate"
  shows "\<exists>filters. create_mel_filterbanks num_filters fft_size sample_rate = Inr filters \<and>
      length filters = nat num_filters \<and>
      (\<forall>f. f < nat num_filters \<longrightarrow> length (filters ! f) = nat (fft_size div 2 + 1)) \<and>
      (\<forall>f k. f < nat num_filters \<and> k < nat (fft_size div 2 + 1) \<longrightarrow>
         0 \<le> filters ! f ! k \<and> filters ! f ! k \<le> 1) \<and>
      (\<forall>f g k. f < g \<and> g < nat num_filters \<and> k < nat (fft_size div 2 + 1) \<and>
         filters ! f ! k \<noteq> 0 \<and> filters ! g ! k \<noteq> 0 \<longrightarrow> g = f + 1) \<and>
      (\<forall>f g h k. f < g \<and> g < h \<and> h < nat num_filters \<and> k < nat (fft_size div 2 + 1) \<longrightarrow>
         filters ! f ! k = 0 \<or> filters ! g ! k = 0 \<or> filters ! h ! k = 0) \<and>
      (\<forall>f k. f + 1 < nat num_filters \<and>
         mel_bins (nat num_filters) fft_size sample_rate ! (f + 1) \<le> int k \<and>
         int k < mel_bins (nat num_filters) fft_size sample_rate ! (f + 2) \<longrightarrow>
         filters ! f ! k =
           real_of_int (mel_bins (nat num_filters) fft_size sample_rate ! (f + 2) - int k) /
           real_of_int (mel_bins (nat num_filters) fft_size sample_rate ! (f + 2) -
                        mel_bins (nat num_filters) fft_size sample_rate ! (f + 1)) \<and>
         filters ! (f + 1) ! k =
           real_of_int (int k - mel_bins (nat num_filters) fft_size sample_rate ! (f + 1)) /
           real_of_int (mel_bins (nat num_filters) fft_size sample_rate ! (f + 2) -
                        mel_bins (nat num_filters) fft_size sample_rate ! (f + 1)) \<and>
         filters ! f ! k + filters ! (f + 1) ! k = 1)"
proof -
  let ?n = "nat num_filters" and ?w = "nat (fft_size div 2 + 1)"
  let ?bin = "mel_bins ?n fft_size sample_rate"
  have nn: "0 \<le> num_filters" "0 \<le> fft_size" using assms by simp_all
  obtain filters where F: "create_mel_filterbanks num_filters fft_size sample_rate = Inr filters"
    "length filters = ?n"
    "\<And>f. f < ?n \<Longrightarrow> length (filters ! f) = ?w"
    "\<And>f p. f < ?n \<Longrightarrow> p < ?w \<Longrightarrow> filters ! f ! p = mel_weight ?bin f (int p)"
    using create_mel_filterbanks_result[OF nn assms(3)] by blast
  have mono: "\<And>i j. i \<le> j \<Longrightarrow> j < ?n + 2 \<Longrightarrow> ?bin ! i \<le> ?bin ! j"
    using mel_bins_mono[OF nn(2) assms(3)] by blast
  have ok: "bins_ok ?bin ?n ?w" by (rule mel_bins_ok[OF nn(2) assms(3)])
  have range: "0 \<le> filters ! f ! k \<and> filters ! f ! k \<le> 1" if "f < ?n \<and> k < ?w" for f k
    using F(4)[of f k] that mel_weight_range[of ?bin f "int k"] by simp
  have adj: "g = f + 1"
    if "f < g \<and> g < ?n \<and> k < ?w \<and> filters ! f ! k \<noteq> 0 \<and> filters ! g ! k \<noteq> 0" for f g k
  proof -
    have "mel_weight ?bin f (int k) \<noteq> 0" "mel_weight ?bin g (int k) \<noteq> 0"
      using that F(4)[of f k] F(4)[of g k] by simp_all
    with mono show ?thesis using that by (intro mel_weight_adjacent[of ?n ?bin f g "int k"]) simp_all
  qed
  have three: "filters ! f ! k = 0 \<or> filters ! g ! k = 0 \<or> filters ! h ! k = 0"
    if "f < g \<and> g < h \<and> h < ?n \<and> k < ?w" for f g h k
  proof (rule ccontr)
    assume "\<not> ?thesis"
    then have nz: "filters ! f ! k \<noteq> 0" "filters ! g ! k \<noteq> 0" "filters ! h ! k \<noteq> 0" by simp_all
    have "g = f + 1" using adj[of f g k] that nz by simp
    moreover have "h = f + 1" using adj[of f h k] that nz by simp
    ultimately show False using that by simp
  qed
  have over: "filters ! f ! k = real_of_int (?bin ! (f + 2) - int k) / real_of_int (?bin ! (f + 2) - ?bin ! (f + 1)) \<and>
         filters ! (f + 1) ! k = real_of_int (int k - ?bin ! (f + 1)) / real_of_int (?bin ! (f + 2) - ?bin ! (f + 1)) \<and>
         filters ! f ! k + filters ! (f + 1) ! k = 1"
    if h: "f + 1 < ?n \<and> ?bin ! (f + 1) \<le> int k \<and> int k < ?bin ! (f + 2)" for f k
  proof -
    have "?bin ! (f + 2) \<le> int ?w" using ok h by (simp add: bins_ok_def)
    then have k: "k < ?w" using h by linarith
    have a: "filters ! f ! k = mel_weight ?bin f (int k)" using F(4)[of f k] h k by simp
    have b: "filters ! (f + 1) ! k = mel_weight ?bin (f + 1) (int k)" using F(4)[of "f + 1" k] h k by simp
    show ?thesis unfolding a b
      using mel_weight_overlap[of ?bin f "int k"] h by simp
  qed
  show ?thesis
  proof (intro exI[of _ filters] conjI allI impI)
    show "create_mel_filterbanks num_filters fft_size sample_rate = Inr filters" by (rule F(1))
    show "length filters = ?n" by (rule F(2))
    show "length (filters ! f) = ?w" if "f < ?n" for f using that by (rule F(3))
    show "0 \<le> filters ! f ! k" if "f < ?n \<and> k < ?w" for f k using range[OF that] by simp
    show "filters ! f ! k \<le> 1" if "f < ?n \<and> k < ?w" for f k using range[OF that] by simp
    show "g = f + 1"
      if "f < g \<and> g < ?n \<and> k < ?w \<and> filters ! f ! k \<noteq> 0 \<and> filters ! g ! k \<noteq> 0" for f g k
      using that by (rule adj)
    show "filters ! f ! k = 0 \<or> filters ! g ! k = 0 \<or> filters ! h ! k = 0"
      if "f < g \<and> g < h \<and> h < ?n \<and> k < ?w" for f g h k
      using that by (rule three)
    show "filters ! f ! k = real_of_int (?bin ! (f + 2) - int k) / real_of_int (?bin ! (f + 2) - ?bin ! (f + 1))"
      if "f + 1 < ?n \<and> ?bin ! (f + 1) \<le> int k \<and> int k < ?bin ! (f + 2)" for f k
      using over[OF that] by simp
    show "filters ! (f + 1) ! k = real_of_int (int k - ?bin ! (f + 1)) / real_of_int (?bin ! (f + 2) - ?bin ! (f + 1))"
      if "f + 1 < ?n \<and> ?bin ! (f + 1) \<le> int k \<and> int k < ?bin ! (f + 2)" for f k
      using over[OF that] by simp
    show "filters ! f ! k + filters ! (f + 1) ! k = 1"
      if "f + 1 < ?n \<and> ?bin ! (f + 1) \<le> int k \<and> int k < ?bin ! (f + 2)" for f k
      using over[OF that] by simp
  qed
qed

theorem create_mel_filterbanks_weights_witness:
  "\<exists>filters. create_mel_filterbanks 40 2048 48000 = Inr filters \<and> length filters = 40 \<and>
     length (filters ! 0) = 1025 \<and> 0 \<le> filters ! 0 ! 0 \<and> filters ! 39 ! 1024 \<le> 1"
proof -
  have h: "(0::int) < 40" "(0::int) < 2048" "(0::int) < 48000" by simp_all
  from create_mel_filterbanks_weights[OF h] show ?thesis
  proof (elim exE conjE)
    fix filters
    assume F1: "create_mel_filterbanks 40 2048 48000 = Inr filters"
      and F2: "length filters = nat 40"
      and F3: "\<forall>f. f < nat 40 \<longrightarrow> length (filters ! f) = nat (2048 div 2 + 1)"
      and F4: "\<forall>f k. f < nat 40 \<and> k < nat (2048 div 2 + 1) \<longrightarrow> 0 \<le> filters ! f ! k \<and> filters ! f ! k \<le> 1"
    have a: "length (filters ! 0) = 1025" using F3[rule_format, of 0] by simp
    have b: "0 \<le> filters ! 0 ! 0" using F4[rule_format, of 0 0] by simp
    have c: "filters ! 39 ! 1024 \<le> 1" using F4[rule_format, of 39 1024] by simp
    have d: "length filters = 40" using F2 by simp
    show ?thesis using F1 a b c d by (intro exI[of _ filters] conjI)
  qed
qed

text \<open>
  C9. When two adjacent bin indices coincide (\<open>bin[m-1] = bin[m]\<close> or \<open>bin[m+1] = bin[m]\<close>),
  the loop of that ramp runs zero times and leaves the row as it is.  No run of a ramp
  loop, of the loop over the filters or of \<open>create_mel_filterbanks\<close> ends in a division by
  zero, whatever the bin indices are: the divisions by \<open>bin[m] - bin[m-1]\<close> and
  \<open>bin[m+1] - bin[m]\<close> stand inside loops that are entered only when the span is positive.
\<close>
theorem filterbank_no_division_by_zero:
  "(bin ! (m - 1) = bin ! m \<longrightarrow>
      ramp_up row (bin ! (m - 1)) (bin ! m) (bin ! (m - 1)) = Inr row) \<and>
   (bin ! (m + 1) = bin ! m \<longrightarrow>
      ramp_down row (bin ! m) (bin ! (m + 1)) (bin ! m) = Inr row) \<and>
   ramp_up row (bin ! (m - 1)) (bin ! m) (bin ! (m - 1)) \<noteq> Inl DivisionByZero \<and>
   ramp_down row (bin ! m) (bin ! (m + 1)) (bin ! m) \<noteq> Inl DivisionByZero \<and>
   fill_filters bin n 1 filters \<noteq> Inl DivisionByZero \<and>
   create_mel_filterbanks num_filters fft_size sample_rate \<noteq> Inl DivisionByZero"
  by (simp add: ramp_up_empty ramp_down_empty ramp_up_no_div ramp_down_no_div fill_filters_no_div
      create_mel_filterbanks_no_div)

theorem filterbank_no_division_by_zero_witness:
  "[5, 5, 5::int] ! (1 - 1) = [5, 5, 5] ! 1 \<and>
   ramp_up [0, 0, 0, 0, 0, 0] 5 5 5 = Inr [0, 0, 0, 0, 0, 0] \<and>
   ramp_down [0, 0, 0, 0, 0, 0] 5 5 5 = Inr [0, 0, 0, 0, 0, 0] \<and>
   fill_filters [5, 5, 5] 1 1 [[0, 0, 0, 0, 0, 0]] \<noteq> Inl DivisionByZero"
  using filterbank_no_division_by_zero[of "[5, 5, 5]" 1 "[0, 0, 0, 0, 0, 0]" 1 "[[0, 0, 0, 0, 0, 0]]" 1 2 48000]
  by simp

section \<open>Verification of the feature extractor\<close>

subsection \<open>The stages of the specification\<close>

text \<open>
  Pre-emphasis: \<open>frame[i] - 0.95 * frame[i-1]\<close> for every index but 0, each from the samples as
  they were before the pass; \<open>frame[0]\<close> stays.
\<close>

definition pre_emphasis_spec :: "real list \<Rightarrow> real list" where
  "pre_emphasis_spec frame =
     map (\<lambda>i. if i = 0 then frame ! 0 else frame ! i - 0.95 * frame ! (i - 1)) [0..<length frame]"

text \<open>The Hamming window: sample \<open>i\<close> of \<open>n\<close> times \<open>0.54 - 0.46 * cos (2 * pi * i / (n - 1))\<close>.\<close>

definition hamming_spec :: "real list \<Rightarrow> real list" where
  "hamming_spec frame =
     map (\<lambda>i. frame ! i * (0.54 - 0.46 * cos (2 * pi * real i / real (length frame - 1))))
       [0..<length frame]"

text \<open>
  The power spectrum: the frame, padded with zeros to \<open>n\<close> samples and taken as the real
  parts of a complex sequence, goes through the forward transform; bin \<open>k\<close> is
  \<open>|X k|\<^sup>2 / n\<close> for \<open>k = 0, \<dots>, n / 2\<close>.
\<close>

definition zero_pad :: "real list \<Rightarrow> nat \<Rightarrow> complex list" where
  "zero_pad frame n = map (\<lambda>i. if i < length frame then complex_of_real (frame ! i) else 0) [0..<n]"

definition power_spectrum_spec :: "real list \<Rightarrow> nat \<Rightarrow> real list" where
  "power_spectrum_spec frame n =
     map (\<lambda>k. (cmod (dft 1 (zero_pad frame n) ! k))\<^sup>2 / real n) [0..<n div 2 + 1]"

text \<open>
  The filterbank application: for each filter the sum of \<open>power[k] * weight[k]\<close> over all
  bins, then \<open>log energy\<close> if the energy is positive and \<open>log 1e-10\<close> otherwise.
\<close>

definition log_mel_energies :: "real list \<Rightarrow> real list list \<Rightarrow> real list" where
  "log_mel_energies pw filterbanks =
     map (\<lambda>weights.
            let energy = (\<Sum>k<length pw. pw ! k * weights ! k)
            in if energy > 0 then ln energy else ln (1 / 10 ^ 10))
       filterbanks"

text \<open>
  The cosine transform: coefficient \<open>k = 0, \<dots>, 12\<close> is the sum over the filters \<open>m\<close> of
  \<open>melEnergy[m] * cos (pi * k * (m + 0.5) / numFilters)\<close>, without scaling.
\<close>

definition dct_spec :: "real list \<Rightarrow> real list" where
  "dct_spec mel_energies =
     map (\<lambda>k. \<Sum>m<length mel_energies.
                 mel_energies ! m * cos (pi * real k * (real m + 0.5) / real (length mel_energies)))
       [0..<13]"

subsection \<open>Each stage of the code is the stage of the specification\<close>

lemma pre_emphasis_loop_result:
  "i < length signal \<Longrightarrow>
   pre_emphasis_loop signal i =
     map (\<lambda>p. if 1 \<le> p \<and> p \<le> i then signal ! p - 0.95 * signal ! (p - 1) else signal ! p)
       [0..<length signal]"
proof (induction signal i rule: pre_emphasis_loop.induct)
  case (1 signal i)
  show ?case
  proof (cases "i > 0")
    case True
    let ?s = "signal[i := signal ! i - 0.95 * signal ! (i - 1)]"
    have "pre_emphasis_loop signal i = pre_emphasis_loop ?s (i - 1)"
      using True by (subst pre_emphasis_loop.simps) simp
    also have "\<dots> = map (\<lambda>p. if 1 \<le> p \<and> p \<le> i - 1 then ?s ! p - 0.95 * ?s ! (p - 1) else ?s ! p)
       [0..<length ?s]"
      using "1.IH"[OF True] "1.prems" by simp
    also have "\<dots> = map (\<lambda>p. if 1 \<le> p \<and> p \<le> i then signal ! p - 0.95 * signal ! (p - 1) else signal ! p)
       [0..<length signal]"
    proof -
      define f where "f = (\<lambda>p. if 1 \<le> p \<and> p \<le> i - 1 then ?s ! p - 0.95 * ?s ! (p - 1) else ?s ! p)"
      define g where "g = (\<lambda>p. if 1 \<le> p \<and> p \<le> i then signal ! p - 0.95 * signal ! (p - 1) else signal ! p)"
      have "f p = g p" if p: "p < length signal" for p
      proof -
        consider (lt) "p < i" | (eq) "p = i" | (gt) "i < p" by linarith
        then show ?thesis
        proof cases
          case lt
          then have "?s ! p = signal ! p" "?s ! (p - 1) = signal ! (p - 1)" by simp_all
          then show ?thesis using lt unfolding f_def g_def by auto
        next
          case eq
          have "\<not> i \<le> i - 1" using True by simp
          then show ?thesis using eq True "1.prems" unfolding f_def g_def by simp
        next
          case gt
          then have "\<not> p \<le> i - 1" "\<not> p \<le> i" "?s ! p = signal ! p" by simp_all
          then show ?thesis unfolding f_def g_def by simp
        qed
      qed
      then have "map f [0..<length ?s] = map g [0..<length signal]" by simp
      then show ?thesis unfolding f_def g_def .
    qed
    finally show ?thesis .
  next
    case False
    then have "pre_emphasis_loop signal i = signal" by (subst pre_emphasis_loop.simps) simp
    moreover have "map (\<lambda>p. if 1 \<le> p \<and> p \<le> i then signal ! p - 0.95 * signal ! (p - 1) else signal ! p)
       [0..<length signal] = signal"
      using False by (intro nth_equalityI) auto
    ultimately show ?thesis by simp
  qed
qed

lemma pre_emphasis_result:
  "frame \<noteq> [] \<Longrightarrow> pre_emphasis frame = Inr (pre_emphasis_spec frame)"
proof -
  assume ne: "frame \<noteq> []"
  then have "length frame - 1 < length frame" by (cases frame) simp_all
  then have "pre_emphasis_loop frame (length frame - 1) =
     map (\<lambda>p. if 1 \<le> p \<and> p \<le> length frame - 1 then frame ! p - 0.95 * frame ! (p - 1) else frame ! p)
       [0..<length frame]"
    by (rule pre_emphasis_loop_result)
  also have "\<dots> = pre_emphasis_spec frame"
    unfolding pre_emphasis_spec_def by (rule map_cong) auto
  finally show ?thesis using ne by (simp add: pre_emphasis_def)
qed

lemma length_pre_emphasis_spec [simp]: "length (pre_emphasis_spec frame) = length frame"
  by (simp add: pre_emphasis_spec_def)

lemma hamming_window_result:
  "length frame \<noteq> 1 \<Longrightarrow> hamming_window frame = Inr (hamming_spec frame)"
  by (simp add: hamming_window_def hamming_spec_def PI_eq_pi Let_def)

lemma length_hamming_spec [simp]: "length (hamming_spec frame) = length frame"
  by (simp add: hamming_spec_def)

lemma mel_energy_loop_result:
  "length pw \<le> length weights \<Longrightarrow> k \<le> length pw \<Longrightarrow>
   mel_energy_loop pw weights k energy = Inr (energy + (\<Sum>j = k..<length pw. pw ! j * weights ! j))"
proof (induction pw weights k energy rule: mel_energy_loop.induct)
  case (1 pw weights k energy)
  show ?case
  proof (cases "k < length pw")
    case True
    then have kw: "k < length weights" using "1.prems" by simp
    have "mel_energy_loop pw weights k energy =
        mel_energy_loop pw weights (Suc k) (energy + pw ! k * weights ! k)"
      using True kw by (subst mel_energy_loop.simps) simp
    also have "\<dots> = Inr (energy + pw ! k * weights ! k + (\<Sum>j = Suc k..<length pw. pw ! j * weights ! j))"
      using "1.IH"[OF True kw "1.prems"(1)] True by simp
    also have "\<dots> = Inr (energy + (\<Sum>j = k..<length pw. pw ! j * weights ! j))"
      using True by (simp add: sum.atLeast_Suc_lessThan)
    finally show ?thesis .
  next
    case False
    then show ?thesis using "1.prems" by (subst mel_energy_loop.simps) simp
  qed
qed

lemma mel_filters_loop_result:
  "\<forall>f < length filterbanks. length pw \<le> length (filterbanks ! f) \<Longrightarrow>
   length mel_energies = length filterbanks \<Longrightarrow>
   \<forall>f < length filterbanks. m \<le> f \<longrightarrow> mel_energies ! f = 0 \<Longrightarrow>
   mel_filters_loop pw filterbanks m mel_energies =
     Inr (map (\<lambda>f. if m \<le> f then log_mel_energies pw filterbanks ! f else mel_energies ! f)
            [0..<length filterbanks])"
proof (induction pw filterbanks m mel_energies rule: mel_filters_loop.induct)
  case (1 pw filterbanks m mel_energies)
  note rows = "1.prems"(1) and len = "1.prems"(2) and zero = "1.prems"(3)
  show ?case
  proof (cases "m < length filterbanks")
    case True
    define energy where "energy = (\<Sum>k<length pw. pw ! k * filterbanks ! m ! k)"
    have e: "mel_energy_loop pw (filterbanks ! m) 0 (mel_energies ! m) = Inr energy"
      using mel_energy_loop_result[of pw "filterbanks ! m" 0 "mel_energies ! m"] rows zero True
      by (simp add: energy_def atLeast0LessThan)
    define v where "v = (if energy > 0 then ln energy else ln (1 / 10 ^ 10))"
    have lv: "log_mel_energies pw filterbanks ! m = v"
      using True by (simp add: log_mel_energies_def energy_def v_def Let_def)
    let ?es = "mel_energies[m := v]"
    have "mel_filters_loop pw filterbanks m mel_energies = mel_filters_loop pw filterbanks (Suc m) ?es"
      using True e by (subst mel_filters_loop.simps) (simp add: v_def)
    also have "\<dots> = Inr (map (\<lambda>f. if Suc m \<le> f then log_mel_energies pw filterbanks ! f else ?es ! f)
            [0..<length filterbanks])"
    proof (rule "1.IH"[OF True e, folded v_def])
      show "\<forall>f < length filterbanks. length pw \<le> length (filterbanks ! f)" by (rule rows)
      show "length ?es = length filterbanks" using len by simp
      show "\<forall>f < length filterbanks. Suc m \<le> f \<longrightarrow> ?es ! f = 0" using zero by simp
    qed
    also have "\<dots> = Inr (map (\<lambda>f. if m \<le> f then log_mel_energies pw filterbanks ! f else mel_energies ! f)
            [0..<length filterbanks])"
    proof -
      have "(if Suc m \<le> f then log_mel_energies pw filterbanks ! f else ?es ! f) =
            (if m \<le> f then log_mel_energies pw filterbanks ! f else mel_energies ! f)"
        if "f < length filterbanks" for f
        using that len lv by (cases "f = m") auto
      then show ?thesis by simp
    qed
    finally show ?thesis .
  next
    case False
    then have "mel_filters_loop pw filterbanks m mel_energies = Inr mel_energies"
      by (subst mel_filters_loop.simps) simp
    moreover have "mel_energies = map (\<lambda>f. if m \<le> f then log_mel_energies pw filterbanks ! f else mel_energies ! f)
            [0..<length filterbanks]"
      using False len by (intro nth_equalityI) simp_all
    ultimately show ?thesis by simp
  qed
qed

lemma apply_mel_filters_result:
  assumes "\<forall>f < length filterbanks. length pw \<le> length (filterbanks ! f)"
  shows "apply_mel_filters pw filterbanks = Inr (log_mel_energies pw filterbanks)"
proof -
  have "mel_filters_loop pw filterbanks 0 (replicate (length filterbanks) 0) =
     Inr (map (\<lambda>f. if 0 \<le> f then log_mel_energies pw filterbanks ! f else replicate (length filterbanks) 0 ! f)
            [0..<length filterbanks])"
    by (rule mel_filters_loop_result[OF assms]) simp_all
  moreover have "map (\<lambda>f. log_mel_energies pw filterbanks ! f) [0..<length filterbanks] = log_mel_energies pw filterbanks"
    by (intro nth_equalityI) (simp_all add: log_mel_energies_def)
  ultimately show ?thesis by (simp add: apply_mel_filters_def Let_def)
qed

lemma dct_sum_loop_result:
  "m \<le> length es \<Longrightarrow>
   dct_sum_loop es k m acc =
     acc + (\<Sum>j = m..<length es. es ! j * cos (pi * real k * (real j + 0.5) / real (length es)))"
proof (induction es k m acc rule: dct_sum_loop.induct)
  case (1 es k m acc)
  show ?case
  proof (cases "m < length es")
    case True
    have "dct_sum_loop es k m acc =
        dct_sum_loop es k (Suc m) (acc + es ! m * cos (PI * real k * (real m + 0.5) / real (length es)))"
      using True by (subst dct_sum_loop.simps) simp
    also have "\<dots> = acc + es ! m * cos (PI * real k * (real m + 0.5) / real (length es)) +
        (\<Sum>j = Suc m..<length es. es ! j * cos (pi * real k * (real j + 0.5) / real (length es)))"
      using "1.IH"[OF True] True by simp
    also have "\<dots> = acc + (\<Sum>j = m..<length es. es ! j * cos (pi * real k * (real j + 0.5) / real (length es)))"
      using True by (simp add: sum.atLeast_Suc_lessThan PI_eq_pi)
    finally show ?thesis .
  next
    case False
    then show ?thesis using "1.prems" by (subst dct_sum_loop.simps) simp
  qed
qed

lemma dct_loop_result:
  "length mfcc = n \<Longrightarrow>
   dct_loop es n k mfcc =
     map (\<lambda>q. if k \<le> q then dct_sum_loop es q 0 0 else mfcc ! q) [0..<n]"
proof (induction es n k mfcc rule: dct_loop.induct)
  case (1 es n k mfcc)
  show ?case
  proof (cases "k < n")
    case True
    let ?m = "mfcc[k := dct_sum_loop es k 0 0]"
    have "dct_loop es n k mfcc = dct_loop es n (Suc k) ?m"
      using True by (subst dct_loop.simps) simp
    also have "\<dots> = map (\<lambda>q. if Suc k \<le> q then dct_sum_loop es q 0 0 else ?m ! q) [0..<n]"
      using "1.IH"[OF True] "1.prems" by simp
    also have "\<dots> = map (\<lambda>q. if k \<le> q then dct_sum_loop es q 0 0 else mfcc ! q) [0..<n]"
    proof -
      have "(if Suc k \<le> q then dct_sum_loop es q 0 0 else ?m ! q) =
            (if k \<le> q then dct_sum_loop es q 0 0 else mfcc ! q)" if "q < n" for q
        using that "1.prems" by (cases "q = k") auto
      then show ?thesis by simp
    qed
    finally show ?thesis .
  next
    case False
    then have "dct_loop es n k mfcc = mfcc" by (subst dct_loop.simps) simp
    moreover have "mfcc = map (\<lambda>q. if k \<le> q then dct_sum_loop es q 0 0 else mfcc ! q) [0..<n]"
      using False "1.prems" by (intro nth_equalityI) simp_all
    ultimately show ?thesis by simp
  qed
qed

lemma dct_result: "dct mel_energies = dct_spec mel_energies"
proof -
  have "dct mel_energies = map (\<lambda>q. if 0 \<le> q then dct_sum_loop mel_energies q 0 0 else replicate 13 0 ! q) [0..<13]"
    unfolding dct_def Let_def by (rule dct_loop_result) simp
  also have "\<dots> = dct_spec mel_energies"
    unfolding dct_spec_def by (simp add: dct_sum_loop_result atLeast0LessThan del: upt_Suc replicate.simps)
  finally show ?thesis .
qed

lemma length_dct_spec [simp]: "length (dct_spec es) = 13"
  by (simp add: dct_spec_def)

lemma fft_size_loop_result:
  "0 < n \<Longrightarrow> 2 ^ e < 2 * n \<Longrightarrow>
   \<exists>e'. fft_size_loop n (2 ^ e) = 2 ^ e' \<and> n \<le> 2 ^ e' \<and> 2 ^ e' < 2 * n"
proof (induction "n - 2 ^ e" arbitrary: e rule: less_induct)
  case less
  show ?case
  proof (cases "2 ^ e < n")
    case True
    have pb: "push_bit 1 ((2::nat) ^ e) = 2 ^ Suc e" by (simp add: push_bit_eq_mult)
    have "n - 2 ^ Suc e < n - 2 ^ e" using True by (intro diff_less_mono2) simp_all
    moreover have "(2::nat) ^ Suc e < 2 * n" using True by simp
    ultimately obtain e' where e': "fft_size_loop n (2 ^ Suc e) = 2 ^ e'" "n \<le> 2 ^ e'" "2 ^ e' < 2 * n"
      using less.hyps[of "Suc e"] less.prems(1) by blast
    have "fft_size_loop n (2 ^ e) = fft_size_loop n (push_bit 1 (2 ^ e))"
      using True by (subst fft_size_loop.simps) simp
    then have "fft_size_loop n (2 ^ e) = fft_size_loop n (2 ^ Suc e)"
      by (simp only: pb)
    then show ?thesis using e' by auto
  next
    case False
    then have "fft_size_loop n (2 ^ e) = 2 ^ e" by (subst fft_size_loop.simps) simp
    then show ?thesis using False less.prems by auto
  qed
qed

lemma fft_size_loop_pow2:
  assumes "0 < n"
  obtains e where "fft_size_loop n 1 = 2 ^ e" "n \<le> 2 ^ e" "2 ^ e < 2 * n"
  using fft_size_loop_result[of n 0] assms by auto

lemma power_spectrum_result:
  assumes "fft_size_loop (length frame) 1 = 2 ^ e"
  shows "power_spectrum frame = Inr (power_spectrum_spec frame (2 ^ e))"
proof -
  have "length (zero_pad frame (2 ^ e)) = 2 ^ e" by (simp add: zero_pad_def)
  then have "fft (zero_pad frame (2 ^ e)) False = Inr (dft 1 (zero_pad frame (2 ^ e)))"
    using fft_result[of "zero_pad frame (2 ^ e)" e False] by simp
  then show ?thesis
    unfolding power_spectrum_def Let_def assms power_spectrum_spec_def zero_pad_def by simp
qed

lemma length_power_spectrum_spec [simp]: "length (power_spectrum_spec frame n) = n div 2 + 1"
  by (simp add: power_spectrum_spec_def)

lemma extractMFCC_result:
  assumes "1 < length frame"
  shows "\<exists>e pw filterbanks.
     length frame \<le> 2 ^ e \<and> 2 ^ e < 2 * length frame \<and>
     pw = power_spectrum_spec (hamming_spec (pre_emphasis_spec frame)) (2 ^ e) \<and>
     power_spectrum (hamming_spec (pre_emphasis_spec frame)) = Inr pw \<and>
     create_mel_filterbanks 40 (2 ^ e) SAMPLE_RATE = Inr filterbanks \<and>
     length filterbanks = 40 \<and>
     (\<forall>f < 40. length (filterbanks ! f) = length pw) \<and>
     (\<forall>f k. f < 40 \<and> k < length pw \<longrightarrow>
        filterbanks ! f ! k = mel_weight (mel_bins 40 (2 ^ e) SAMPLE_RATE) f (int k)) \<and>
     extractMFCC frame = Inr (dct_spec (log_mel_energies pw filterbanks)) \<and>
     length (dct_spec (log_mel_energies pw filterbanks)) = 13"
proof -
  let ?f1 = "pre_emphasis_spec frame"
  let ?f2 = "hamming_spec ?f1"
  have ne: "frame \<noteq> []" using assms by auto
  have s1: "pre_emphasis frame = Inr ?f1" by (rule pre_emphasis_result[OF ne])
  have s2: "hamming_window ?f1 = Inr ?f2" using assms by (intro hamming_window_result) simp
  have "0 < length ?f2" using ne by simp
  then obtain e where e: "fft_size_loop (length ?f2) 1 = 2 ^ e" "length ?f2 \<le> 2 ^ e" "2 ^ e < 2 * length ?f2"
    by (rule fft_size_loop_pow2)
  define pw where "pw = power_spectrum_spec ?f2 (2 ^ e)"
  have s3: "power_spectrum ?f2 = Inr pw" unfolding pw_def by (rule power_spectrum_result[OF e(1)])
  have e1: "1 \<le> e"
  proof (rule ccontr)
    assume "\<not> 1 \<le> e"
    then have "e = 0" by simp
    then show False using e(2) assms by simp
  qed
  then obtain d where d: "e = Suc d" by (cases e) auto
  have lpw: "length pw = 2 ^ d + 1" by (simp add: pw_def d)
  have size: "int (length pw) * 2 - 2 = 2 ^ e" unfolding lpw d by simp
  have width: "nat ((2::int) ^ e div 2 + 1) = length pw"
    unfolding lpw d by (simp add: nat_add_distrib nat_power_eq)
  obtain filterbanks where fb: "create_mel_filterbanks 40 (2 ^ e) SAMPLE_RATE = Inr filterbanks"
    "length filterbanks = nat 40"
    "\<And>f. f < nat 40 \<Longrightarrow> length (filterbanks ! f) = nat (2 ^ e div 2 + 1)"
    "\<And>f p. f < nat 40 \<Longrightarrow> p < nat (2 ^ e div 2 + 1) \<Longrightarrow>
       filterbanks ! f ! p = mel_weight (mel_bins (nat 40) (2 ^ e) SAMPLE_RATE) f (int p)"
    using create_mel_filterbanks_result[of 40 "2 ^ e" SAMPLE_RATE]
    by (auto simp: SAMPLE_RATE_def)
  have rows: "\<forall>f < length filterbanks. length pw \<le> length (filterbanks ! f)"
    using fb(2,3) width by simp
  have s5: "apply_mel_filters pw filterbanks = Inr (log_mel_energies pw filterbanks)"
    by (rule apply_mel_filters_result[OF rows])
  have fb': "create_mel_filterbanks 40 (int (length pw) * 2 - 2) SAMPLE_RATE = Inr filterbanks"
    by (simp only: size fb(1))
  have run: "extractMFCC frame = Inr (dct_spec (log_mel_energies pw filterbanks))"
    by (simp only: extractMFCC_def s1 s2 s3 fb' s5 sum.case dct_result)
  have "\<forall>f < 40. length (filterbanks ! f) = length pw" using fb(3) width by simp
  moreover have "\<forall>f k. f < 40 \<and> k < length pw \<longrightarrow>
        filterbanks ! f ! k = mel_weight (mel_bins 40 (2 ^ e) SAMPLE_RATE) f (int k)"
    using fb(4) width by simp
  moreover have "length filterbanks = 40" using fb(2) by simp
  moreover have "length frame \<le> 2 ^ e" "2 ^ e < 2 * length frame" using e(2,3) by simp_all
  ultimately show ?thesis using s3 fb(1) run pw_def by (intro exI[of _ e] exI[of _ pw] exI[of _ filterbanks]) simp
qed

subsection \<open>Claim\<close>

text \<open>
  C2. For a frame of more than one sample, \<open>extractMFCC\<close> returns the 13 coefficients that
  come from, in this order: (1) the pre-emphasis, which is what the in-place loop from the
  last index down to 1 computes; (2) the Hamming window; (3) the power spectrum, on the
  least power of two \<open>2 ^ e\<close> that is not below the frame length; (4) the 40 triangular
  mel filters for that FFT size and the sample rate 48000, applied with the logarithm and
  its floor; (5) the cosine sums for \<open>k = 0, \<dots>, 12\<close>.  No stage fails.
\<close>
theorem extractMFCC_pipeline:
  assumes "1 < length frame"
  shows "\<exists>e pw filterbanks.
     pre_emphasis frame = Inr (pre_emphasis_spec frame) \<and>
     hamming_window (pre_emphasis_spec frame) = Inr (hamming_spec (pre_emphasis_spec frame)) \<and>
     length frame \<le> 2 ^ e \<and> 2 ^ e < 2 * length frame \<and>
     pw = power_spectrum_spec (hamming_spec (pre_emphasis_spec frame)) (2 ^ e) \<and>
     power_spectrum (hamming_spec (pre_emphasis_spec frame)) = Inr pw \<and>
     create_mel_filterbanks 40 (2 ^ e) SAMPLE_RATE = Inr filterbanks \<and>
     length filterbanks = 40 \<and>
     (\<forall>f k. f < 40 \<and> k < length pw \<longrightarrow>
        filterbanks ! f ! k = mel_weight (mel_bins 40 (2 ^ e) SAMPLE_RATE) f (int k)) \<and>
     apply_mel_filters pw filterbanks = Inr (log_mel_energies pw filterbanks) \<and>
     dct (log_mel_energies pw filterbanks) = dct_spec (log_mel_energies pw filterbanks) \<and>
     extractMFCC frame = Inr (dct_spec (log_mel_energies pw filterbanks)) \<and>
     length (dct_spec (log_mel_energies pw filterbanks)) = 13"
proof -
  obtain e pw filterbanks where r:
     "length frame \<le> 2 ^ e" "2 ^ e < 2 * length frame"
     "pw = power_spectrum_spec (hamming_spec (pre_emphasis_spec frame)) (2 ^ e)"
     "power_spectrum (hamming_spec (pre_emphasis_spec frame)) = Inr pw"
     "create_mel_filterbanks 40 (2 ^ e) SAMPLE_RATE = Inr filterbanks"
     "length filterbanks = 40"
     "\<forall>f < 40. length (filterbanks ! f) = length pw"
     "\<forall>f k. f < 40 \<and> k < length pw \<longrightarrow>
        filterbanks ! f ! k = mel_weight (mel_bins 40 (2 ^ e) SAMPLE_RATE) f (int k)"
     "extractMFCC frame = Inr (dct_spec (log_mel_energies pw filterbanks))"
     "length (dct_spec (log_mel_energies pw filterbanks)) = 13"
    using extractMFCC_result[OF assms] by (elim exE conjE)
  have ne: "frame \<noteq> []" using assms by auto
  have s1: "pre_emphasis frame = Inr (pre_emphasis_spec frame)" by (rule pre_emphasis_result[OF ne])
  have s2: "hamming_window (pre_emphasis_spec frame) = Inr (hamming_spec (pre_emphasis_spec frame))"
    using assms by (intro hamming_window_result) simp
  have s4: "apply_mel_filters pw filterbanks = Inr (log_mel_energies pw filterbanks)"
    using r(6,7) by (intro apply_mel_filters_result) simp
  have s5: "dct (log_mel_energies pw filterbanks) = dct_spec (log_mel_energies pw filterbanks)"
    by (rule dct_result)
  show ?thesis
    using s1 s2 r(1) r(2) r(3) r(4) r(5) r(6) r(8) s4 s5 r(9) r(10)
    by (intro exI[of _ e] exI[of _ pw] exI[of _ filterbanks] conjI)
qed

theorem extractMFCC_pipeline_witness:
  "1 < length [1, 1 :: real] \<and> pre_emphasis [1, 1] = Inr [1, 1 / 20] \<and>
   (\<exists>mfcc. extractMFCC [1, 1] = Inr mfcc \<and> length mfcc = 13)"
proof -
  have h: "1 < length [1, 1 :: real]" by simp
  from extractMFCC_pipeline[OF h] obtain e pw filterbanks where
    a: "pre_emphasis [1, 1] = Inr (pre_emphasis_spec [1, 1])"
    and b: "extractMFCC [1, 1] = Inr (dct_spec (log_mel_energies pw filterbanks))"
    and c: "length (dct_spec (log_mel_energies pw filterbanks)) = 13"
    by (elim exE conjE)
  have "pre_emphasis_spec [1, 1] = [1, 1 / 20]"
    by (simp add: pre_emphasis_spec_def upt_rec[of 0] upt_rec[of 1])
  with a b c h show ?thesis by auto
qed

section \<open>Verification of the sequence aligner\<close>

subsection \<open>Definitions from the specification\<close>

text \<open>
  The dot product of two vectors and the Euclidean norm of a vector, as the specification
  names them (\<open>cosineSimilarity\<close> is "the dot product divided by the product of Euclidean
  norms").
\<close>

definition dot_product :: "real list \<Rightarrow> real list \<Rightarrow> real" where
  "dot_product a b = (\<Sum>(x, y)\<leftarrow>zip a b. x * y)"

definition euclidean_norm :: "real list \<Rightarrow> real" where
  "euclidean_norm a = sqrt (\<Sum>x\<leftarrow>a. x * x)"

text \<open>
  The cost matrix of the specification, as a function of the cell: \<open>dp[0][0] = 0\<close>, every
  other cell of row 0 and column 0 is \<open>+infinity\<close>, and
  \<open>dp[i][j] = (1 - cosineSimilarity(seq1[i-1], seq2[j-1])) + min(dp[i-1][j], dp[i][j-1], dp[i-1][j-1])\<close>.
\<close>

fun dtw_cell :: "real list list \<Rightarrow> real list list \<Rightarrow> nat \<Rightarrow> nat \<Rightarrow> fval" where
  "dtw_cell seq1 seq2 0 0 = Fin 0"
| "dtw_cell seq1 seq2 0 (Suc j) = PInf"
| "dtw_cell seq1 seq2 (Suc i) 0 = PInf"
| "dtw_cell seq1 seq2 (Suc i) (Suc j) =
     fadd (Fin (1 - cosineSimilarity (seq1 ! i) (seq2 ! j)))
       (min3 (dtw_cell seq1 seq2 i (Suc j)) (dtw_cell seq1 seq2 (Suc i) j) (dtw_cell seq1 seq2 i j))"

text \<open>A cumulative cost: a finite value that is not negative, or \<open>+infinity\<close>.\<close>

fun is_cost :: "fval \<Rightarrow> bool" where
  "is_cost (Fin r) = (0 \<le> r)"
| "is_cost PInf = True"
| "is_cost NInf = False"
| "is_cost NaN = False"

text \<open>A finite value.\<close>

fun is_fin :: "fval \<Rightarrow> bool" where
  "is_fin (Fin r) = True"
| "is_fin _ = False"

text \<open>
  The loop invariant of the table: it has \<open>len1 + 1\<close> rows of \<open>len2 + 1\<close> cells, and
  every boundary cell and every cell the loops have passed (rows before \<open>i\<close>, and row \<open>i\<close>
  before column \<open>j\<close>) holds the value of the recurrence.
\<close>

definition dtw_dims :: "real list list \<Rightarrow> real list list \<Rightarrow> fval list list \<Rightarrow> bool" where
  "dtw_dims seq1 seq2 dp \<longleftrightarrow>
     length dp = length seq1 + 1 \<and> (\<forall>a \<le> length seq1. length (dp ! a) = length seq2 + 1)"

definition dtw_inv :: "real list list \<Rightarrow> real list list \<Rightarrow> nat \<Rightarrow> nat \<Rightarrow> fval list list \<Rightarrow> bool" where
  "dtw_inv seq1 seq2 i j dp \<longleftrightarrow>
     dtw_dims seq1 seq2 dp \<and>
     (\<forall>a \<le> length seq1. \<forall>b \<le> length seq2.
        (a < i \<or> (a = i \<and> b < j) \<or> a = 0 \<or> b = 0) \<longrightarrow> dp ! a ! b = dtw_cell seq1 seq2 a b)"

subsection \<open>The loops compute the recurrence\<close>

lemma nth_nth_update:
  "i < length dp \<Longrightarrow>
   dp[i := (dp ! i)[j := c]] ! a ! b = (if a = i \<and> b = j \<and> j < length (dp ! i) then c else dp ! a ! b)"
  by (cases "a = i"; cases "b = j") (auto simp: nth_list_update list_update_beyond)

lemma dtw_invI:
  "dtw_dims seq1 seq2 dp \<Longrightarrow>
   (\<And>a b. a \<le> length seq1 \<Longrightarrow> b \<le> length seq2 \<Longrightarrow>
      a < i \<or> a = i \<and> b < j \<or> a = 0 \<or> b = 0 \<Longrightarrow> dp ! a ! b = dtw_cell seq1 seq2 a b) \<Longrightarrow>
   dtw_inv seq1 seq2 i j dp"
  unfolding dtw_inv_def by blast

lemma dtw_invD:
  "dtw_inv seq1 seq2 i j dp \<Longrightarrow> a \<le> length seq1 \<Longrightarrow> b \<le> length seq2 \<Longrightarrow>
   a < i \<or> a = i \<and> b < j \<or> a = 0 \<or> b = 0 \<Longrightarrow> dp ! a ! b = dtw_cell seq1 seq2 a b"
  unfolding dtw_inv_def by blast

lemma dtw_inv_dims: "dtw_inv seq1 seq2 i j dp \<Longrightarrow> dtw_dims seq1 seq2 dp"
  unfolding dtw_inv_def by blast

lemma dtw_inv_step:
  assumes inv: "dtw_inv seq1 seq2 i j dp" and i: "1 \<le> i" "i \<le> length seq1"
    and j: "1 \<le> j" "j \<le> length seq2"
  shows "dtw_inv seq1 seq2 i (Suc j)
           (dp[i := (dp ! i)[j := fadd (Fin (1 - cosineSimilarity (seq1 ! (i - 1)) (seq2 ! (j - 1))))
              (min3 (dp ! (i - 1) ! j) (dp ! i ! (j - 1)) (dp ! (i - 1) ! (j - 1)))]])"
proof -
  obtain i' j' where ij: "i = Suc i'" "j = Suc j'"
    using i j by (cases i; cases j) auto
  have dims: "length dp = length seq1 + 1" "\<And>a. a \<le> length seq1 \<Longrightarrow> length (dp ! a) = length seq2 + 1"
    using inv by (auto simp: dtw_inv_def dtw_dims_def)
  have cells: "\<And>a b. a \<le> length seq1 \<Longrightarrow> b \<le> length seq2 \<Longrightarrow>
      (a < i \<or> (a = i \<and> b < j) \<or> a = 0 \<or> b = 0) \<Longrightarrow> dp ! a ! b = dtw_cell seq1 seq2 a b"
    using inv by (auto simp: dtw_inv_def)
  have c1: "dp ! (i - 1) ! j = dtw_cell seq1 seq2 i' (Suc j')"
    using cells[of i' j] i j ij by simp
  have c2: "dp ! i ! (j - 1) = dtw_cell seq1 seq2 (Suc i') j'"
    using cells[of i j'] i j ij by simp
  have c3: "dp ! (i - 1) ! (j - 1) = dtw_cell seq1 seq2 i' j'"
    using cells[of i' j'] i j ij by simp
  let ?c = "fadd (Fin (1 - cosineSimilarity (seq1 ! (i - 1)) (seq2 ! (j - 1))))
              (min3 (dp ! (i - 1) ! j) (dp ! i ! (j - 1)) (dp ! (i - 1) ! (j - 1)))"
  have cv: "?c = dtw_cell seq1 seq2 i j"
    unfolding c1 c2 c3 by (simp add: ij)
  let ?dp = "dp[i := (dp ! i)[j := ?c]]"
  have d': "dtw_dims seq1 seq2 ?dp"
    using dims i by (auto simp: dtw_dims_def nth_list_update)
  have "?dp ! a ! b = dtw_cell seq1 seq2 a b"
    if "a \<le> length seq1" "b \<le> length seq2" "a < i \<or> (a = i \<and> b < Suc j) \<or> a = 0 \<or> b = 0" for a b
  proof (cases "a = i \<and> b = j")
    case True
    then show ?thesis using dims i j cv by (simp add: nth_nth_update)
  next
    case False
    then have "?dp ! a ! b = dp ! a ! b"
      using dims i by (auto simp: nth_nth_update)
    moreover have "a < i \<or> (a = i \<and> b < j) \<or> a = 0 \<or> b = 0"
      using that False by auto
    ultimately show ?thesis using cells that by simp
  qed
  with d' show ?thesis by (simp add: dtw_inv_def)
qed

lemma dtw_inner_inv:
  "dtw_inv seq1 seq2 i j dp \<Longrightarrow> 1 \<le> i \<Longrightarrow> i \<le> length seq1 \<Longrightarrow> 1 \<le> j \<Longrightarrow>
   dtw_inv seq1 seq2 (Suc i) 1 (dtw_inner seq1 seq2 i j dp)"
proof (induction seq1 seq2 i j dp rule: dtw_inner.induct)
  case (1 seq1 seq2 i j dp)
  show ?case
  proof (cases "j \<le> length seq2")
    case True
    have "dtw_inv seq1 seq2 i (Suc j)
           (dp[i := (dp ! i)[j := fadd (Fin (1 - cosineSimilarity (seq1 ! (i - 1)) (seq2 ! (j - 1))))
              (min3 (dp ! (i - 1) ! j) (dp ! i ! (j - 1)) (dp ! (i - 1) ! (j - 1)))]])"
      using dtw_inv_step[OF "1.prems"(1) "1.prems"(2) "1.prems"(3) "1.prems"(4) True] .
    from "1.IH"[OF True refl refl this "1.prems"(2) "1.prems"(3)]
    show ?thesis using True by (subst dtw_inner.simps) (simp add: Let_def)
  next
    case False
    then have "dtw_inner seq1 seq2 i j dp = dp" by (subst dtw_inner.simps) simp
    moreover have "dtw_inv seq1 seq2 (Suc i) 1 dp"
    proof (rule dtw_invI)
      show "dtw_dims seq1 seq2 dp" using "1.prems"(1) by (rule dtw_inv_dims)
    next
      fix a b
      assume ab: "a \<le> length seq1" "b \<le> length seq2"
        and c: "a < Suc i \<or> a = Suc i \<and> b < 1 \<or> a = 0 \<or> b = 0"
      have "a < i \<or> a = i \<and> b < j \<or> a = 0 \<or> b = 0"
        using c ab False by auto
      then show "dp ! a ! b = dtw_cell seq1 seq2 a b"
        using dtw_invD[OF "1.prems"(1) ab] by blast
    qed
    ultimately show ?thesis by simp
  qed
qed

lemma dtw_outer_inv:
  "dtw_inv seq1 seq2 i 1 dp \<Longrightarrow> 1 \<le> i \<Longrightarrow>
   dtw_inv seq1 seq2 (Suc (length seq1)) 1 (dtw_outer seq1 seq2 i dp)"
proof (induction seq1 seq2 i dp rule: dtw_outer.induct)
  case (1 seq1 seq2 i dp)
  show ?case
  proof (cases "i \<le> length seq1")
    case True
    have "dtw_inv seq1 seq2 (Suc i) 1 (dtw_inner seq1 seq2 i 1 dp)"
      using dtw_inner_inv[OF "1.prems"(1) "1.prems"(2) True] by simp
    from "1.IH"[OF True this] show ?thesis using True by (subst dtw_outer.simps) simp
  next
    case False
    then have "dtw_outer seq1 seq2 i dp = dp" by (subst dtw_outer.simps) simp
    moreover have "dtw_inv seq1 seq2 (Suc (length seq1)) 1 dp"
    proof (rule dtw_invI)
      show "dtw_dims seq1 seq2 dp" using "1.prems"(1) by (rule dtw_inv_dims)
    next
      fix a b
      assume ab: "a \<le> length seq1" "b \<le> length seq2"
      have "a < i \<or> a = i \<and> b < 1 \<or> a = 0 \<or> b = 0"
        using ab False by auto
      then show "dp ! a ! b = dtw_cell seq1 seq2 a b"
        using dtw_invD[OF "1.prems"(1) ab] by blast
    qed
    ultimately show ?thesis by simp
  qed
qed

lemma dtw_cell_boundary:
  "a = 0 \<or> b = 0 \<Longrightarrow> dtw_cell seq1 seq2 a b = (if a = 0 \<and> b = 0 then Fin 0 else PInf)"
  by (cases a; cases b) auto

lemma dtw_init_inv:
  "dtw_inv seq1 seq2 1 1
     ((replicate (length seq1 + 1) (replicate (length seq2 + 1) PInf))
        [0 := (replicate (length seq1 + 1) (replicate (length seq2 + 1) PInf) ! 0)[0 := Fin 0]])"
proof (rule dtw_invI)
  show "dtw_dims seq1 seq2 ((replicate (length seq1 + 1) (replicate (length seq2 + 1) PInf))
        [0 := (replicate (length seq1 + 1) (replicate (length seq2 + 1) PInf) ! 0)[0 := Fin 0]])"
    by (auto simp: dtw_dims_def nth_Cons')
next
  fix a b
  assume ab: "a \<le> length seq1" "b \<le> length seq2"
    and c: "a < 1 \<or> a = 1 \<and> b < 1 \<or> a = 0 \<or> b = 0"
  then have z: "a = 0 \<or> b = 0" by auto
  show "(replicate (length seq1 + 1) (replicate (length seq2 + 1) PInf))
        [0 := (replicate (length seq1 + 1) (replicate (length seq2 + 1) PInf) ! 0)[0 := Fin 0]] ! a ! b
        = dtw_cell seq1 seq2 a b"
    using ab by (auto simp: dtw_cell_boundary[OF z] nth_Cons')
qed

lemma dtw_table_cell:
  assumes "a \<le> length seq1" "b \<le> length seq2"
  shows "dtw_table seq1 seq2 ! a ! b = dtw_cell seq1 seq2 a b"
proof -
  have "dtw_inv seq1 seq2 (Suc (length seq1)) 1 (dtw_table seq1 seq2)"
    unfolding dtw_table_def Let_def
    by (rule dtw_outer_inv[OF dtw_init_inv]) simp
  then show ?thesis using assms by (auto dest: dtw_invD)
qed

lemma dtw_table_dims: "dtw_dims seq1 seq2 (dtw_table seq1 seq2)"
  unfolding dtw_table_def Let_def
  by (rule dtw_inv_dims[OF dtw_outer_inv[OF dtw_init_inv]]) simp

lemma computeDTW_cell:
  "computeDTW seq1 seq2 =
     fsub (Fin 1) (fdiv_count (dtw_cell seq1 seq2 (length seq1) (length seq2)) (length seq1 + length seq2))"
  by (simp add: computeDTW_def Let_def dtw_table_cell)

subsection \<open>Cosine similarity\<close>

lemma cosine_loop_sums:
  "length vec1 = length vec2 \<Longrightarrow> i \<le> length vec1 \<Longrightarrow>
   cosine_loop vec1 vec2 i (dot, norm1, norm2) =
     (dot + dot_product (drop i vec1) (drop i vec2),
      norm1 + (\<Sum>x\<leftarrow>drop i vec1. x * x),
      norm2 + (\<Sum>x\<leftarrow>drop i vec2. x * x))"
proof (induction vec1 vec2 i "(dot, norm1, norm2)" arbitrary: dot norm1 norm2 rule: cosine_loop.induct)
  case (1 vec1 vec2 i dot norm1 norm2)
  show ?case
  proof (cases "i < length vec1")
    case True
    have d1: "drop i vec1 = vec1 ! i # drop (Suc i) vec1"
      using True by (simp add: Cons_nth_drop_Suc)
    have d2: "drop i vec2 = vec2 ! i # drop (Suc i) vec2"
      using True "1.prems" by (simp add: Cons_nth_drop_Suc)
    have "cosine_loop vec1 vec2 i (dot, norm1, norm2) =
          cosine_loop vec1 vec2 (Suc i)
             (dot + vec1 ! i * vec2 ! i, norm1 + vec1 ! i * vec1 ! i, norm2 + vec2 ! i * vec2 ! i)"
      using True by (subst cosine_loop.simps) simp
    also have "\<dots> = (dot + vec1 ! i * vec2 ! i + dot_product (drop (Suc i) vec1) (drop (Suc i) vec2),
      norm1 + vec1 ! i * vec1 ! i + (\<Sum>x\<leftarrow>drop (Suc i) vec1. x * x),
      norm2 + vec2 ! i * vec2 ! i + (\<Sum>x\<leftarrow>drop (Suc i) vec2. x * x))"
      using "1.hyps"[OF True "1.prems"(1)] True by simp
    also have "\<dots> = (dot + dot_product (drop i vec1) (drop i vec2),
      norm1 + (\<Sum>x\<leftarrow>drop i vec1. x * x),
      norm2 + (\<Sum>x\<leftarrow>drop i vec2. x * x))"
      unfolding d1 d2 by (simp add: dot_product_def)
    finally show ?thesis .
  next
    case False
    then show ?thesis using "1.prems" by (subst cosine_loop.simps) (simp add: dot_product_def)
  qed
qed

lemma cosineSimilarity_eq:
  "cosineSimilarity vec1 vec2 =
     (if length vec1 \<noteq> length vec2 then 0
      else if euclidean_norm vec1 * euclidean_norm vec2 = 0 then 0
      else dot_product vec1 vec2 / (euclidean_norm vec1 * euclidean_norm vec2))"
  by (simp add: cosineSimilarity_def cosine_loop_sums euclidean_norm_def Let_def)

lemma sum_sq_nonneg: "0 \<le> (\<Sum>x\<leftarrow>a. x * x :: real)"
  by (induction a) auto

lemma four_mult_le_square_sum:
  fixes a b :: real
  shows "4 * a * b \<le> (a + b)\<^sup>2"
proof -
  have "(a + b)\<^sup>2 - 4 * a * b = (a - b)\<^sup>2"
    by (simp add: power2_eq_square algebra_simps)
  then show ?thesis using zero_le_power2[of "a - b"] by linarith
qed

lemma abs_le_of_square_le:
  fixes u v :: real
  shows "u\<^sup>2 \<le> v\<^sup>2 \<Longrightarrow> 0 \<le> v \<Longrightarrow> u \<le> v"
  by (rule power2_le_imp_le)

lemma cauchy_step:
  fixes d n1 n2 x y :: real
  assumes "d * d \<le> n1 * n2" "0 \<le> n1" "0 \<le> n2"
  shows "(d + x * y) * (d + x * y) \<le> (n1 + x * x) * (n2 + y * y)"
proof -
  let ?A = "n1 * (y * y)" and ?B = "n2 * (x * x)"
  have AB: "0 \<le> ?A" "0 \<le> ?B" using assms by auto
  have "(2 * d * (x * y))\<^sup>2 = 4 * (d * d) * ((x * x) * (y * y))"
    by (simp add: power2_eq_square algebra_simps)
  also have "\<dots> \<le> 4 * (n1 * n2) * ((x * x) * (y * y))"
    using assms(1) by (intro mult_left_mono mult_right_mono) auto
  also have "\<dots> = 4 * ?A * ?B" by (simp add: algebra_simps)
  also have "\<dots> \<le> (?A + ?B)\<^sup>2"
    by (rule four_mult_le_square_sum)
  finally have sq: "(2 * d * (x * y))\<^sup>2 \<le> (?A + ?B)\<^sup>2" .
  have "0 \<le> ?A + ?B" using AB by linarith
  with sq have "2 * d * (x * y) \<le> ?A + ?B"
    by (rule abs_le_of_square_le)
  moreover have "(n1 + x * x) * (n2 + y * y) - (d + x * y) * (d + x * y)
      = (n1 * n2 - d * d) + (?A + ?B - 2 * d * (x * y))"
    by (simp add: algebra_simps)
  ultimately show ?thesis using assms(1) by linarith
qed

lemma cauchy_schwarz_list:
  "length a = length b \<Longrightarrow>
   dot_product a b * dot_product a b \<le> (\<Sum>x\<leftarrow>a. x * x) * (\<Sum>y\<leftarrow>b. y * y)"
proof (induction a b rule: list_induct2)
  case Nil
  then show ?case by (simp add: dot_product_def)
next
  case (Cons x xs y ys)
  have "(dot_product xs ys + x * y) * (dot_product xs ys + x * y)
        \<le> ((\<Sum>x\<leftarrow>xs. x * x) + x * x) * ((\<Sum>y\<leftarrow>ys. y * y) + y * y)"
    by (rule cauchy_step[OF Cons.IH sum_sq_nonneg sum_sq_nonneg])
  then show ?case by (simp add: dot_product_def add.commute)
qed

lemma abs_dot_le_norms:
  assumes "length a = length b"
  shows "\<bar>dot_product a b\<bar> \<le> euclidean_norm a * euclidean_norm b"
proof -
  have "\<bar>dot_product a b\<bar> = sqrt (dot_product a b * dot_product a b)"
    by simp
  also have "\<dots> \<le> sqrt ((\<Sum>x\<leftarrow>a. x * x) * (\<Sum>y\<leftarrow>b. y * y))"
    using cauchy_schwarz_list[OF assms] by (rule real_sqrt_le_mono)
  also have "\<dots> = euclidean_norm a * euclidean_norm b"
    by (simp add: euclidean_norm_def real_sqrt_mult)
  finally show ?thesis .
qed

lemma euclidean_norm_nonneg: "0 \<le> euclidean_norm a"
  by (simp add: euclidean_norm_def sum_sq_nonneg)

lemma cosineSimilarity_bounds: "- 1 \<le> cosineSimilarity a b \<and> cosineSimilarity a b \<le> 1"
proof (cases "length a = length b \<and> euclidean_norm a * euclidean_norm b \<noteq> 0")
  case True
  let ?d = "euclidean_norm a * euclidean_norm b"
  have pos: "0 < ?d"
    using True euclidean_norm_nonneg[of a] euclidean_norm_nonneg[of b]
    by (metis mult_nonneg_nonneg order_less_le)
  have le: "\<bar>dot_product a b\<bar> \<le> ?d"
    using abs_dot_le_norms[of a b] True by simp
  have "dot_product a b / ?d \<le> 1" "- 1 \<le> dot_product a b / ?d"
    using le pos by (simp_all add: divide_le_eq le_divide_eq)
  moreover have "cosineSimilarity a b = dot_product a b / ?d"
    using True by (simp add: cosineSimilarity_eq)
  ultimately show ?thesis by simp
next
  case False
  then show ?thesis by (auto simp: cosineSimilarity_eq)
qed

lemma cosineSimilarity_commute: "cosineSimilarity a b = cosineSimilarity b a"
proof -
  have "dot_product a b = dot_product b a" if "length a = length b"
    using that by (induction a b rule: list_induct2) (auto simp: dot_product_def mult.commute)
  then show ?thesis by (simp add: cosineSimilarity_eq mult.commute)
qed

lemma dot_product_self: "dot_product a a = (\<Sum>x\<leftarrow>a. x * x)"
  by (induction a) (auto simp: dot_product_def)


subsection \<open>Properties of the cost matrix\<close>

lemma min3_cost: "is_cost a \<Longrightarrow> is_cost b \<Longrightarrow> is_cost c \<Longrightarrow> is_cost (min3 a b c)"
  by (simp add: min3_def Let_def)

lemma fadd_cost: "0 \<le> c \<Longrightarrow> is_cost x \<Longrightarrow> is_cost (fadd (Fin c) x)"
  by (cases x) auto

lemma dtw_cell_cost: "is_cost (dtw_cell seq1 seq2 i j)"
proof (induction seq1 seq2 i j rule: dtw_cell.induct)
  case (4 seq1 seq2 i j)
  have "0 \<le> 1 - cosineSimilarity (seq1 ! i) (seq2 ! j)"
    using cosineSimilarity_bounds[of "seq1 ! i" "seq2 ! j"] by simp
  then show ?case using 4 by (simp add: fadd_cost min3_cost)
qed simp_all

lemma min3_least:
  assumes "is_cost a" "is_cost b" "is_cost c"
  shows "min3 a b c \<in> {a, b, c} \<and> fle (min3 a b c) a \<and> fle (min3 a b c) b \<and> fle (min3 a b c) c"
  using assms by (cases a; cases b; cases c) (auto simp: min3_def Let_def)

lemma min3_swap: "is_cost a \<Longrightarrow> is_cost b \<Longrightarrow> min3 a b c = min3 b a c"
  by (cases a; cases b; cases c) (auto simp: min3_def Let_def)


lemma dtw_cell_commute: "dtw_cell seq1 seq2 i j = dtw_cell seq2 seq1 j i"
proof (induction seq1 seq2 i j rule: dtw_cell.induct)
  case (4 seq1 seq2 i j)
  have "min3 (dtw_cell seq1 seq2 i (Suc j)) (dtw_cell seq1 seq2 (Suc i) j) (dtw_cell seq1 seq2 i j)
      = min3 (dtw_cell seq1 seq2 (Suc i) j) (dtw_cell seq1 seq2 i (Suc j)) (dtw_cell seq1 seq2 i j)"
    by (rule min3_swap) (rule dtw_cell_cost)+
  then show ?case using 4 by (simp add: cosineSimilarity_commute[of "seq1 ! i"])
qed simp_all

lemma computeDTW_commute: "computeDTW seq1 seq2 = computeDTW seq2 seq1"
  by (simp add: computeDTW_cell dtw_cell_commute[of seq1 seq2] add.commute)

lemma min3_fin:
  "is_cost a \<Longrightarrow> is_cost b \<Longrightarrow> is_cost c \<Longrightarrow> is_fin a \<or> is_fin b \<or> is_fin c \<Longrightarrow> is_fin (min3 a b c)"
  by (cases a; cases b; cases c) (auto simp: min3_def Let_def)

lemma fadd_fin: "is_fin x \<Longrightarrow> is_fin (fadd (Fin c) x)"
  by (cases x) auto

lemma dtw_cell_fin: "0 < i \<Longrightarrow> 0 < j \<Longrightarrow> is_fin (dtw_cell seq1 seq2 i j)"
proof (induction seq1 seq2 i j rule: dtw_cell.induct)
  case (4 seq1 seq2 i j)
  have "is_fin (dtw_cell seq1 seq2 i (Suc j)) \<or> is_fin (dtw_cell seq1 seq2 (Suc i) j)
      \<or> is_fin (dtw_cell seq1 seq2 i j)"
  proof (cases "i = 0")
    case True
    show ?thesis
    proof (cases "j = 0")
      case True
      with \<open>i = 0\<close> show ?thesis by simp
    next
      case False
      then show ?thesis using "4.IH"(2) by simp
    qed
  next
    case False
    then show ?thesis using "4.IH"(1) by simp
  qed
  then show ?case by (simp add: fadd_fin min3_fin dtw_cell_cost)
qed simp_all

lemma dtw_cell_last_fin:
  assumes "seq1 \<noteq> []" "seq2 \<noteq> []"
  obtains r where "dtw_cell seq1 seq2 (length seq1) (length seq2) = Fin r" "0 \<le> r"
proof -
  have "is_fin (dtw_cell seq1 seq2 (length seq1) (length seq2))"
    using assms by (intro dtw_cell_fin) auto
  moreover have "is_cost (dtw_cell seq1 seq2 (length seq1) (length seq2))"
    by (rule dtw_cell_cost)
  ultimately show ?thesis using that
    by (cases "dtw_cell seq1 seq2 (length seq1) (length seq2)") auto
qed

lemma computeDTW_fin:
  assumes "seq1 \<noteq> []" "seq2 \<noteq> []"
  obtains r where "dtw_cell seq1 seq2 (length seq1) (length seq2) = Fin r" "0 \<le> r"
    "computeDTW seq1 seq2 = Fin (1 - r / real (length seq1 + length seq2))"
proof -
  obtain r where r: "dtw_cell seq1 seq2 (length seq1) (length seq2) = Fin r" "0 \<le> r"
    using dtw_cell_last_fin[OF assms] by blast
  have "computeDTW seq1 seq2 = Fin (1 - r / real (length seq1 + length seq2))"
    using assms by (simp add: computeDTW_cell r fsub_def)
  with r that show ?thesis by blast
qed



lemma computeDTW_zero_vec: "computeDTW [[0]] [[0]] = Fin (1 / 2)"
  by (simp add: computeDTW_cell cosineSimilarity_eq euclidean_norm_def min3_def fsub_def)

lemma computeDTW_below_zero: "computeDTW [[1], [1]] [[- 1]] = Fin (- (1 / 3))"
  by (simp add: computeDTW_cell cosineSimilarity_eq euclidean_norm_def dot_product_def min3_def fsub_def
     numeral_2_eq_2)

lemma computeDTW_empty_left: "seq2 \<noteq> [] \<Longrightarrow> computeDTW [] seq2 = NInf"
  by (cases seq2) (simp_all add: computeDTW_cell fsub_def)

lemma computeDTW_empty_right: "seq1 \<noteq> [] \<Longrightarrow> computeDTW seq1 [] = NInf"
  by (cases seq1) (simp_all add: computeDTW_cell fsub_def)

lemma computeDTW_empty_both: "computeDTW [] [] = NaN"
  by (simp add: computeDTW_cell fsub_def)

section \<open>Verification of the sequence aligner in float arithmetic\<close>

subsection \<open>The cost matrix of the specification\<close>

text \<open>
  The cost matrix of the specification in the arithmetic of the program: \<open>dp[0][0] = 0\<close>,
  every other cell of row 0 and column 0 is \<open>+infinity\<close>, and
  \<open>dp[i][j] = (1 - cosineSimilarity(seq1[i-1], seq2[j-1])) + min(dp[i-1][j], dp[i][j-1], dp[i-1][j-1])\<close>
  with the subtraction and the addition rounded.
\<close>

definition step_cost :: "(real \<Rightarrow> fval) \<Rightarrow> fval list \<Rightarrow> fval list \<Rightarrow> fval" where
  "step_cost rnd a b = fround rnd (fsub (Fin 1) (cosineSimilarity_fl rnd a b))"

fun dtw_cell_fl :: "(real \<Rightarrow> fval) \<Rightarrow> fval list list \<Rightarrow> fval list list \<Rightarrow> nat \<Rightarrow> nat \<Rightarrow> fval" where
  "dtw_cell_fl rnd seq1 seq2 0 0 = Fin 0"
| "dtw_cell_fl rnd seq1 seq2 0 (Suc j) = PInf"
| "dtw_cell_fl rnd seq1 seq2 (Suc i) 0 = PInf"
| "dtw_cell_fl rnd seq1 seq2 (Suc i) (Suc j) =
     fround rnd (fadd (step_cost rnd (seq1 ! i) (seq2 ! j))
       (min3 (dtw_cell_fl rnd seq1 seq2 i (Suc j)) (dtw_cell_fl rnd seq1 seq2 (Suc i) j)
          (dtw_cell_fl rnd seq1 seq2 i j)))"

text \<open>
  The loop invariant of the table: it has \<open>len1 + 1\<close> rows of \<open>len2 + 1\<close> cells, and
  every boundary cell and every cell the loops have passed holds the value of the
  recurrence.
\<close>

definition dtw_dims_fl :: "nat \<Rightarrow> nat \<Rightarrow> fval list list \<Rightarrow> bool" where
  "dtw_dims_fl len1 len2 dp \<longleftrightarrow>
     length dp = len1 + 1 \<and> (\<forall>a \<le> len1. length (dp ! a) = len2 + 1)"

definition dtw_inv_fl :: "(real \<Rightarrow> fval) \<Rightarrow> fval list list \<Rightarrow> fval list list \<Rightarrow> nat \<Rightarrow> nat \<Rightarrow> fval list list \<Rightarrow> bool" where
  "dtw_inv_fl rnd seq1 seq2 i j dp \<longleftrightarrow>
     dtw_dims_fl (length seq1) (length seq2) dp \<and>
     (\<forall>a \<le> length seq1. \<forall>b \<le> length seq2.
        (a < i \<or> (a = i \<and> b < j) \<or> a = 0 \<or> b = 0) \<longrightarrow> dp ! a ! b = dtw_cell_fl rnd seq1 seq2 a b)"

subsection \<open>The loops compute the recurrence\<close>

lemma dtw_inv_flI:
  "dtw_dims_fl (length seq1) (length seq2) dp \<Longrightarrow>
   (\<And>a b. a \<le> length seq1 \<Longrightarrow> b \<le> length seq2 \<Longrightarrow>
      a < i \<or> a = i \<and> b < j \<or> a = 0 \<or> b = 0 \<Longrightarrow> dp ! a ! b = dtw_cell_fl rnd seq1 seq2 a b) \<Longrightarrow>
   dtw_inv_fl rnd seq1 seq2 i j dp"
  unfolding dtw_inv_fl_def by blast

lemma dtw_inv_flD:
  "dtw_inv_fl rnd seq1 seq2 i j dp \<Longrightarrow> a \<le> length seq1 \<Longrightarrow> b \<le> length seq2 \<Longrightarrow>
   a < i \<or> a = i \<and> b < j \<or> a = 0 \<or> b = 0 \<Longrightarrow> dp ! a ! b = dtw_cell_fl rnd seq1 seq2 a b"
  unfolding dtw_inv_fl_def by blast

lemma dtw_inv_fl_dims: "dtw_inv_fl rnd seq1 seq2 i j dp \<Longrightarrow> dtw_dims_fl (length seq1) (length seq2) dp"
  unfolding dtw_inv_fl_def by blast

lemma dtw_inv_fl_step:
  assumes inv: "dtw_inv_fl rnd seq1 seq2 i j dp" and i: "1 \<le> i" "i \<le> length seq1"
    and j: "1 \<le> j" "j \<le> length seq2"
  shows "dtw_inv_fl rnd seq1 seq2 i (Suc j)
           (dp[i := (dp ! i)[j := fround rnd (fadd
              (fround rnd (fsub (Fin 1) (cosineSimilarity_fl rnd (seq1 ! (i - 1)) (seq2 ! (j - 1)))))
              (min3 (dp ! (i - 1) ! j) (dp ! i ! (j - 1)) (dp ! (i - 1) ! (j - 1))))]])"
proof -
  obtain i' j' where ij: "i = Suc i'" "j = Suc j'"
    using i j by (cases i; cases j) auto
  have dims: "length dp = length seq1 + 1" "\<And>a. a \<le> length seq1 \<Longrightarrow> length (dp ! a) = length seq2 + 1"
    using inv by (auto simp: dtw_inv_fl_def dtw_dims_fl_def)
  have cells: "\<And>a b. a \<le> length seq1 \<Longrightarrow> b \<le> length seq2 \<Longrightarrow>
      (a < i \<or> (a = i \<and> b < j) \<or> a = 0 \<or> b = 0) \<Longrightarrow> dp ! a ! b = dtw_cell_fl rnd seq1 seq2 a b"
    using inv by (auto simp: dtw_inv_fl_def)
  have c1: "dp ! (i - 1) ! j = dtw_cell_fl rnd seq1 seq2 i' (Suc j')"
    using cells[of i' j] i j ij by simp
  have c2: "dp ! i ! (j - 1) = dtw_cell_fl rnd seq1 seq2 (Suc i') j'"
    using cells[of i j'] i j ij by simp
  have c3: "dp ! (i - 1) ! (j - 1) = dtw_cell_fl rnd seq1 seq2 i' j'"
    using cells[of i' j'] i j ij by simp
  let ?c = "fround rnd (fadd
              (fround rnd (fsub (Fin 1) (cosineSimilarity_fl rnd (seq1 ! (i - 1)) (seq2 ! (j - 1)))))
              (min3 (dp ! (i - 1) ! j) (dp ! i ! (j - 1)) (dp ! (i - 1) ! (j - 1))))"
  have cv: "?c = dtw_cell_fl rnd seq1 seq2 i j"
    unfolding c1 c2 c3 by (simp add: ij step_cost_def)
  let ?dp = "dp[i := (dp ! i)[j := ?c]]"
  have d': "dtw_dims_fl (length seq1) (length seq2) ?dp"
    using dims i by (auto simp: dtw_dims_fl_def nth_list_update)
  have "?dp ! a ! b = dtw_cell_fl rnd seq1 seq2 a b"
    if "a \<le> length seq1" "b \<le> length seq2" "a < i \<or> (a = i \<and> b < Suc j) \<or> a = 0 \<or> b = 0" for a b
  proof (cases "a = i \<and> b = j")
    case True
    then show ?thesis using dims i j cv by (simp add: nth_nth_update)
  next
    case False
    then have "?dp ! a ! b = dp ! a ! b"
      using dims i by (auto simp: nth_nth_update)
    moreover have "a < i \<or> (a = i \<and> b < j) \<or> a = 0 \<or> b = 0"
      using that False by auto
    ultimately show ?thesis using cells that by simp
  qed
  with d' show ?thesis by (simp add: dtw_inv_fl_def)
qed

lemma dtw_inner_fl_inv:
  "dtw_inv_fl rnd seq1 seq2 i j dp \<Longrightarrow> 1 \<le> i \<Longrightarrow> i \<le> length seq1 \<Longrightarrow> 1 \<le> j \<Longrightarrow>
   dtw_inv_fl rnd seq1 seq2 (Suc i) 1 (dtw_inner_fl rnd seq1 seq2 i j dp)"
proof (induction rnd seq1 seq2 i j dp rule: dtw_inner_fl.induct)
  case (1 rnd seq1 seq2 i j dp)
  show ?case
  proof (cases "j \<le> length seq2")
    case True
    have "dtw_inv_fl rnd seq1 seq2 i (Suc j)
           (dp[i := (dp ! i)[j := fround rnd (fadd
              (fround rnd (fsub (Fin 1) (cosineSimilarity_fl rnd (seq1 ! (i - 1)) (seq2 ! (j - 1)))))
              (min3 (dp ! (i - 1) ! j) (dp ! i ! (j - 1)) (dp ! (i - 1) ! (j - 1))))]])"
      using dtw_inv_fl_step[OF "1.prems"(1) "1.prems"(2) "1.prems"(3) "1.prems"(4) True] .
    from "1.IH"[OF True refl refl this "1.prems"(2) "1.prems"(3)]
    show ?thesis using True by (subst dtw_inner_fl.simps) (simp add: Let_def)
  next
    case False
    then have "dtw_inner_fl rnd seq1 seq2 i j dp = dp" by (subst dtw_inner_fl.simps) simp
    moreover have "dtw_inv_fl rnd seq1 seq2 (Suc i) 1 dp"
    proof (rule dtw_inv_flI)
      show "dtw_dims_fl (length seq1) (length seq2) dp" using "1.prems"(1) by (rule dtw_inv_fl_dims)
    next
      fix a b
      assume ab: "a \<le> length seq1" "b \<le> length seq2"
        and c: "a < Suc i \<or> a = Suc i \<and> b < 1 \<or> a = 0 \<or> b = 0"
      have "a < i \<or> a = i \<and> b < j \<or> a = 0 \<or> b = 0"
        using c ab False by auto
      then show "dp ! a ! b = dtw_cell_fl rnd seq1 seq2 a b"
        using dtw_inv_flD[OF "1.prems"(1) ab] by blast
    qed
    ultimately show ?thesis by simp
  qed
qed

lemma dtw_outer_fl_inv:
  "dtw_inv_fl rnd seq1 seq2 i 1 dp \<Longrightarrow> 1 \<le> i \<Longrightarrow>
   dtw_inv_fl rnd seq1 seq2 (Suc (length seq1)) 1 (dtw_outer_fl rnd seq1 seq2 i dp)"
proof (induction rnd seq1 seq2 i dp rule: dtw_outer_fl.induct)
  case (1 rnd seq1 seq2 i dp)
  show ?case
  proof (cases "i \<le> length seq1")
    case True
    have "dtw_inv_fl rnd seq1 seq2 (Suc i) 1 (dtw_inner_fl rnd seq1 seq2 i 1 dp)"
      using dtw_inner_fl_inv[OF "1.prems"(1) "1.prems"(2) True] by simp
    from "1.IH"[OF True this] show ?thesis using True by (subst dtw_outer_fl.simps) simp
  next
    case False
    then have "dtw_outer_fl rnd seq1 seq2 i dp = dp" by (subst dtw_outer_fl.simps) simp
    moreover have "dtw_inv_fl rnd seq1 seq2 (Suc (length seq1)) 1 dp"
    proof (rule dtw_inv_flI)
      show "dtw_dims_fl (length seq1) (length seq2) dp" using "1.prems"(1) by (rule dtw_inv_fl_dims)
    next
      fix a b
      assume ab: "a \<le> length seq1" "b \<le> length seq2"
      have "a < i \<or> a = i \<and> b < 1 \<or> a = 0 \<or> b = 0"
        using ab False by auto
      then show "dp ! a ! b = dtw_cell_fl rnd seq1 seq2 a b"
        using dtw_inv_flD[OF "1.prems"(1) ab] by blast
    qed
    ultimately show ?thesis by simp
  qed
qed

lemma dtw_cell_fl_boundary:
  "a = 0 \<or> b = 0 \<Longrightarrow> dtw_cell_fl rnd seq1 seq2 a b = (if a = 0 \<and> b = 0 then Fin 0 else PInf)"
  by (cases a; cases b) auto

lemma dtw_init_inv_fl:
  "dtw_inv_fl rnd seq1 seq2 1 1
     ((replicate (length seq1 + 1) (replicate (length seq2 + 1) PInf))
        [0 := (replicate (length seq1 + 1) (replicate (length seq2 + 1) PInf) ! 0)[0 := Fin 0]])"
proof (rule dtw_inv_flI)
  show "dtw_dims_fl (length seq1) (length seq2) ((replicate (length seq1 + 1) (replicate (length seq2 + 1) PInf))
        [0 := (replicate (length seq1 + 1) (replicate (length seq2 + 1) PInf) ! 0)[0 := Fin 0]])"
    by (auto simp: dtw_dims_fl_def nth_Cons')
next
  fix a b
  assume ab: "a \<le> length seq1" "b \<le> length seq2"
    and c: "a < 1 \<or> a = 1 \<and> b < 1 \<or> a = 0 \<or> b = 0"
  then have z: "a = 0 \<or> b = 0" by auto
  show "(replicate (length seq1 + 1) (replicate (length seq2 + 1) PInf))
        [0 := (replicate (length seq1 + 1) (replicate (length seq2 + 1) PInf) ! 0)[0 := Fin 0]] ! a ! b
        = dtw_cell_fl rnd seq1 seq2 a b"
    using ab by (auto simp: dtw_cell_fl_boundary[OF z] nth_Cons')
qed

lemma dtw_table_fl_cell:
  assumes "a \<le> length seq1" "b \<le> length seq2"
  shows "dtw_table_fl rnd seq1 seq2 ! a ! b = dtw_cell_fl rnd seq1 seq2 a b"
proof -
  have "dtw_inv_fl rnd seq1 seq2 (Suc (length seq1)) 1 (dtw_table_fl rnd seq1 seq2)"
    unfolding dtw_table_fl_def Let_def
    by (rule dtw_outer_fl_inv[OF dtw_init_inv_fl]) simp
  then show ?thesis using assms by (auto dest: dtw_inv_flD)
qed

lemma dtw_table_fl_dims: "dtw_dims_fl (length seq1) (length seq2) (dtw_table_fl rnd seq1 seq2)"
  unfolding dtw_table_fl_def Let_def
  by (rule dtw_inv_fl_dims[OF dtw_outer_fl_inv[OF dtw_init_inv_fl]]) simp

lemma computeDTW_fl_cell:
  "computeDTW_fl rnd seq1 seq2 =
     fround rnd (fsub (Fin 1) (fround rnd
       (fdiv (dtw_cell_fl rnd seq1 seq2 (length seq1) (length seq2)) (rnd (real (length seq1 + length seq2))))))"
  by (simp add: computeDTW_fl_def Let_def dtw_table_fl_cell)

subsection \<open>The three-way minimum\<close>

text \<open>
  \<^verbatim>\<open>std::min\<close> returns one of its arguments, and none of the arguments compares less than
  the one returned.  When no argument is not-a-number the result is below all three, and it
  does not depend on the order of the first two.
\<close>

lemma min3_mem: "min3 a b c = a \<or> min3 a b c = b \<or> min3 a b c = c"
  by (simp add: min3_def Let_def)

lemma min3_not_less:
  "\<not> fless a (min3 a b c) \<and> \<not> fless b (min3 a b c) \<and> \<not> fless c (min3 a b c)"
  by (cases a; cases b; cases c) (auto simp: min3_def Let_def)

lemma min3_lower:
  "a \<noteq> NaN \<Longrightarrow> b \<noteq> NaN \<Longrightarrow> c \<noteq> NaN \<Longrightarrow>
   fle (min3 a b c) a \<and> fle (min3 a b c) b \<and> fle (min3 a b c) c"
  by (cases a; cases b; cases c) (auto simp: min3_def Let_def)

lemma min3_swap_num: "a \<noteq> NaN \<Longrightarrow> b \<noteq> NaN \<Longrightarrow> min3 a b c = min3 b a c"
  by (cases a; cases b; cases c) (auto simp: min3_def Let_def)

lemma min3_num: "a \<noteq> NaN \<Longrightarrow> b \<noteq> NaN \<Longrightarrow> c \<noteq> NaN \<Longrightarrow> min3 a b c \<noteq> NaN"
  by (simp add: min3_def Let_def)

subsection \<open>Cosine similarity is symmetric\<close>

lemma fmul_commute: "fmul x y = fmul y x"
  by (cases x; cases y) (simp_all add: mult.commute)

lemma cosine_loop_fl_swap:
  "cosine_loop_fl rnd vec1 vec2 i (dot, norm1, norm2) = (d, n1, n2) \<Longrightarrow> length vec1 = length vec2 \<Longrightarrow>
   cosine_loop_fl rnd vec2 vec1 i (dot, norm2, norm1) = (d, n2, n1)"
proof (induction rnd vec1 vec2 i "(dot, norm1, norm2)" arbitrary: dot norm1 norm2
    rule: cosine_loop_fl.induct)
  case (1 rnd vec1 vec2 i dot norm1 norm2)
  show ?case
  proof (cases "i < length vec1")
    case True
    have run: "cosine_loop_fl rnd vec1 vec2 (Suc i)
             (fround rnd (fadd dot (fround rnd (fmul (vec1 ! i) (vec2 ! i)))),
              fround rnd (fadd norm1 (fround rnd (fmul (vec1 ! i) (vec1 ! i)))),
              fround rnd (fadd norm2 (fround rnd (fmul (vec2 ! i) (vec2 ! i))))) = (d, n1, n2)"
      using "1.prems"(1) True by (subst (asm) cosine_loop_fl.simps) simp
    have "cosine_loop_fl rnd vec2 vec1 (Suc i)
             (fround rnd (fadd dot (fround rnd (fmul (vec1 ! i) (vec2 ! i)))),
              fround rnd (fadd norm2 (fround rnd (fmul (vec2 ! i) (vec2 ! i)))),
              fround rnd (fadd norm1 (fround rnd (fmul (vec1 ! i) (vec1 ! i))))) = (d, n2, n1)"
      by (rule "1.hyps"[OF True run "1.prems"(2)])
    then show ?thesis using True "1.prems"(2)
      by (subst cosine_loop_fl.simps) (simp add: fmul_commute[of "vec2 ! i" "vec1 ! i"])
  next
    case False
    then have "(dot, norm1, norm2) = (d, n1, n2)"
      using "1.prems"(1) by (subst (asm) cosine_loop_fl.simps) simp
    then show ?thesis using False "1.prems"(2) by (subst cosine_loop_fl.simps) simp
  qed
qed

lemma cosineSimilarity_fl_commute: "cosineSimilarity_fl rnd a b = cosineSimilarity_fl rnd b a"
proof (cases "length a = length b")
  case True
  obtain d n1 n2 where r: "cosine_loop_fl rnd a b 0 (Fin 0, Fin 0, Fin 0) = (d, n1, n2)"
    by (cases "cosine_loop_fl rnd a b 0 (Fin 0, Fin 0, Fin 0)") auto
  have r': "cosine_loop_fl rnd b a 0 (Fin 0, Fin 0, Fin 0) = (d, n2, n1)"
    by (rule cosine_loop_fl_swap[OF r True])
  show ?thesis using True
    by (simp add: cosineSimilarity_fl_def r r' fmul_commute[of "fround rnd (fsqrt n2)"])
next
  case False
  then show ?thesis by (auto simp: cosineSimilarity_fl_def)
qed

lemma step_cost_commute: "step_cost rnd a b = step_cost rnd b a"
  by (simp add: step_cost_def cosineSimilarity_fl_commute[of rnd a b])

subsection \<open>Properties of the rounding\<close>

lemma round_even_near:
  assumes "\<bar>y - of_int n\<bar> < 1 / 2"
  shows "round_even y = n"
proof -
  have "\<lfloor>y\<rfloor> = n \<or> \<lfloor>y\<rfloor> = n - 1" using assms by linarith
  then show ?thesis
  proof
    assume f: "\<lfloor>y\<rfloor> = n"
    then have "y - of_int n < 1 / 2" using assms by linarith
    then show ?thesis using f by (simp add: round_even_def Let_def)
  next
    assume f: "\<lfloor>y\<rfloor> = n - 1"
    have "of_int n - 1 / 2 < y" using assms by linarith
    then have "1 / 2 < y - of_int (n - 1)" by simp
    then show ?thesis using f by (simp add: round_even_def Let_def)
  qed
qed

lemma round_even_bounds: "\<lfloor>y\<rfloor> \<le> round_even y \<and> round_even y \<le> \<lfloor>y\<rfloor> + 1"
  by (simp add: round_even_def Let_def)

lemma round_even_ge: "of_int n \<le> y \<Longrightarrow> n \<le> round_even y"
proof -
  assume "of_int n \<le> y"
  then have "n \<le> \<lfloor>y\<rfloor>" by (simp add: le_floor_iff)
  then show ?thesis using round_even_bounds[of y] by linarith
qed

lemma round_even_le: "y \<le> of_int n \<Longrightarrow> round_even y \<le> n"
proof (cases "y = of_int n")
  case True
  then show ?thesis using round_even_near[of y n] by simp
next
  case False
  assume "y \<le> of_int n"
  with False have "y < of_int n" by simp
  then have "\<lfloor>y\<rfloor> < n" by (simp add: floor_less_iff)
  then show ?thesis using round_even_bounds[of y] by linarith
qed

text \<open>The value \<open>rnd32\<close> computes for a number that is not zero.\<close>

lemma rnd32_unfold:
  assumes "x \<noteq> 0" and "e = max \<lfloor>log 2 \<bar>x\<bar>\<rfloor> (- 126)" and "u = 2 powr (of_int e - 23)"
    and "r = of_int (round_even (x / u)) * u"
  shows "rnd32 x = (if 2 ^ 128 \<le> \<bar>r\<bar> then (if 0 < x then PInf else NInf) else Fin r)"
  using assms by (simp add: rnd32_def Let_def)

lemma rnd32_0: "rnd32 0 = Fin 0"
  by (simp add: rnd32_def)

lemma rnd32_not_NaN: "rnd32 x \<noteq> NaN"
  by (simp add: rnd32_def Let_def)

lemma fround_rnd32_num: "v \<noteq> NaN \<Longrightarrow> fround rnd32 v \<noteq> NaN"
  by (cases v) (simp_all add: rnd32_not_NaN)

text \<open>The rounding keeps the sign: a number that is not negative is rounded to a cost.\<close>

lemma rnd32_nonneg:
  assumes "0 \<le> x"
  shows "is_cost (rnd32 x)"
proof (cases "x = 0")
  case True
  then show ?thesis by (simp add: rnd32_0)
next
  case False
  define e where "e = max \<lfloor>log 2 \<bar>x\<bar>\<rfloor> (- 126)"
  define u :: real where "u = 2 powr (of_int e - 23)"
  define r where "r = of_int (round_even (x / u)) * u"
  have up: "0 < u" by (simp add: u_def)
  have "0 \<le> x / u" using assms up by simp
  then have "0 \<le> round_even (x / u)" using round_even_ge[of 0 "x / u"] by simp
  then have "0 \<le> r" using up by (simp add: r_def)
  moreover have "0 < x" using assms False by simp
  ultimately show ?thesis
    using rnd32_unfold[OF False e_def u_def r_def] by simp
qed

lemma rnd32_nonpos:
  assumes "x \<le> 0"
  shows "fle (rnd32 x) (Fin 0)"
proof (cases "x = 0")
  case True
  then show ?thesis by (simp add: rnd32_0)
next
  case False
  define e where "e = max \<lfloor>log 2 \<bar>x\<bar>\<rfloor> (- 126)"
  define u :: real where "u = 2 powr (of_int e - 23)"
  define r where "r = of_int (round_even (x / u)) * u"
  have up: "0 < u" by (simp add: u_def)
  have "x / u \<le> 0" using assms up by (simp add: divide_nonpos_pos)
  then have "round_even (x / u) \<le> 0" using round_even_le[of "x / u" 0] by simp
  then have "r \<le> 0" using up by (simp add: r_def mult_nonpos_nonneg)
  moreover have "\<not> 0 < x" using assms by simp
  ultimately show ?thesis
    using rnd32_unfold[OF False e_def u_def r_def] by simp
qed

text \<open>A number that is at most 1 is rounded to at most 1, and one that is at least 1 to at least 1.\<close>

lemma rnd32_le_one:
  assumes "x \<le> 1"
  shows "fle (rnd32 x) (Fin 1)"
proof (cases "0 < x")
  case False
  then have "fle (rnd32 x) (Fin 0)" by (intro rnd32_nonpos) simp
  then show ?thesis by (cases "rnd32 x") auto
next
  case True
  then have nz: "x \<noteq> 0" by simp
  define e where "e = max \<lfloor>log 2 \<bar>x\<bar>\<rfloor> (- 126)"
  define u :: real where "u = 2 powr (of_int e - 23)"
  define r where "r = of_int (round_even (x / u)) * u"
  have up: "0 < u" by (simp add: u_def)
  have "log 2 \<bar>x\<bar> \<le> 0" using True assms by simp
  then have "\<lfloor>log 2 \<bar>x\<bar>\<rfloor> \<le> 0" by (simp add: floor_le_iff)
  then have e0: "e \<le> 0" by (simp add: e_def)
  define N :: int where "N = 2 ^ nat (23 - e)"
  have "real_of_int N = 2 powr (real (nat (23 - e)))" by (simp add: N_def powr_realpow)
  also have "real (nat (23 - e)) = 23 - of_int e" using e0 by simp
  finally have N: "real_of_int N = 2 powr (23 - of_int e)" .
  have Nu: "of_int N * u = 1"
    unfolding N u_def by (simp flip: powr_add)
  have "x / u \<le> 1 / u" using assms up by (simp add: divide_right_mono)
  also have "1 / u = of_int N" using Nu up by (simp add: field_simps)
  finally have "round_even (x / u) \<le> N" by (rule round_even_le)
  then have "r \<le> of_int N * u" unfolding r_def using up by (simp add: mult_right_mono)
  then have r1: "r \<le> 1" using Nu by simp
  have "0 \<le> x / u" using True up by simp
  then have "0 \<le> round_even (x / u)" using round_even_ge[of 0 "x / u"] by simp
  then have r0: "0 \<le> r" using up by (simp add: r_def)
  have "\<bar>r\<bar> < 2 ^ 128" using r0 r1 by simp
  then show ?thesis using rnd32_unfold[OF nz e_def u_def r_def] r1 by simp
qed

lemma rnd32_ge_one:
  assumes "1 \<le> x"
  shows "rnd32 x = PInf \<or> (\<exists>r. rnd32 x = Fin r \<and> 1 \<le> r)"
proof -
  have nz: "x \<noteq> 0" using assms by simp
  define e where "e = max \<lfloor>log 2 \<bar>x\<bar>\<rfloor> (- 126)"
  define u :: real where "u = 2 powr (of_int e - 23)"
  define r where "r = of_int (round_even (x / u)) * u"
  have up: "0 < u" by (simp add: u_def)
  have "0 \<le> log 2 \<bar>x\<bar>" using assms by simp
  then have f0: "0 \<le> \<lfloor>log 2 \<bar>x\<bar>\<rfloor>" by simp
  then have e: "e = \<lfloor>log 2 \<bar>x\<bar>\<rfloor>" and e0: "0 \<le> e" by (simp_all add: e_def)
  have "of_int e \<le> log 2 \<bar>x\<bar>" unfolding e by simp
  then have lo: "2 powr of_int e \<le> x" using assms by (simp add: le_log_iff)
  have "2 powr of_int e = 8388608 * u" by (simp add: u_def powr_diff)
  then have "of_int 8388608 \<le> x / u" using lo up by (simp add: field_simps)
  then have "8388608 \<le> round_even (x / u)" by (rule round_even_ge)
  then have "8388608 * u \<le> r" unfolding r_def using up by (simp add: mult_right_mono)
  moreover have "1 \<le> (2::real) powr of_int e" using e0 by (simp add: ge_one_powr_ge_zero)
  ultimately have "1 \<le> r" using \<open>2 powr of_int e = 8388608 * u\<close> by simp
  then show ?thesis using rnd32_unfold[OF nz e_def u_def r_def] assms by simp
qed

lemma rnd32_count: "1 \<le> n \<Longrightarrow> rnd32 (real n) = PInf \<or> (\<exists>r. rnd32 (real n) = Fin r \<and> 1 \<le> r)"
  by (rule rnd32_ge_one) simp

subsection \<open>Computing a rounded value\<close>

text \<open>
  With the unit \<open>u = 2\<^sup>k\<^sup>-\<^sup>2\<^sup>3\<close> of the binade given as a number: \<open>x\<close> with
  \<open>2\<^sup>2\<^sup>3 u \<le> |x| < 2\<^sup>2\<^sup>4 u\<close> that is closer than \<open>u / 2\<close> to the multiple \<open>n u\<close> is rounded to
  \<open>n u\<close>.
\<close>

lemma rnd32_eval:
  assumes u: "u = 2 powr (of_int k - 23)" and k: "- 126 \<le> k" "k \<le> 126"
    and lo: "8388608 * u \<le> \<bar>x\<bar>" and hi: "\<bar>x\<bar> < 16777216 * u"
    and n: "\<bar>x - of_int n * u\<bar> < u / 2"
  shows "rnd32 x = Fin (of_int n * u)"
proof -
  have up: "0 < u" by (simp add: u)
  have p: "2 powr of_int k = 8388608 * u" by (simp add: u powr_diff)
  have q: "2 powr (of_int k + 1) = 16777216 * u" by (simp add: u powr_diff powr_add)
  have pos: "0 < \<bar>x\<bar>" using lo up by linarith
  then have nz: "x \<noteq> 0" by simp
  have "of_int k \<le> log 2 \<bar>x\<bar>" using lo pos by (simp add: le_log_iff p)
  moreover have "log 2 \<bar>x\<bar> < of_int k + 1" using hi pos by (simp add: log_less_iff q)
  ultimately have fl: "\<lfloor>log 2 \<bar>x\<bar>\<rfloor> = k" by linarith
  have e: "k = max \<lfloor>log 2 \<bar>x\<bar>\<rfloor> (- 126)" using fl k by simp
  have "x / u - of_int n = (x - of_int n * u) / u" using up by (simp add: diff_divide_distrib)
  then have "\<bar>x / u - of_int n\<bar> = \<bar>x - of_int n * u\<bar> / u" using up by simp
  also have "\<dots> < 1 / 2" using n up by (simp add: field_simps)
  finally have re: "round_even (x / u) = n" by (rule round_even_near)
  have "\<bar>of_int n * u\<bar> \<le> \<bar>x\<bar> + u / 2" using n by linarith
  also have "\<dots> < 16777216 * u + u" using hi up by linarith
  also have "\<dots> = 16777217 * u" by simp
  also have "\<dots> \<le> 16777217 * 2 powr 103"
  proof -
    have "u \<le> 2 powr 103" unfolding u using k by (intro powr_mono) simp_all
    then show ?thesis by simp
  qed
  also have "\<dots> < 2 ^ 128" by (simp add: powr_numeral)
  finally have "\<not> 2 ^ 128 \<le> \<bar>of_int n * u\<bar>" by simp
  then show ?thesis using re by (simp add: rnd32_unfold[OF nz e u refl])
qed

text \<open>
  A number of magnitude \<open>2\<^sup>1\<^sup>2\<^sup>8\<close> or more overflows, and one of magnitude below \<open>2\<^sup>-\<^sup>1\<^sup>5\<^sup>0\<close>
  underflows to zero.
\<close>

lemma rnd32_overflow:
  assumes "2 ^ 128 \<le> x"
  shows "rnd32 x = PInf"
proof -
  have "(0::real) < 2 ^ 128" by simp
  with assms have xp: "0 < x" by linarith
  then have nz: "x \<noteq> 0" by simp
  define e where "e = max \<lfloor>log 2 \<bar>x\<bar>\<rfloor> (- 126)"
  define u :: real where "u = 2 powr (of_int e - 23)"
  define r where "r = of_int (round_even (x / u)) * u"
  have up: "0 < u" by (simp add: u_def)
  have "(128::real) \<le> log 2 \<bar>x\<bar>" using assms xp by (simp add: le_log_iff powr_numeral)
  then have "128 \<le> \<lfloor>log 2 \<bar>x\<bar>\<rfloor>" by (simp add: le_floor_iff)
  then have e: "e = \<lfloor>log 2 \<bar>x\<bar>\<rfloor>" and e128: "128 \<le> e" by (simp_all add: e_def)
  have "of_int e \<le> log 2 \<bar>x\<bar>" unfolding e by simp
  then have lo: "2 powr of_int e \<le> x" using xp by (simp add: le_log_iff)
  have pe: "2 powr of_int e = 8388608 * u" by (simp add: u_def powr_diff)
  then have "of_int 8388608 \<le> x / u" using lo up by (simp add: field_simps)
  then have "8388608 \<le> round_even (x / u)" by (rule round_even_ge)
  then have "8388608 * u \<le> r" unfolding r_def using up by (simp add: mult_right_mono)
  moreover have "(2::real) powr 128 \<le> 2 powr of_int e" using e128 by (intro powr_mono) simp_all
  ultimately have "2 ^ 128 \<le> r" using pe by (simp add: powr_numeral)
  then have "2 ^ 128 \<le> \<bar>r\<bar>" by simp
  then show ?thesis using rnd32_unfold[OF nz e_def u_def r_def] xp by simp
qed

lemma rnd32_underflow:
  assumes "\<bar>x\<bar> < 2 powr - 150"
  shows "rnd32 x = Fin 0"
proof (cases "x = 0")
  case True
  then show ?thesis by (simp add: rnd32_0)
next
  case False
  define e where "e = max \<lfloor>log 2 \<bar>x\<bar>\<rfloor> (- 126)"
  define u :: real where "u = 2 powr (of_int e - 23)"
  define r where "r = of_int (round_even (x / u)) * u"
  have pos: "0 < \<bar>x\<bar>" using False by simp
  have "log 2 \<bar>x\<bar> < - 150" using assms pos by (simp add: log_less_iff)
  then have "\<lfloor>log 2 \<bar>x\<bar>\<rfloor> < - 126" by (simp add: floor_less_iff)
  then have e: "e = - 126" by (simp add: e_def)
  have u: "u = 2 powr - 149" by (simp add: u_def e)
  have up: "0 < u" by (simp add: u_def)
  have "2 powr - 150 = u / 2" unfolding u by (simp add: powr_neg_numeral)
  then have "\<bar>x\<bar> / u < 1 / 2" using assms up by (simp add: field_simps)
  then have "\<bar>x / u - of_int 0\<bar> < 1 / 2" using up by simp
  then have "round_even (x / u) = 0" by (rule round_even_near)
  then have "r = 0" by (simp add: r_def)
  then show ?thesis using rnd32_unfold[OF False e_def u_def r_def] by simp
qed

text \<open>
  Below \<open>2\<^sup>-\<^sup>1\<^sup>2\<^sup>6\<close> the floats are the multiples of \<open>2\<^sup>-\<^sup>1\<^sup>4\<^sup>9\<close>: a number there that is closer than
  \<open>2\<^sup>-\<^sup>1\<^sup>5\<^sup>0\<close> to the multiple \<open>n 2\<^sup>-\<^sup>1\<^sup>4\<^sup>9\<close> is rounded to it.
\<close>

lemma rnd32_subnormal:
  assumes nz: "x \<noteq> 0" and small: "\<bar>x\<bar> < 2 powr - 126"
    and n: "\<bar>x - of_int n * 2 powr - 149\<bar> < 2 powr - 149 / 2"
  shows "rnd32 x = Fin (of_int n * 2 powr - 149)"
proof -
  define e where "e = max \<lfloor>log 2 \<bar>x\<bar>\<rfloor> (- 126)"
  define u :: real where "u = 2 powr (of_int e - 23)"
  define r where "r = of_int (round_even (x / u)) * u"
  have pos: "0 < \<bar>x\<bar>" using nz by simp
  have "log 2 \<bar>x\<bar> < - 126" using small pos by (simp add: log_less_iff)
  then have "\<lfloor>log 2 \<bar>x\<bar>\<rfloor> < - 126" by (simp add: floor_less_iff)
  then have e: "e = - 126" by (simp add: e_def)
  have u: "u = 2 powr - 149" by (simp add: u_def e)
  have up: "0 < u" by (simp add: u_def)
  have "x / u - of_int n = (x - of_int n * u) / u" using up by (simp add: diff_divide_distrib)
  then have "\<bar>x / u - of_int n\<bar> = \<bar>x - of_int n * u\<bar> / u" using up by simp
  also have "\<dots> < 1 / 2" using n up unfolding u by (simp add: field_simps)
  finally have re: "round_even (x / u) = n" by (rule round_even_near)
  have "\<bar>of_int n * u\<bar> \<le> \<bar>x\<bar> + u / 2" using n unfolding u by linarith
  also have "\<dots> < 2 powr - 126 + 2 powr - 149 / 2" using small unfolding u by simp
  also have "\<dots> < 2 ^ 128" by (simp add: powr_neg_numeral)
  finally have "\<not> 2 ^ 128 \<le> \<bar>of_int n * u\<bar>" by simp
  then show ?thesis using re unfolding u[symmetric] by (simp add: rnd32_unfold[OF nz e_def u_def refl])
qed

subsection \<open>The accumulators of the cosine loop\<close>

text \<open>
  The dot product as the loop accumulates it, from the first component on, every product
  and every sum rounded; the squared norm of a vector is its dot product with itself.
\<close>

definition dot_fl :: "(real \<Rightarrow> fval) \<Rightarrow> fval list \<Rightarrow> fval list \<Rightarrow> fval" where
  "dot_fl rnd a b = foldl (\<lambda>acc (x, y). fround rnd (fadd acc (fround rnd (fmul x y)))) (Fin 0) (zip a b)"

text \<open>The denominator \<^verbatim>\<open>std::sqrt(norm1) * std::sqrt(norm2)\<close>.\<close>

definition denom_fl :: "(real \<Rightarrow> fval) \<Rightarrow> fval list \<Rightarrow> fval list \<Rightarrow> fval" where
  "denom_fl rnd a b = fround rnd (fmul (fround rnd (fsqrt (dot_fl rnd a a))) (fround rnd (fsqrt (dot_fl rnd b b))))"

lemma cosine_loop_fl_fold:
  "length vec1 = length vec2 \<Longrightarrow> i \<le> length vec1 \<Longrightarrow>
   cosine_loop_fl rnd vec1 vec2 i (dot, norm1, norm2) =
     (foldl (\<lambda>acc (x, y). fround rnd (fadd acc (fround rnd (fmul x y)))) dot (zip (drop i vec1) (drop i vec2)),
      foldl (\<lambda>acc (x, y). fround rnd (fadd acc (fround rnd (fmul x y)))) norm1 (zip (drop i vec1) (drop i vec1)),
      foldl (\<lambda>acc (x, y). fround rnd (fadd acc (fround rnd (fmul x y)))) norm2 (zip (drop i vec2) (drop i vec2)))"
proof (induction rnd vec1 vec2 i "(dot, norm1, norm2)" arbitrary: dot norm1 norm2
    rule: cosine_loop_fl.induct)
  case (1 rnd vec1 vec2 i dot norm1 norm2)
  show ?case
  proof (cases "i < length vec1")
    case True
    have d1: "drop i vec1 = vec1 ! i # drop (Suc i) vec1"
      using True by (simp add: Cons_nth_drop_Suc)
    have d2: "drop i vec2 = vec2 ! i # drop (Suc i) vec2"
      using True "1.prems" by (simp add: Cons_nth_drop_Suc)
    have "Suc i \<le> length vec1" using True by simp
    from "1.hyps"[OF True "1.prems"(1) this] show ?thesis using True
      by (subst cosine_loop_fl.simps) (simp add: d1 d2)
  next
    case False
    then show ?thesis using "1.prems" by (subst cosine_loop_fl.simps) simp
  qed
qed

lemma cosine_loop_fl_result:
  "length vec1 = length vec2 \<Longrightarrow>
   cosine_loop_fl rnd vec1 vec2 0 (Fin 0, Fin 0, Fin 0) =
     (dot_fl rnd vec1 vec2, dot_fl rnd vec1 vec1, dot_fl rnd vec2 vec2)"
  by (simp add: cosine_loop_fl_fold dot_fl_def)

lemma cosineSimilarity_fl_eq:
  "cosineSimilarity_fl rnd a b =
     (if length a \<noteq> length b then Fin 0
      else if denom_fl rnd a b = Fin 0 then Fin 0
      else fround rnd (fdiv (dot_fl rnd a b) (denom_fl rnd a b)))"
  by (simp add: cosineSimilarity_fl_def cosine_loop_fl_result denom_fl_def Let_def)

text \<open>A quotient by zero is never zero: the guard of \<^verbatim>\<open>cosineSimilarity\<close> changes the result.\<close>

lemma fdiv_by_zero: "fdiv x (Fin 0) = NaN \<or> fdiv x (Fin 0) = PInf \<or> fdiv x (Fin 0) = NInf"
  by (cases x) auto

lemma fround_fdiv_by_zero: "fround rnd (fdiv x (Fin 0)) \<noteq> Fin 0"
  using fdiv_by_zero[of x] by auto

subsection \<open>Exact arithmetic\<close>

text \<open>
  With nothing rounded and finite components, the functions of this section are the
  functions of the exact model.
\<close>

lemma foldl_dot_exact:
  "foldl (\<lambda>acc (x, y). fround Fin (fadd acc (fround Fin (fmul x y)))) (Fin d) (zip (map Fin a) (map Fin b))
   = Fin (d + dot_product a b)"
proof (induction a arbitrary: b d)
  case Nil
  then show ?case by (simp add: dot_product_def)
next
  case (Cons x xs)
  show ?case
  proof (cases b)
    case Nil
    then show ?thesis by (simp add: dot_product_def)
  next
    case (Cons y ys)
    then show ?thesis using Cons.IH[of "d + x * y" ys] by (simp add: dot_product_def)
  qed
qed

lemma dot_fl_exact: "dot_fl Fin (map Fin a) (map Fin b) = Fin (dot_product a b)"
  using foldl_dot_exact[of 0 a b] by (simp add: dot_fl_def)

lemma denom_fl_exact: "denom_fl Fin (map Fin a) (map Fin b) = Fin (euclidean_norm a * euclidean_norm b)"
proof -
  have "\<not> dot_product a a < 0" "\<not> dot_product b b < 0"
    using sum_sq_nonneg[of a] sum_sq_nonneg[of b] by (simp_all add: dot_product_self)
  then show ?thesis
    by (simp add: denom_fl_def dot_fl_exact euclidean_norm_def dot_product_self)
qed

lemma cosineSimilarity_fl_exact:
  "cosineSimilarity_fl Fin (map Fin a) (map Fin b) = Fin (cosineSimilarity a b)"
  by (simp add: cosineSimilarity_fl_eq cosineSimilarity_eq dot_fl_exact denom_fl_exact)

lemma step_cost_exact: "step_cost Fin (map Fin a) (map Fin b) = Fin (1 - cosineSimilarity a b)"
  by (simp add: step_cost_def cosineSimilarity_fl_exact fsub_def)

lemma dtw_cell_fl_exact:
  "i \<le> length seq1 \<Longrightarrow> j \<le> length seq2 \<Longrightarrow>
   dtw_cell_fl Fin (map (map Fin) seq1) (map (map Fin) seq2) i j = dtw_cell seq1 seq2 i j"
proof (induction seq1 seq2 i j rule: dtw_cell.induct)
  case (4 seq1 seq2 i j)
  have c: "dtw_cell_fl Fin (map (map Fin) seq1) (map (map Fin) seq2) i (Suc j) = dtw_cell seq1 seq2 i (Suc j)"
    "dtw_cell_fl Fin (map (map Fin) seq1) (map (map Fin) seq2) (Suc i) j = dtw_cell seq1 seq2 (Suc i) j"
    "dtw_cell_fl Fin (map (map Fin) seq1) (map (map Fin) seq2) i j = dtw_cell seq1 seq2 i j"
    using 4 by simp_all
  have f: "fround Fin v = v" for v by (cases v) simp_all
  show ?case using "4.prems" by (simp add: c step_cost_exact f)
qed simp_all

lemma fdiv_count_eq: "fdiv v (Fin (real n)) = fdiv_count v n"
  by (cases v) simp_all

lemma fdiv_count_add: "fdiv v (Fin (real m + real n)) = fdiv_count v (m + n)"
  using fdiv_count_eq[of v "m + n"] by simp

lemma computeDTW_fl_exact:
  "computeDTW_fl Fin (map (map Fin) seq1) (map (map Fin) seq2) = computeDTW seq1 seq2"
proof -
  have f: "fround Fin v = v" for v by (cases v) simp_all
  show ?thesis
    by (simp add: computeDTW_fl_cell computeDTW_cell dtw_cell_fl_exact f fdiv_count_add)
qed

subsection \<open>Costs that are not negative\<close>

lemma is_cost_iff: "is_cost x \<longleftrightarrow> fle (Fin 0) x"
  by (cases x) simp_all

lemma fround_rnd32_cost: "is_cost v \<Longrightarrow> is_cost (fround rnd32 v)"
  by (cases v) (simp_all add: rnd32_nonneg)

lemma fadd_cost2: "is_cost x \<Longrightarrow> is_cost y \<Longrightarrow> is_cost (fadd x y)"
  by (cases x; cases y) simp_all

lemma step_cost_nonneg:
  assumes "fle (cosineSimilarity_fl rnd32 a b) (Fin 1)"
  shows "is_cost (step_cost rnd32 a b)"
proof (cases "cosineSimilarity_fl rnd32 a b")
  case (Fin c)
  then have "c \<le> 1" using assms by simp
  then have "is_cost (rnd32 (1 - c))" by (intro rnd32_nonneg) simp
  then show ?thesis by (simp add: step_cost_def Fin fsub_def)
next
  case PInf
  then show ?thesis using assms by simp
next
  case NInf
  then show ?thesis by (simp add: step_cost_def fsub_def)
next
  case NaN
  then show ?thesis using assms by simp
qed

lemma dtw_cell_fl_cost:
  "\<forall>a < length seq1. \<forall>b < length seq2. is_cost (step_cost rnd32 (seq1 ! a) (seq2 ! b)) \<Longrightarrow>
   i \<le> length seq1 \<Longrightarrow> j \<le> length seq2 \<Longrightarrow> is_cost (dtw_cell_fl rnd32 seq1 seq2 i j)"
proof (induction rnd32 seq1 seq2 i j rule: dtw_cell_fl.induct)
  case (4 seq1 seq2 i j)
  have "is_cost (step_cost rnd32 (seq1 ! i) (seq2 ! j))" using "4.prems" by simp
  moreover have "is_cost (min3 (dtw_cell_fl rnd32 seq1 seq2 i (Suc j)) (dtw_cell_fl rnd32 seq1 seq2 (Suc i) j)
          (dtw_cell_fl rnd32 seq1 seq2 i j))"
    using 4 by (intro min3_cost) simp_all
  ultimately show ?case by (simp add: fround_rnd32_cost fadd_cost2)
qed simp_all

text \<open>
  The lengths are \<^verbatim>\<open>jsize\<close> values, 32-bit integers, so their sum converts to a finite float
  that is at least 1 when a sequence is not empty.
\<close>

lemma rnd32_fin:
  assumes "\<bar>x\<bar> < 2 ^ 127"
  shows "\<exists>r. rnd32 x = Fin r"
proof (cases "x = 0")
  case True
  then show ?thesis by (simp add: rnd32_0)
next
  case False
  define e where "e = max \<lfloor>log 2 \<bar>x\<bar>\<rfloor> (- 126)"
  define u :: real where "u = 2 powr (of_int e - 23)"
  define r where "r = of_int (round_even (x / u)) * u"
  have up: "0 < u" by (simp add: u_def)
  have pos: "0 < \<bar>x\<bar>" using False by simp
  have "log 2 \<bar>x\<bar> < 127" using assms pos by (simp add: log_less_iff powr_numeral)
  then have "\<lfloor>log 2 \<bar>x\<bar>\<rfloor> < 127" by (simp add: floor_less_iff)
  then have e: "e \<le> 126" by (simp add: e_def)
  have "u \<le> 2 powr 103" unfolding u_def using e by (intro powr_mono) simp_all
  then have u103: "u \<le> 2 ^ 103" by (simp add: powr_numeral)
  have "\<bar>of_int (round_even (x / u)) - x / u\<bar> \<le> 1"
    using round_even_bounds[of "x / u"] by linarith
  then have "\<bar>of_int (round_even (x / u)) - x / u\<bar> * u \<le> 1 * u"
    using up by (intro mult_right_mono) simp_all
  moreover have "\<bar>of_int (round_even (x / u)) - x / u\<bar> * u = \<bar>r - x\<bar>"
  proof -
    have "r - x = (of_int (round_even (x / u)) - x / u) * u"
      using up by (simp add: r_def left_diff_distrib)
    then show ?thesis using up by (simp add: abs_mult)
  qed
  ultimately have "\<bar>r - x\<bar> \<le> u" by simp
  then have "\<bar>r\<bar> \<le> \<bar>x\<bar> + u" by linarith
  also have "\<dots> < 2 ^ 127 + 2 ^ 103" using assms u103 by linarith
  also have "\<dots> \<le> (2::real) ^ 128" by simp
  finally have "\<not> 2 ^ 128 \<le> \<bar>r\<bar>" by simp
  then show ?thesis using rnd32_unfold[OF False e_def u_def r_def] by simp
qed

lemma rnd32_count_fin:
  assumes "1 \<le> n" "n < 2 ^ 31"
  shows "\<exists>r. rnd32 (real n) = Fin r \<and> 1 \<le> r"
proof -
  have "real n < 2 ^ 31" using assms(2) by (metis of_nat_less_iff of_nat_numeral of_nat_power)
  also have "\<dots> < (2::real) ^ 127" by simp
  finally have "\<bar>real n\<bar> < 2 ^ 127" by simp
  then obtain r where r: "rnd32 (real n) = Fin r" using rnd32_fin by blast
  moreover have "1 \<le> r" using rnd32_count[OF assms(1)] r by simp
  ultimately show ?thesis by blast
qed

lemma score_le_one:
  assumes c: "is_cost d" and n: "1 \<le> n" "n < 2 ^ 31"
  shows "fle (fround rnd32 (fsub (Fin 1) (fround rnd32 (fdiv d (rnd32 (real n)))))) (Fin 1)"
proof -
  obtain r where r: "rnd32 (real n) = Fin r" "1 \<le> r" using rnd32_count_fin[OF n] by blast
  have "is_cost (fdiv d (Fin r))" using c r(2) by (cases d) simp_all
  then have q: "is_cost (fround rnd32 (fdiv d (Fin r)))" by (rule fround_rnd32_cost)
  show ?thesis
  proof (cases "fround rnd32 (fdiv d (Fin r))")
    case (Fin q')
    then have "0 \<le> q'" using q by simp
    then have "fle (rnd32 (1 - q')) (Fin 1)" by (intro rnd32_le_one) simp
    then show ?thesis by (simp add: r Fin fsub_def)
  next
    case PInf
    then show ?thesis by (simp add: r fsub_def)
  next
    case NInf
    then show ?thesis using q by simp
  next
    case NaN
    then show ?thesis using q by simp
  qed
qed

subsection \<open>Symmetry of the table\<close>

lemma fadd_fin_num: "is_fin c \<Longrightarrow> m \<noteq> NaN \<Longrightarrow> fadd c m \<noteq> NaN"
  by (cases c; cases m) simp_all

lemma dtw_cell_fl_num:
  "\<forall>a < length seq1. \<forall>b < length seq2. is_fin (step_cost rnd32 (seq1 ! a) (seq2 ! b)) \<Longrightarrow>
   i \<le> length seq1 \<Longrightarrow> j \<le> length seq2 \<Longrightarrow> dtw_cell_fl rnd32 seq1 seq2 i j \<noteq> NaN"
proof (induction rnd32 seq1 seq2 i j rule: dtw_cell_fl.induct)
  case (4 seq1 seq2 i j)
  have "is_fin (step_cost rnd32 (seq1 ! i) (seq2 ! j))" using "4.prems" by simp
  moreover have "min3 (dtw_cell_fl rnd32 seq1 seq2 i (Suc j)) (dtw_cell_fl rnd32 seq1 seq2 (Suc i) j)
          (dtw_cell_fl rnd32 seq1 seq2 i j) \<noteq> NaN"
    using 4 by (intro min3_num) simp_all
  ultimately show ?case by (simp add: fround_rnd32_num fadd_fin_num)
qed simp_all

lemma dtw_cell_fl_transpose:
  "\<forall>a < length seq1. \<forall>b < length seq2. is_fin (step_cost rnd32 (seq1 ! a) (seq2 ! b)) \<Longrightarrow>
   i \<le> length seq1 \<Longrightarrow> j \<le> length seq2 \<Longrightarrow>
   dtw_cell_fl rnd32 seq1 seq2 i j = dtw_cell_fl rnd32 seq2 seq1 j i"
proof (induction rnd32 seq1 seq2 i j rule: dtw_cell_fl.induct)
  case (4 seq1 seq2 i j)
  have ij: "i \<le> length seq1" "Suc j \<le> length seq2" "Suc i \<le> length seq1" "j \<le> length seq2"
    using "4.prems" by simp_all
  have a: "dtw_cell_fl rnd32 seq1 seq2 i (Suc j) = dtw_cell_fl rnd32 seq2 seq1 (Suc j) i"
    using "4.hyps"(1)[OF "4.prems"(1) ij(1) ij(2)] .
  have b: "dtw_cell_fl rnd32 seq1 seq2 (Suc i) j = dtw_cell_fl rnd32 seq2 seq1 j (Suc i)"
    using "4.hyps"(2)[OF "4.prems"(1) ij(3) ij(4)] .
  have c: "dtw_cell_fl rnd32 seq1 seq2 i j = dtw_cell_fl rnd32 seq2 seq1 j i"
    using "4.hyps"(3)[OF "4.prems"(1) ij(1) ij(4)] .
  have na: "dtw_cell_fl rnd32 seq1 seq2 i (Suc j) \<noteq> NaN"
    using dtw_cell_fl_num[OF "4.prems"(1) ij(1) ij(2)] .
  have nb: "dtw_cell_fl rnd32 seq1 seq2 (Suc i) j \<noteq> NaN"
    using dtw_cell_fl_num[OF "4.prems"(1) ij(3) ij(4)] .
  have "min3 (dtw_cell_fl rnd32 seq1 seq2 i (Suc j)) (dtw_cell_fl rnd32 seq1 seq2 (Suc i) j)
          (dtw_cell_fl rnd32 seq1 seq2 i j)
      = min3 (dtw_cell_fl rnd32 seq1 seq2 (Suc i) j) (dtw_cell_fl rnd32 seq1 seq2 i (Suc j))
          (dtw_cell_fl rnd32 seq1 seq2 i j)"
    by (rule min3_swap_num[OF na nb])
  then show ?case
    by (simp add: a b c step_cost_commute[of rnd32 "seq1 ! i"])
qed simp_all

subsection \<open>Values of the rounding\<close>

text \<open>
  Small integers and fractions with a power of two below are binary32 numbers, and are
  rounded to themselves.
\<close>

lemma rnd32_1: "rnd32 (1) = Fin (1)"
proof -
  have u: "1 / 8388608 = (2::real) powr (of_int 0 - 23)" by (simp add: powr_neg_numeral)
  from rnd32_eval[OF u, of "1" "8388608"] show ?thesis by simp
qed

lemma rnd32_2: "rnd32 (2) = Fin (2)"
proof -
  have u: "1 / 4194304 = (2::real) powr (of_int 1 - 23)" by (simp add: powr_neg_numeral)
  from rnd32_eval[OF u, of "2" "8388608"] show ?thesis by simp
qed

lemma rnd32_3: "rnd32 (3) = Fin (3)"
proof -
  have u: "1 / 4194304 = (2::real) powr (of_int 1 - 23)" by (simp add: powr_neg_numeral)
  from rnd32_eval[OF u, of "3" "12582912"] show ?thesis by simp
qed

lemma rnd32_4: "rnd32 (4) = Fin (4)"
proof -
  have u: "1 / 2097152 = (2::real) powr (of_int 2 - 23)" by (simp add: powr_neg_numeral)
  from rnd32_eval[OF u, of "4" "8388608"] show ?thesis by simp
qed

lemma rnd32_6: "rnd32 (6) = Fin (6)"
proof -
  have u: "1 / 2097152 = (2::real) powr (of_int 2 - 23)" by (simp add: powr_neg_numeral)
  from rnd32_eval[OF u, of "6" "12582912"] show ?thesis by simp
qed

lemma rnd32_minus_1: "rnd32 (- 1) = Fin (- 1)"
proof -
  have u: "1 / 8388608 = (2::real) powr (of_int 0 - 23)" by (simp add: powr_neg_numeral)
  from rnd32_eval[OF u, of "- 1" "(- 8388608)"] show ?thesis by simp
qed

lemma rnd32_minus_2: "rnd32 (- 2) = Fin (- 2)"
proof -
  have u: "1 / 4194304 = (2::real) powr (of_int 1 - 23)" by (simp add: powr_neg_numeral)
  from rnd32_eval[OF u, of "- 2" "(- 8388608)"] show ?thesis by simp
qed

lemma rnd32_half: "rnd32 (1 / 2) = Fin (1 / 2)"
proof -
  have u: "1 / 16777216 = (2::real) powr (of_int (- 1) - 23)" by (simp add: powr_neg_numeral)
  from rnd32_eval[OF u, of "1 / 2" "8388608"] show ?thesis by simp
qed

lemma rnd32_quarter: "rnd32 (1 / 4) = Fin (1 / 4)"
proof -
  have u: "1 / 33554432 = (2::real) powr (of_int (- 2) - 23)" by (simp add: powr_neg_numeral)
  from rnd32_eval[OF u, of "1 / 4" "8388608"] show ?thesis by simp
qed

lemma rnd32_three_quarters: "rnd32 (3 / 4) = Fin (3 / 4)"
proof -
  have u: "1 / 16777216 = (2::real) powr (of_int (- 1) - 23)" by (simp add: powr_neg_numeral)
  from rnd32_eval[OF u, of "3 / 4" "12582912"] show ?thesis by simp
qed

lemma rnd32_three_halves: "rnd32 (3 / 2) = Fin (3 / 2)"
proof -
  have u: "1 / 8388608 = (2::real) powr (of_int 0 - 23)" by (simp add: powr_neg_numeral)
  from rnd32_eval[OF u, of "3 / 2" "12582912"] show ?thesis by simp
qed

lemma rnd32_minus_half: "rnd32 (- (1 / 2)) = Fin (- (1 / 2))"
proof -
  have u: "1 / 16777216 = (2::real) powr (of_int (- 1) - 23)" by (simp add: powr_neg_numeral)
  from rnd32_eval[OF u, of "- (1 / 2)" "(- 8388608)"] show ?thesis by simp
qed

lemma rnd32_denom: "rnd32 (140737483538089 / 70368744177664) = Fin (16777215 / 8388608)"
proof -
  have u: "1 / 8388608 = (2::real) powr (of_int 0 - 23)" by (simp add: powr_neg_numeral)
  from rnd32_eval[OF u, of "140737483538089 / 70368744177664" "16777215"] show ?thesis by simp
qed

lemma rnd32_quot: "rnd32 (16777216 / 16777215) = Fin (8388609 / 8388608)"
proof -
  have u: "1 / 8388608 = (2::real) powr (of_int 0 - 23)" by (simp add: powr_neg_numeral)
  from rnd32_eval[OF u, of "16777216 / 16777215" "8388609"] show ?thesis by simp
qed

lemma rnd32_cost: "rnd32 (- (1 / 8388608)) = Fin (- (1 / 8388608))"
proof -
  have u: "1 / 70368744177664 = (2::real) powr (of_int (- 23) - 23)" by (simp add: powr_neg_numeral)
  from rnd32_eval[OF u, of "- (1 / 8388608)" "(- 8388608)"] show ?thesis by simp
qed

lemma rnd32_cost2: "rnd32 (- (1 / 4194304)) = Fin (- (1 / 4194304))"
proof -
  have u: "1 / 35184372088832 = (2::real) powr (of_int (- 22) - 23)" by (simp add: powr_neg_numeral)
  from rnd32_eval[OF u, of "- (1 / 4194304)" "(- 8388608)"] show ?thesis by simp
qed

lemma rnd32_cost3: "rnd32 (- (3 / 8388608)) = Fin (- (3 / 8388608))"
proof -
  have u: "1 / 35184372088832 = (2::real) powr (of_int (- 22) - 23)" by (simp add: powr_neg_numeral)
  from rnd32_eval[OF u, of "- (3 / 8388608)" "(- 12582912)"] show ?thesis by simp
qed

lemma rnd32_avg: "rnd32 (- (3 / 33554432)) = Fin (- (3 / 33554432))"
proof -
  have u: "1 / 140737488355328 = (2::real) powr (of_int (- 24) - 23)" by (simp add: powr_neg_numeral)
  from rnd32_eval[OF u, of "- (3 / 33554432)" "(- 12582912)"] show ?thesis by simp
qed

lemma rnd32_score: "rnd32 (33554435 / 33554432) = Fin (8388609 / 8388608)"
proof -
  have u: "1 / 8388608 = (2::real) powr (of_int 0 - 23)" by (simp add: powr_neg_numeral)
  from rnd32_eval[OF u, of "33554435 / 33554432" "8388609"] show ?thesis by simp
qed

text \<open>
  The square root of 2 lies between two neighbouring binary32 numbers and is rounded to the
  lower one, \<open>r = 11863283 / 2\<^sup>2\<^sup>3\<close>, which is 1.41421354 to nine digits.  The product
  \<open>r * r = 140737483538089 / 2\<^sup>4\<^sup>6\<close> is 1.99999993 and is rounded to \<open>2 - 2\<^sup>-\<^sup>2\<^sup>3\<close>, the binary32
  number just below 2 (\<open>rnd32_denom\<close>); the quotient \<open>2 / (2 - 2\<^sup>-\<^sup>2\<^sup>3)\<close> is just above the
  middle of 1 and \<open>1 + 2\<^sup>-\<^sup>2\<^sup>3\<close> and is rounded to \<open>1 + 2\<^sup>-\<^sup>2\<^sup>3\<close> (\<open>rnd32_quot\<close>).
\<close>

lemma rnd32_sqrt2: "rnd32 (sqrt 2) = Fin (11863283 / 8388608)"
proof -
  have lo: "(23726565 / 16777216)\<^sup>2 < (2::real)" by (simp add: power2_eq_square)
  have hi: "(2::real) < (23726567 / 16777216)\<^sup>2" by (simp add: power2_eq_square)
  have a: "23726565 / 16777216 < sqrt 2" using lo by (rule real_less_rsqrt)
  have b: "sqrt 2 < 23726567 / 16777216" using hi by (intro real_less_lsqrt) simp_all
  have u: "1 / 8388608 = (2::real) powr (of_int 0 - 23)" by (simp add: powr_neg_numeral)
  have k: "- 126 \<le> (0::int)" "(0::int) \<le> 126" by simp_all
  have c: "8388608 * (1 / 8388608) \<le> \<bar>sqrt 2\<bar>" by simp
  have d: "\<bar>sqrt 2\<bar> < 16777216 * (1 / 8388608)" using b by simp
  have n1: "sqrt 2 - 11863283 / 8388608 < 1 / 16777216" using b by simp
  have n2: "- (1 / 16777216) < sqrt 2 - 11863283 / 8388608" using a by simp
  have n: "\<bar>sqrt 2 - of_int 11863283 * (1 / 8388608)\<bar> < (1 / 8388608) / 2"
    using n1 n2 unfolding abs_less_iff by simp
  from rnd32_eval[OF u k c d n] show ?thesis by simp
qed

text \<open>
  A large and a small binary32 number: the square of \<open>2\<^sup>1\<^sup>0\<^sup>0\<close> overflows, and the square
  of \<open>2\<^sup>-\<^sup>1\<^sup>0\<^sup>0\<close> underflows to zero.
\<close>

definition huge :: real where
  "huge = 2 ^ 100"

definition tiny :: real where
  "tiny = 1 / 2 ^ 100"

lemma rnd32_huge: "rnd32 huge = Fin huge"
proof -
  have u: "2 ^ 77 = (2::real) powr (of_int 100 - 23)" by (simp add: powr_numeral)
  from rnd32_eval[OF u, of "2 ^ 100" 8388608] show ?thesis by (simp add: huge_def)
qed

lemma rnd32_huge_square: "rnd32 (huge * huge) = PInf"
  by (rule rnd32_overflow) (simp add: huge_def)

lemma rnd32_tiny: "rnd32 tiny = Fin tiny"
proof -
  have u: "1 / 2 ^ 123 = (2::real) powr (of_int (- 100) - 23)" by (simp add: powr_neg_numeral)
  from rnd32_eval[OF u, of "1 / 2 ^ 100" 8388608] show ?thesis by (simp add: tiny_def)
qed

lemma rnd32_tiny_square: "rnd32 (tiny * tiny) = Fin 0"
  by (rule rnd32_underflow) (simp add: tiny_def powr_neg_numeral)

lemma huge_pos: "0 < huge" "huge \<noteq> 0"
  by (simp_all add: huge_def)

lemma tiny_pos: "0 < tiny" "tiny \<noteq> 0"
  by (simp_all add: tiny_def)

lemmas rnd32_vals = rnd32_0 rnd32_1 rnd32_2 rnd32_3 rnd32_4 rnd32_6 rnd32_minus_1 rnd32_minus_2
  rnd32_half rnd32_quarter rnd32_three_quarters rnd32_three_halves rnd32_minus_half
  rnd32_sqrt2 rnd32_denom rnd32_quot rnd32_cost rnd32_cost2 rnd32_cost3 rnd32_avg rnd32_score
  rnd32_huge rnd32_huge_square rnd32_tiny rnd32_tiny_square huge_pos tiny_pos

subsection \<open>Cosine similarity of some vectors\<close>

lemmas cos_eval = cosineSimilarity_fl_def cosine_loop_fl.simps rnd32_vals

lemma cos_fl_unit: "cosineSimilarity_fl rnd32 [Fin 1, Fin 0] [Fin 1, Fin 0] = Fin 1"
  by (simp add: cos_eval)


lemma cos_fl_orth: "cosineSimilarity_fl rnd32 [Fin 0, Fin 1] [Fin 1, Fin 0] = Fin 0"
  by (simp add: cos_eval)


lemma cos_fl_opposite: "cosineSimilarity_fl rnd32 [Fin 1] [Fin (- 1)] = Fin (- 1)"
  by (simp add: cos_eval)

lemma cos_fl_opposite2: "cosineSimilarity_fl rnd32 [Fin (- 1)] [Fin 1] = Fin (- 1)"
  by (simp add: cos_eval)


text \<open>
  For the vector \<open>[1, 1]\<close> the dot product and the two squared norms are 2 (every product
  and every sum of the loop is exact, whether or not a product and a sum are fused into one
  rounding); the product of the two rounded roots is below 2 and the quotient above 1.
\<close>

lemma cos_fl_ones: "cosineSimilarity_fl rnd32 [Fin 1, Fin 1] [Fin 1, Fin 1] = Fin (8388609 / 8388608)"
  by (simp add: cos_eval)

text \<open>
  The squared norm of \<open>[2\<^sup>1\<^sup>0\<^sup>0]\<close> overflows.  Against itself the quotient is
  \<open>infinity / infinity\<close>; against the zero vector the denominator is \<open>0 * infinity\<close>, which is
  not-a-number and does not compare equal to zero; against \<open>[1]\<close> the quotient is
  \<open>2\<^sup>1\<^sup>0\<^sup>0 / infinity = 0\<close>.
\<close>

lemma cos_fl_huge: "cosineSimilarity_fl rnd32 [Fin huge] [Fin huge] = NaN"
  by (simp add: cos_eval)

lemma cos_fl_zero_huge: "cosineSimilarity_fl rnd32 [Fin 0] [Fin huge] = NaN"
  by (simp add: cos_eval)

lemma cos_fl_one_huge: "cosineSimilarity_fl rnd32 [Fin 1] [Fin huge] = Fin 0"
  by (simp add: cos_eval)

lemma cos_fl_huge_one: "cosineSimilarity_fl rnd32 [Fin huge] [Fin 1] = Fin 0"
  by (simp add: cos_eval)

text \<open>The squared norm of \<open>[2\<^sup>-\<^sup>1\<^sup>0\<^sup>0]\<close> underflows to zero, and the guard returns 0.\<close>

lemma cos_fl_tiny: "cosineSimilarity_fl rnd32 [Fin tiny] [Fin tiny] = Fin 0"
  by (simp add: cos_eval)

subsection \<open>Scores of some sequences\<close>

lemmas dtw_eval = computeDTW_fl_cell step_cost_def fsub_def min3_def rnd32_vals




lemma dtw_cell_fl_ones:
  "dtw_cell_fl rnd32 [[Fin 1, Fin 1], [Fin 1, Fin 1]] [[Fin 1, Fin 1], [Fin 1, Fin 1]] 2 2 = Fin (- (3 / 8388608))"
  by (simp add: numeral_2_eq_2 step_cost_def fsub_def min3_def rnd32_vals cos_fl_ones)

lemma computeDTW_fl_ones:
  "computeDTW_fl rnd32 [[Fin 1, Fin 1], [Fin 1, Fin 1]] [[Fin 1, Fin 1], [Fin 1, Fin 1]] = Fin (8388609 / 8388608)"
  by (simp add: dtw_eval cos_fl_ones)

lemma computeDTW_fl_below_zero: "computeDTW_fl rnd32 [[Fin 1], [Fin 1], [Fin 1]] [[Fin (- 1)]] = Fin (- (1 / 2))"
  by (simp add: dtw_eval cos_fl_opposite)

lemma computeDTW_fl_below_zero2: "computeDTW_fl rnd32 [[Fin (- 1)]] [[Fin 1], [Fin 1], [Fin 1]] = Fin (- (1 / 2))"
  by (simp add: dtw_eval cos_fl_opposite2)

lemma computeDTW_fl_nan_left: "computeDTW_fl rnd32 [[Fin huge], [Fin 1]] [[Fin huge]] = NaN"
  by (simp add: dtw_eval cos_fl_huge cos_fl_one_huge)

lemma computeDTW_fl_nan_right: "computeDTW_fl rnd32 [[Fin huge]] [[Fin huge], [Fin 1]] = NInf"
  by (simp add: dtw_eval cos_fl_huge cos_fl_huge_one)

lemma dtw_cell_fl_two:
  "dtw_cell_fl rnd32 [[Fin 1, Fin 0], [Fin 0, Fin 1]] [[Fin 1, Fin 0], [Fin 1, Fin 0]] 2 2 = Fin 1"
  by (simp add: numeral_2_eq_2 step_cost_def fsub_def min3_def rnd32_vals cos_fl_unit cos_fl_orth)

lemma computeDTW_fl_two:
  "computeDTW_fl rnd32 [[Fin 1, Fin 0], [Fin 0, Fin 1]] [[Fin 1, Fin 0], [Fin 1, Fin 0]] = Fin (3 / 4)"
  by (simp add: dtw_eval cos_fl_unit cos_fl_orth)

subsection \<open>Gradual underflow\<close>

text \<open>
  The square of \<open>17 / 2\<^sup>7\<^sup>8\<close> is \<open>2.26\<close> times the least positive float \<open>2\<^sup>-\<^sup>1\<^sup>4\<^sup>9\<close> and is rounded
  to twice it, \<open>2\<^sup>-\<^sup>1\<^sup>4\<^sup>8\<close>, whose square root is \<open>2\<^sup>-\<^sup>7\<^sup>4\<close>.  The computed norm of the vector
  \<open>[17 / 2\<^sup>7\<^sup>8]\<close> is therefore \<open>16 / 2\<^sup>7\<^sup>8\<close>, its similarity with \<open>[1]\<close> is \<open>17 / 16\<close>, and
  the score of the two one-vector sequences is \<open>33 / 32\<close>, which is 1.03125.
\<close>

definition faint :: real where
  "faint = 17 / 2 ^ 78"

definition least2 :: real where
  "least2 = 1 / 2 ^ 148"

definition root_least2 :: real where
  "root_least2 = 1 / 2 ^ 74"

lemma rnd32_faint: "rnd32 faint = Fin faint"
proof -
  have u: "1 / 2 ^ 97 = (2::real) powr (of_int (- 74) - 23)" by (simp add: powr_neg_numeral)
  from rnd32_eval[OF u, of "17 / 2 ^ 78" 8912896] show ?thesis by (simp add: faint_def)
qed

lemma rnd32_faint_square: "rnd32 (faint * faint) = Fin least2"
proof -
  from rnd32_subnormal[of "faint * faint" 2] show ?thesis
    by (simp add: faint_def least2_def powr_neg_numeral)
qed

lemma rnd32_least2: "rnd32 least2 = Fin least2"
proof -
  from rnd32_subnormal[of least2 2] show ?thesis
    by (simp add: least2_def powr_neg_numeral)
qed

lemma sqrt_least2: "sqrt least2 = root_least2"
proof -
  have "root_least2 * root_least2 = least2" by (simp add: root_least2_def least2_def)
  moreover have "0 \<le> root_least2" by (simp add: root_least2_def)
  ultimately show ?thesis using real_sqrt_unique[of root_least2 least2] by (simp add: power2_eq_square)
qed

lemma rnd32_root_least2: "rnd32 root_least2 = Fin root_least2"
proof -
  have u: "1 / 2 ^ 97 = (2::real) powr (of_int (- 74) - 23)" by (simp add: powr_neg_numeral)
  from rnd32_eval[OF u, of "1 / 2 ^ 74" 8388608] show ?thesis by (simp add: root_least2_def)
qed

lemma faint_facts: "faint \<noteq> 0" "\<not> least2 < 0" "root_least2 \<noteq> 0" "faint / root_least2 = 17 / 16"
  by (simp_all add: faint_def least2_def root_least2_def)

lemma rnd32_17_16: "rnd32 (17 / 16) = Fin (17 / 16)"
proof -
  have u: "1 / 8388608 = (2::real) powr (of_int 0 - 23)" by (simp add: powr_neg_numeral)
  from rnd32_eval[OF u, of "17 / 16" 8912896] show ?thesis by simp
qed

lemma rnd32_minus_16th: "rnd32 (- (1 / 16)) = Fin (- (1 / 16))"
proof -
  have u: "1 / 134217728 = (2::real) powr (of_int (- 4) - 23)" by (simp add: powr_neg_numeral)
  from rnd32_eval[OF u, of "- (1 / 16)" "- 8388608"] show ?thesis by simp
qed

lemma rnd32_minus_32nd: "rnd32 (- (1 / 32)) = Fin (- (1 / 32))"
proof -
  have u: "1 / 268435456 = (2::real) powr (of_int (- 5) - 23)" by (simp add: powr_neg_numeral)
  from rnd32_eval[OF u, of "- (1 / 32)" "- 8388608"] show ?thesis by simp
qed

lemma rnd32_33_32: "rnd32 (33 / 32) = Fin (33 / 32)"
proof -
  have u: "1 / 8388608 = (2::real) powr (of_int 0 - 23)" by (simp add: powr_neg_numeral)
  from rnd32_eval[OF u, of "33 / 32" 8650752] show ?thesis by simp
qed

lemmas faint_vals = rnd32_faint rnd32_faint_square rnd32_least2 sqrt_least2 rnd32_root_least2
  faint_facts rnd32_17_16 rnd32_minus_16th rnd32_minus_32nd rnd32_33_32

lemma cos_fl_faint: "cosineSimilarity_fl rnd32 [Fin faint] [Fin 1] = Fin (17 / 16)"
  by (simp add: cos_eval faint_vals)

lemma computeDTW_fl_faint: "computeDTW_fl rnd32 [[Fin faint]] [[Fin 1]] = Fin (33 / 32)"
  by (simp add: dtw_eval cos_fl_faint faint_vals)

subsection \<open>A sequence against itself\<close>




subsection \<open>The bound on the score\<close>

lemma computeDTW_fl_bound:
  assumes ne: "seq1 \<noteq> []" "seq2 \<noteq> []" and small: "length seq1 + length seq2 < 2 ^ 31"
    and le: "\<forall>i < length seq1. \<forall>j < length seq2. fle (cosineSimilarity_fl rnd32 (seq1 ! i) (seq2 ! j)) (Fin 1)"
  shows "is_cost (dtw_cell_fl rnd32 seq1 seq2 (length seq1) (length seq2))"
    and "fle (computeDTW_fl rnd32 seq1 seq2) (Fin 1)"
proof -
  have costs: "\<forall>a < length seq1. \<forall>b < length seq2. is_cost (step_cost rnd32 (seq1 ! a) (seq2 ! b))"
    using le by (auto intro!: step_cost_nonneg)
  show c: "is_cost (dtw_cell_fl rnd32 seq1 seq2 (length seq1) (length seq2))"
    by (intro dtw_cell_fl_cost[OF costs]) simp_all
  have "1 \<le> length seq1 + length seq2" using ne(1) by (cases seq1) simp_all
  from score_le_one[OF c this small] show "fle (computeDTW_fl rnd32 seq1 seq2) (Fin 1)"
    by (simp add: computeDTW_fl_cell)
qed

subsection \<open>The denominator of a zero vector\<close>

text \<open>
  A squared norm is a sum of rounded squares: it is a cost or not-a-number, and when it is
  finite it is below \<open>2\<^sup>1\<^sup>2\<^sup>8\<close>, so its rounded square root is finite.
\<close>

lemma rnd32_Fin_bound: "rnd32 x = Fin r \<Longrightarrow> \<bar>r\<bar> < 2 ^ 128"
  by (cases "x = 0") (auto simp: rnd32_def Let_def split: if_splits)

lemma fround_rnd32_bound: "fround rnd32 v = Fin r \<Longrightarrow> \<bar>r\<bar> < 2 ^ 128"
  by (cases v) (auto dest: rnd32_Fin_bound)

lemma fmul_square_cost: "is_cost (fmul x x) \<or> fmul x x = NaN"
  by (cases x) simp_all

lemma sq_step:
  assumes "is_cost acc \<or> acc = NaN"
  shows "is_cost (fround rnd32 (fadd acc (fround rnd32 (fmul x x)))) \<or>
         fround rnd32 (fadd acc (fround rnd32 (fmul x x))) = NaN"
proof -
  have p: "is_cost (fround rnd32 (fmul x x)) \<or> fround rnd32 (fmul x x) = NaN"
    using fmul_square_cost[of x] by (auto intro: fround_rnd32_cost)
  have "is_cost (fadd acc (fround rnd32 (fmul x x))) \<or> fadd acc (fround rnd32 (fmul x x)) = NaN"
    using assms p by (cases acc; cases "fround rnd32 (fmul x x)") auto
  then show ?thesis by (auto intro: fround_rnd32_cost)
qed

lemma foldl_sq_cost:
  "is_cost acc \<or> acc = NaN \<Longrightarrow>
   is_cost (foldl (\<lambda>acc (x, y). fround rnd32 (fadd acc (fround rnd32 (fmul x y)))) acc (zip b b)) \<or>
   foldl (\<lambda>acc (x, y). fround rnd32 (fadd acc (fround rnd32 (fmul x y)))) acc (zip b b) = NaN"
proof (induction b arbitrary: acc)
  case Nil
  then show ?case by simp
next
  case (Cons x xs)
  show ?case using Cons.IH[OF sq_step[OF Cons.prems, of x]] by simp
qed

lemma foldl_sq_bound:
  "acc = Fin a \<Longrightarrow> \<bar>a\<bar> < 2 ^ 128 \<Longrightarrow>
   foldl (\<lambda>acc (x, y). fround rnd32 (fadd acc (fround rnd32 (fmul x y)))) acc (zip b b) = Fin m \<Longrightarrow>
   \<bar>m\<bar> < 2 ^ 128"
proof (induction b arbitrary: acc a rule: rev_induct)
  case Nil
  then show ?case by simp
next
  case (snoc x xs)
  have z: "zip (xs @ [x]) (xs @ [x]) = zip xs xs @ [(x, x)]" by simp
  show ?case using snoc.prems(3) unfolding z by (auto dest: fround_rnd32_bound)
qed

lemma sqnorm_fin:
  assumes "dot_fl rnd32 b b = Fin m"
  shows "0 \<le> m \<and> m < 2 ^ 128"
proof -
  have "is_cost (dot_fl rnd32 b b) \<or> dot_fl rnd32 b b = NaN"
    unfolding dot_fl_def by (rule foldl_sq_cost) simp
  then have "0 \<le> m" using assms by simp
  moreover have "\<bar>m\<bar> < 2 ^ 128"
    using foldl_sq_bound[of "Fin 0" 0 b m] assms by (simp add: dot_fl_def)
  ultimately show ?thesis by simp
qed

lemma root_fin:
  assumes "dot_fl rnd32 b b = Fin m"
  shows "\<exists>s. fround rnd32 (fsqrt (dot_fl rnd32 b b)) = Fin s"
proof -
  have m: "0 \<le> m" "m < 2 ^ 128" using sqnorm_fin[OF assms] by simp_all
  have "m < (2 ^ 64)\<^sup>2" using m(2) by simp
  then have "sqrt m < 2 ^ 64" by (intro real_less_lsqrt) simp_all
  then have "\<bar>sqrt m\<bar> < 2 ^ 127" using m(1) by simp
  then obtain s where "rnd32 (sqrt m) = Fin s" using rnd32_fin by blast
  then show ?thesis using m(1) by (simp add: assms)
qed

lemma foldl_zero:
  "\<forall>x \<in> set a. x = Fin 0 \<Longrightarrow>
   foldl (\<lambda>acc (x, y). fround rnd32 (fadd acc (fround rnd32 (fmul x y)))) (Fin 0) (zip a a) = Fin 0"
  by (induction a) (simp_all add: rnd32_0)

lemma sqnorm_zero: "\<forall>x \<in> set a. x = Fin 0 \<Longrightarrow> dot_fl rnd32 a a = Fin 0"
  by (simp add: dot_fl_def foldl_zero)

lemma denom_fl_zero_left:
  assumes "\<forall>x \<in> set a. x = Fin 0" and "is_fin (dot_fl rnd32 b b)"
  shows "denom_fl rnd32 a b = Fin 0"
proof -
  obtain m where "dot_fl rnd32 b b = Fin m" using assms(2) by (cases "dot_fl rnd32 b b") auto
  then obtain s where "fround rnd32 (fsqrt (dot_fl rnd32 b b)) = Fin s" using root_fin by blast
  then show ?thesis by (simp add: denom_fl_def sqnorm_zero[OF assms(1)] rnd32_0)
qed

lemma denom_fl_zero_right:
  assumes "\<forall>x \<in> set b. x = Fin 0" and "is_fin (dot_fl rnd32 a a)"
  shows "denom_fl rnd32 a b = Fin 0"
proof -
  obtain m where "dot_fl rnd32 a a = Fin m" using assms(2) by (cases "dot_fl rnd32 a a") auto
  then obtain s where "fround rnd32 (fsqrt (dot_fl rnd32 a a)) = Fin s" using root_fin by blast
  then show ?thesis by (simp add: denom_fl_def sqnorm_zero[OF assms(1)] rnd32_0)
qed

subsection \<open>Rounding error of a vector against itself\<close>













section \<open>Claims about the sequence aligner\<close>

text \<open>
  The theorems of this section are about the functions in the arithmetic of the program
  (\<open>cosineSimilarity_fl\<close>, \<open>dtw_table_fl\<close>, \<open>computeDTW_fl\<close> with \<open>rnd32\<close>), for feature
  vectors whose components are any float values.  Where a theorem speaks of exact
  arithmetic it is about the same functions with \<open>Fin\<close> for the rounding, on finite values.
\<close>

text \<open>
  C1. For non-empty feature sequences \<open>seq1\<close> (length \<open>len1\<close>) and \<open>seq2\<close> (length \<open>len2\<close>),
  the table \<open>dp\<close> that \<open>computeDTW\<close> has filled is the \<open>(len1+1) \<times> (len2+1)\<close> matrix with
  \<open>dp[0][0] = 0\<close>, every other cell of row 0 and of column 0 equal to \<open>+infinity\<close>, and
  \<open>dp[i][j] = (1 - cosineSimilarity(seq1[i-1], seq2[j-1])) + min(dp[i-1][j], dp[i][j-1], dp[i-1][j-1])\<close>
  for \<open>1 \<le> i \<le> len1\<close> and \<open>1 \<le> j \<le> len2\<close>; the minimum is one of the three cells, none of
  the three compares less than it, and it is below or equal to each of them when none of
  them is not-a-number.  The table is the cost matrix \<open>dtw_cell_fl\<close> of the specification,
  and \<open>computeDTW\<close> returns \<open>1 - dp[len1][len2] / (len1 + len2)\<close>.  This holds with every
  rounding of the operations, for all values of the components.
\<close>
theorem computeDTW_recurrence:
  assumes "seq1 \<noteq> []" and "seq2 \<noteq> []"
  shows "length (dtw_table_fl rnd seq1 seq2) = length seq1 + 1 \<and>
    (\<forall>i. i \<le> length seq1 \<longrightarrow> length (dtw_table_fl rnd seq1 seq2 ! i) = length seq2 + 1) \<and>
    dtw_table_fl rnd seq1 seq2 ! 0 ! 0 = Fin 0 \<and>
    (\<forall>j. 1 \<le> j \<and> j \<le> length seq2 \<longrightarrow> dtw_table_fl rnd seq1 seq2 ! 0 ! j = PInf) \<and>
    (\<forall>i. 1 \<le> i \<and> i \<le> length seq1 \<longrightarrow> dtw_table_fl rnd seq1 seq2 ! i ! 0 = PInf) \<and>
    (\<forall>i j. 1 \<le> i \<and> i \<le> length seq1 \<and> 1 \<le> j \<and> j \<le> length seq2 \<longrightarrow>
       (\<exists>m. dtw_table_fl rnd seq1 seq2 ! i ! j =
              fround rnd (fadd (fround rnd (fsub (Fin 1)
                 (cosineSimilarity_fl rnd (seq1 ! (i - 1)) (seq2 ! (j - 1))))) m) \<and>
            m = min3 (dtw_table_fl rnd seq1 seq2 ! (i - 1) ! j) (dtw_table_fl rnd seq1 seq2 ! i ! (j - 1))
                  (dtw_table_fl rnd seq1 seq2 ! (i - 1) ! (j - 1)) \<and>
            (m = dtw_table_fl rnd seq1 seq2 ! (i - 1) ! j \<or> m = dtw_table_fl rnd seq1 seq2 ! i ! (j - 1) \<or>
             m = dtw_table_fl rnd seq1 seq2 ! (i - 1) ! (j - 1)) \<and>
            \<not> fless (dtw_table_fl rnd seq1 seq2 ! (i - 1) ! j) m \<and>
            \<not> fless (dtw_table_fl rnd seq1 seq2 ! i ! (j - 1)) m \<and>
            \<not> fless (dtw_table_fl rnd seq1 seq2 ! (i - 1) ! (j - 1)) m \<and>
            (dtw_table_fl rnd seq1 seq2 ! (i - 1) ! j \<noteq> NaN \<and> dtw_table_fl rnd seq1 seq2 ! i ! (j - 1) \<noteq> NaN \<and>
             dtw_table_fl rnd seq1 seq2 ! (i - 1) ! (j - 1) \<noteq> NaN \<longrightarrow>
               fle m (dtw_table_fl rnd seq1 seq2 ! (i - 1) ! j) \<and> fle m (dtw_table_fl rnd seq1 seq2 ! i ! (j - 1)) \<and>
               fle m (dtw_table_fl rnd seq1 seq2 ! (i - 1) ! (j - 1))))) \<and>
    (\<forall>i j. i \<le> length seq1 \<and> j \<le> length seq2 \<longrightarrow>
       dtw_table_fl rnd seq1 seq2 ! i ! j = dtw_cell_fl rnd seq1 seq2 i j) \<and>
    computeDTW_fl rnd seq1 seq2 =
      fround rnd (fsub (Fin 1) (fround rnd
        (fdiv (dtw_table_fl rnd seq1 seq2 ! length seq1 ! length seq2) (rnd (real (length seq1 + length seq2))))))"
proof -
  let ?dp = "dtw_table_fl rnd seq1 seq2"
  have dims: "length ?dp = length seq1 + 1"
    "\<And>i. i \<le> length seq1 \<Longrightarrow> length (?dp ! i) = length seq2 + 1"
    using dtw_table_fl_dims[of seq1 seq2 rnd] by (auto simp: dtw_dims_fl_def)
  have origin: "?dp ! 0 ! 0 = Fin 0"
    by (simp add: dtw_table_fl_cell)
  have row0: "?dp ! 0 ! j = PInf" if "1 \<le> j \<and> j \<le> length seq2" for j
    using that by (cases j) (simp_all add: dtw_table_fl_cell)
  have col0: "?dp ! i ! 0 = PInf" if "1 \<le> i \<and> i \<le> length seq1" for i
    using that by (cases i) (simp_all add: dtw_table_fl_cell)
  have inner: "\<exists>m. ?dp ! i ! j =
              fround rnd (fadd (fround rnd (fsub (Fin 1)
                 (cosineSimilarity_fl rnd (seq1 ! (i - 1)) (seq2 ! (j - 1))))) m) \<and>
            m = min3 (?dp ! (i - 1) ! j) (?dp ! i ! (j - 1)) (?dp ! (i - 1) ! (j - 1)) \<and>
            (m = ?dp ! (i - 1) ! j \<or> m = ?dp ! i ! (j - 1) \<or> m = ?dp ! (i - 1) ! (j - 1)) \<and>
            \<not> fless (?dp ! (i - 1) ! j) m \<and> \<not> fless (?dp ! i ! (j - 1)) m \<and>
            \<not> fless (?dp ! (i - 1) ! (j - 1)) m \<and>
            (?dp ! (i - 1) ! j \<noteq> NaN \<and> ?dp ! i ! (j - 1) \<noteq> NaN \<and> ?dp ! (i - 1) ! (j - 1) \<noteq> NaN \<longrightarrow>
               fle m (?dp ! (i - 1) ! j) \<and> fle m (?dp ! i ! (j - 1)) \<and> fle m (?dp ! (i - 1) ! (j - 1)))"
    if ij: "1 \<le> i \<and> i \<le> length seq1 \<and> 1 \<le> j \<and> j \<le> length seq2" for i j
  proof -
    obtain i' j' where s: "i = Suc i'" "j = Suc j'"
      using ij by (cases i; cases j) auto
    let ?m = "min3 (?dp ! (i - 1) ! j) (?dp ! i ! (j - 1)) (?dp ! (i - 1) ! (j - 1))"
    have a: "?dp ! (i - 1) ! j = dtw_cell_fl rnd seq1 seq2 i' (Suc j')"
      and b: "?dp ! i ! (j - 1) = dtw_cell_fl rnd seq1 seq2 (Suc i') j'"
      and c: "?dp ! (i - 1) ! (j - 1) = dtw_cell_fl rnd seq1 seq2 i' j'"
      and d: "?dp ! i ! j = dtw_cell_fl rnd seq1 seq2 (Suc i') (Suc j')"
      using ij s by (simp_all add: dtw_table_fl_cell)
    have v: "?dp ! i ! j = fround rnd (fadd (fround rnd (fsub (Fin 1)
                 (cosineSimilarity_fl rnd (seq1 ! (i - 1)) (seq2 ! (j - 1))))) ?m)"
      unfolding a b c d by (simp add: s step_cost_def)
    show ?thesis
    proof (intro exI[of _ ?m] conjI)
      show "?dp ! i ! j = fround rnd (fadd (fround rnd (fsub (Fin 1)
                 (cosineSimilarity_fl rnd (seq1 ! (i - 1)) (seq2 ! (j - 1))))) ?m)" by (rule v)
      show "?m = ?m" by (rule refl)
      show "?m = ?dp ! (i - 1) ! j \<or> ?m = ?dp ! i ! (j - 1) \<or> ?m = ?dp ! (i - 1) ! (j - 1)"
        by (rule min3_mem)
      show "\<not> fless (?dp ! (i - 1) ! j) ?m" "\<not> fless (?dp ! i ! (j - 1)) ?m"
        "\<not> fless (?dp ! (i - 1) ! (j - 1)) ?m"
        using min3_not_less[of "?dp ! (i - 1) ! j" "?dp ! i ! (j - 1)" "?dp ! (i - 1) ! (j - 1)"] by simp_all
      show "?dp ! (i - 1) ! j \<noteq> NaN \<and> ?dp ! i ! (j - 1) \<noteq> NaN \<and> ?dp ! (i - 1) ! (j - 1) \<noteq> NaN \<longrightarrow>
               fle ?m (?dp ! (i - 1) ! j) \<and> fle ?m (?dp ! i ! (j - 1)) \<and> fle ?m (?dp ! (i - 1) ! (j - 1))"
        using min3_lower[of "?dp ! (i - 1) ! j" "?dp ! i ! (j - 1)" "?dp ! (i - 1) ! (j - 1)"] by blast
    qed
  qed
  have cells: "?dp ! i ! j = dtw_cell_fl rnd seq1 seq2 i j" if "i \<le> length seq1 \<and> j \<le> length seq2" for i j
    using that by (simp add: dtw_table_fl_cell)
  have score: "computeDTW_fl rnd seq1 seq2 =
      fround rnd (fsub (Fin 1) (fround rnd (fdiv (?dp ! length seq1 ! length seq2) (rnd (real (length seq1 + length seq2))))))"
    by (simp add: computeDTW_fl_def Let_def)
  show ?thesis
  proof (intro conjI allI impI)
    show "length ?dp = length seq1 + 1" by (rule dims)
  next
    fix i assume "i \<le> length seq1"
    then show "length (?dp ! i) = length seq2 + 1" by (rule dims)
  next
    show "?dp ! 0 ! 0 = Fin 0" by (rule origin)
  next
    fix j assume "1 \<le> j \<and> j \<le> length seq2"
    then show "?dp ! 0 ! j = PInf" by (rule row0)
  next
    fix i assume "1 \<le> i \<and> i \<le> length seq1"
    then show "?dp ! i ! 0 = PInf" by (rule col0)
  next
    fix i j assume "1 \<le> i \<and> i \<le> length seq1 \<and> 1 \<le> j \<and> j \<le> length seq2"
    then show "\<exists>m. ?dp ! i ! j =
              fround rnd (fadd (fround rnd (fsub (Fin 1)
                 (cosineSimilarity_fl rnd (seq1 ! (i - 1)) (seq2 ! (j - 1))))) m) \<and>
            m = min3 (?dp ! (i - 1) ! j) (?dp ! i ! (j - 1)) (?dp ! (i - 1) ! (j - 1)) \<and>
            (m = ?dp ! (i - 1) ! j \<or> m = ?dp ! i ! (j - 1) \<or> m = ?dp ! (i - 1) ! (j - 1)) \<and>
            \<not> fless (?dp ! (i - 1) ! j) m \<and> \<not> fless (?dp ! i ! (j - 1)) m \<and>
            \<not> fless (?dp ! (i - 1) ! (j - 1)) m \<and>
            (?dp ! (i - 1) ! j \<noteq> NaN \<and> ?dp ! i ! (j - 1) \<noteq> NaN \<and> ?dp ! (i - 1) ! (j - 1) \<noteq> NaN \<longrightarrow>
               fle m (?dp ! (i - 1) ! j) \<and> fle m (?dp ! i ! (j - 1)) \<and> fle m (?dp ! (i - 1) ! (j - 1)))"
      by (rule inner)
  next
    fix i j assume "i \<le> length seq1 \<and> j \<le> length seq2"
    then show "?dp ! i ! j = dtw_cell_fl rnd seq1 seq2 i j" by (rule cells)
  next
    show "computeDTW_fl rnd seq1 seq2 =
      fround rnd (fsub (Fin 1) (fround rnd (fdiv (?dp ! length seq1 ! length seq2) (rnd (real (length seq1 + length seq2))))))"
      by (rule score)
  qed
qed

text \<open>
  The sequences \<open>[[1, 0], [0, 1]]\<close> and \<open>[[1, 0], [1, 0]]\<close>: the step costs are 0, 0, 1 and 1;
  \<open>dp[2][2]\<close> is the cost 1 plus the minimum 0 of \<open>dp[1][2] = 0\<close>, \<open>dp[2][1] = 1\<close> and
  \<open>dp[1][1] = 0\<close>, and the score is \<open>1 - 1/4\<close>.
\<close>
theorem computeDTW_recurrence_witness:
  "[[Fin 1, Fin 0], [Fin 0, Fin 1]] \<noteq> [] \<and> [[Fin 1, Fin 0], [Fin 1, Fin 0]] \<noteq> [] \<and>
   dtw_table_fl rnd32 [[Fin 1, Fin 0], [Fin 0, Fin 1]] [[Fin 1, Fin 0], [Fin 1, Fin 0]] ! 0 ! 0 = Fin 0 \<and>
   dtw_table_fl rnd32 [[Fin 1, Fin 0], [Fin 0, Fin 1]] [[Fin 1, Fin 0], [Fin 1, Fin 0]] ! 0 ! 2 = PInf \<and>
   dtw_table_fl rnd32 [[Fin 1, Fin 0], [Fin 0, Fin 1]] [[Fin 1, Fin 0], [Fin 1, Fin 0]] ! 1 ! 1 = Fin 0 \<and>
   dtw_table_fl rnd32 [[Fin 1, Fin 0], [Fin 0, Fin 1]] [[Fin 1, Fin 0], [Fin 1, Fin 0]] ! 1 ! 2 = Fin 0 \<and>
   dtw_table_fl rnd32 [[Fin 1, Fin 0], [Fin 0, Fin 1]] [[Fin 1, Fin 0], [Fin 1, Fin 0]] ! 2 ! 1 = Fin 1 \<and>
   dtw_table_fl rnd32 [[Fin 1, Fin 0], [Fin 0, Fin 1]] [[Fin 1, Fin 0], [Fin 1, Fin 0]] ! 2 ! 2 = Fin 1 \<and>
   computeDTW_fl rnd32 [[Fin 1, Fin 0], [Fin 0, Fin 1]] [[Fin 1, Fin 0], [Fin 1, Fin 0]] = Fin (3 / 4)"
proof -
  let ?s1 = "[[Fin 1, Fin 0], [Fin 0, Fin 1]]" and ?s2 = "[[Fin 1, Fin 0], [Fin 1, Fin 0]]"
  let ?dp = "dtw_table_fl rnd32 ?s1 ?s2"
  have ne: "?s1 \<noteq> []" "?s2 \<noteq> []" by simp_all
  note r = computeDTW_recurrence[OF ne, of rnd32]
  have o: "?dp ! 0 ! 0 = Fin 0" using r by (elim conjE)
  have row: "\<forall>j. 1 \<le> j \<and> j \<le> length ?s2 \<longrightarrow> ?dp ! 0 ! j = PInf" using r by (elim conjE)
  have col: "\<forall>i. 1 \<le> i \<and> i \<le> length ?s1 \<longrightarrow> ?dp ! i ! 0 = PInf" using r by (elim conjE)
  have rec: "\<forall>i j. 1 \<le> i \<and> i \<le> length ?s1 \<and> 1 \<le> j \<and> j \<le> length ?s2 \<longrightarrow>
       (\<exists>m. ?dp ! i ! j = fround rnd32 (fadd (fround rnd32 (fsub (Fin 1)
                 (cosineSimilarity_fl rnd32 (?s1 ! (i - 1)) (?s2 ! (j - 1))))) m) \<and>
            m = min3 (?dp ! (i - 1) ! j) (?dp ! i ! (j - 1)) (?dp ! (i - 1) ! (j - 1)))"
    using r by (elim conjE) blast
  have sc: "computeDTW_fl rnd32 ?s1 ?s2 =
      fround rnd32 (fsub (Fin 1) (fround rnd32 (fdiv (?dp ! length ?s1 ! length ?s2) (rnd32 (real (length ?s1 + length ?s2))))))"
    using r by (elim conjE)
  have r01: "?dp ! 0 ! 1 = PInf" and r02: "?dp ! 0 ! 2 = PInf" using row by simp_all
  have c10: "?dp ! 1 ! 0 = PInf" and c20: "?dp ! 2 ! 0 = PInf" using col by simp_all
  have c11: "?dp ! 1 ! 1 = Fin 0"
    using rec[rule_format, of 1 1] o r01 c10
    by (simp add: cos_fl_unit fsub_def min3_def rnd32_vals)
  have c12: "?dp ! 1 ! 2 = Fin 0"
    using rec[rule_format, of 1 2] r01 r02 c11
    by (simp add: cos_fl_unit fsub_def min3_def rnd32_vals)
  have c21: "?dp ! 2 ! 1 = Fin 1"
    using rec[rule_format, of 2 1] c10 c20 c11
    by (simp add: cos_fl_orth fsub_def min3_def rnd32_vals)
  have c22: "?dp ! 2 ! 2 = Fin 1"
    using rec[rule_format, of 2 2] c11 c12 c21
    by (simp add: cos_fl_orth fsub_def min3_def rnd32_vals)
  have s: "computeDTW_fl rnd32 ?s1 ?s2 = Fin (3 / 4)"
    using sc c22 by (simp add: fsub_def rnd32_vals numeral_2_eq_2)
  show ?thesis using ne o r02 c11 c12 c21 c22 s by (intro conjI)
qed




text \<open>
  C5, as stated, fails.  When the squares of a vector overflow, its similarity with itself is
  \<open>infinity / infinity\<close>, not-a-number, and so is the step cost.  \<^verbatim>\<open>std::min\<close> returns a
  not-a-number that is its first argument and passes over one that is a later argument, so
  the table of \<open>(seq1, seq2)\<close> is no longer the transpose of the table of \<open>(seq2, seq1)\<close>:
  for \<open>[[2\<^sup>1\<^sup>0\<^sup>0], [1]]\<close> and \<open>[[2\<^sup>1\<^sup>0\<^sup>0]]\<close> the score is not-a-number in one order and
  \<open>-infinity\<close> in the other.
\<close>
theorem computeDTW_order_counterexample:
  "[[Fin huge], [Fin 1]] \<noteq> [] \<and> [[Fin huge]] \<noteq> [] \<and>
   cosineSimilarity_fl rnd32 [Fin huge] [Fin huge] = NaN \<and>
   computeDTW_fl rnd32 [[Fin huge], [Fin 1]] [[Fin huge]] = NaN \<and>
   computeDTW_fl rnd32 [[Fin huge]] [[Fin huge], [Fin 1]] = NInf"
  by (simp add: cos_fl_huge computeDTW_fl_nan_left computeDTW_fl_nan_right)

text \<open>
  C5, amended.  For non-empty feature sequences (of total length below \<open>2\<^sup>3\<^sup>1\<close>) such
  that every step cost \<open>1 - cosineSimilarity(seq1[i], seq2[j])\<close> is a finite number, the
  table of \<open>(seq2, seq1)\<close> is the transpose of the table of \<open>(seq1, seq2)\<close>,
  \<open>computeDTW(seq1, seq2)\<close> equals \<open>computeDTW(seq2, seq1)\<close>, and the score is a number.
  The cosine similarity is symmetric in its two arguments for all vectors.  In exact
  arithmetic every step cost is finite and the two scores are equal for all sequences.
\<close>
theorem computeDTW_symmetric:
  assumes "seq1 \<noteq> []" and "seq2 \<noteq> []" and "length seq1 + length seq2 < 2 ^ 31"
    and "\<forall>i < length seq1. \<forall>j < length seq2. is_fin (step_cost rnd32 (seq1 ! i) (seq2 ! j))"
  shows "(\<forall>i j. i \<le> length seq1 \<and> j \<le> length seq2 \<longrightarrow>
            dtw_table_fl rnd32 seq1 seq2 ! i ! j = dtw_table_fl rnd32 seq2 seq1 ! j ! i) \<and>
    computeDTW_fl rnd32 seq1 seq2 = computeDTW_fl rnd32 seq2 seq1 \<and>
    computeDTW_fl rnd32 seq1 seq2 \<noteq> NaN \<and>
    (\<forall>a b. cosineSimilarity_fl rnd32 a b = cosineSimilarity_fl rnd32 b a) \<and>
    (\<forall>s1 s2. computeDTW_fl Fin (map (map Fin) s1) (map (map Fin) s2) =
              computeDTW_fl Fin (map (map Fin) s2) (map (map Fin) s1))"
proof -
  have tr: "dtw_cell_fl rnd32 seq1 seq2 i j = dtw_cell_fl rnd32 seq2 seq1 j i"
    if "i \<le> length seq1" "j \<le> length seq2" for i j
    using dtw_cell_fl_transpose[OF assms(4) that] .
  have eq: "computeDTW_fl rnd32 seq1 seq2 = computeDTW_fl rnd32 seq2 seq1"
    by (simp add: computeDTW_fl_cell tr add.commute)
  have n: "1 \<le> length seq1 + length seq2" using assms(1) by (cases seq1) simp_all
  obtain r where r: "rnd32 (real (length seq1 + length seq2)) = Fin r" "1 \<le> r"
    using rnd32_count_fin[OF n assms(3)] by blast
  have c: "dtw_cell_fl rnd32 seq1 seq2 (length seq1) (length seq2) \<noteq> NaN"
    by (intro dtw_cell_fl_num[OF assms(4)]) simp_all
  have q: "fround rnd32 (fdiv (dtw_cell_fl rnd32 seq1 seq2 (length seq1) (length seq2)) (Fin r)) \<noteq> NaN"
    using c r(2) by (intro fround_rnd32_num) (cases "dtw_cell_fl rnd32 seq1 seq2 (length seq1) (length seq2)"; simp)
  have "fsub (Fin 1) (fround rnd32 (fdiv (dtw_cell_fl rnd32 seq1 seq2 (length seq1) (length seq2)) (Fin r))) \<noteq> NaN"
    using q by (cases "fround rnd32 (fdiv (dtw_cell_fl rnd32 seq1 seq2 (length seq1) (length seq2)) (Fin r))")
      (simp_all add: fsub_def)
  then have num: "computeDTW_fl rnd32 seq1 seq2 \<noteq> NaN"
    unfolding computeDTW_fl_cell r(1) by (rule fround_rnd32_num)
  show ?thesis
  proof (intro conjI allI impI)
    fix i j assume "i \<le> length seq1 \<and> j \<le> length seq2"
    then show "dtw_table_fl rnd32 seq1 seq2 ! i ! j = dtw_table_fl rnd32 seq2 seq1 ! j ! i"
      by (simp add: dtw_table_fl_cell tr)
  next
    show "computeDTW_fl rnd32 seq1 seq2 = computeDTW_fl rnd32 seq2 seq1" by (rule eq)
  next
    show "computeDTW_fl rnd32 seq1 seq2 \<noteq> NaN" by (rule num)
  next
    fix a b show "cosineSimilarity_fl rnd32 a b = cosineSimilarity_fl rnd32 b a"
      by (rule cosineSimilarity_fl_commute)
  next
    fix s1 s2 :: "real list list"
    show "computeDTW_fl Fin (map (map Fin) s1) (map (map Fin) s2) =
          computeDTW_fl Fin (map (map Fin) s2) (map (map Fin) s1)"
      by (simp add: computeDTW_fl_exact computeDTW_commute[of s1 s2])
  qed
qed

theorem computeDTW_symmetric_witness:
  "[[Fin 1], [Fin 1], [Fin 1]] \<noteq> [] \<and> [[Fin (- 1)]] \<noteq> [] \<and>
   step_cost rnd32 [Fin 1] [Fin (- 1)] = Fin 2 \<and>
   computeDTW_fl rnd32 [[Fin 1], [Fin 1], [Fin 1]] [[Fin (- 1)]] = Fin (- (1 / 2)) \<and>
   computeDTW_fl rnd32 [[Fin (- 1)]] [[Fin 1], [Fin 1], [Fin 1]] = Fin (- (1 / 2))"
proof -
  let ?s1 = "[[Fin 1], [Fin 1], [Fin 1]]" and ?s2 = "[[Fin (- 1)]]"
  have ne: "?s1 \<noteq> []" "?s2 \<noteq> []" by simp_all
  have small: "length ?s1 + length ?s2 < 2 ^ 31" by simp
  have c: "step_cost rnd32 [Fin 1] [Fin (- 1)] = Fin 2"
    by (simp add: step_cost_def cos_fl_opposite fsub_def rnd32_vals)
  have fin: "\<forall>i < length ?s1. \<forall>j < length ?s2. is_fin (step_cost rnd32 (?s1 ! i) (?s2 ! j))"
    by (simp add: c nth_Cons')
  have l: "computeDTW_fl rnd32 ?s1 ?s2 = Fin (- (1 / 2))" by (rule computeDTW_fl_below_zero)
  from computeDTW_symmetric[OF ne small fin]
  have "computeDTW_fl rnd32 ?s1 ?s2 = computeDTW_fl rnd32 ?s2 ?s1" by (elim conjE)
  with l have "computeDTW_fl rnd32 ?s2 ?s1 = Fin (- (1 / 2))" by simp
  with ne c l show ?thesis by (intro conjI)
qed

text \<open>
  C6, as stated, fails in the arithmetic of the program.  The bound rests on the cosine
  similarity being at most 1, which holds for the exact quotient and not for the computed
  one.  For the vector \<open>[1, 1]\<close> the dot product and the two squared norms are 2; the square
  root of 2 is rounded to 1.41421354 and the product of the two roots to 1.99999988, below the
  dot product, so the similarity of the vector with itself is \<open>1 + 2\<^sup>-\<^sup>2\<^sup>3\<close> and the step cost
  is \<open>- 2\<^sup>-\<^sup>2\<^sup>3\<close>.  For the sequence \<open>[[1, 1], [1, 1]]\<close> against itself \<open>dp[2][2]\<close> is
  \<open>- 3 / 2\<^sup>2\<^sup>3\<close>, a negative number, and the score is \<open>1 + 2\<^sup>-\<^sup>2\<^sup>3\<close>, which is 1.00000012.
  The excess is not confined to the last digit: the squared norm of \<open>[17 / 2\<^sup>7\<^sup>8]\<close> underflows
  gradually to \<open>2\<^sup>-\<^sup>1\<^sup>4\<^sup>8\<close>, its similarity with \<open>[1]\<close> is computed as \<open>17 / 16\<close>, and the score
  of \<open>[[17 / 2\<^sup>7\<^sup>8]]\<close> against \<open>[[1]]\<close> is \<open>33 / 32\<close>, which is 1.03125.
\<close>
theorem computeDTW_rounded_above_one_counterexample:
  "[[Fin 1, Fin 1], [Fin 1, Fin 1]] \<noteq> [] \<and>
   cosineSimilarity_fl rnd32 [Fin 1, Fin 1] [Fin 1, Fin 1] = Fin (1 + 1 / 2 ^ 23) \<and>
   step_cost rnd32 [Fin 1, Fin 1] [Fin 1, Fin 1] = Fin (- (1 / 2 ^ 23)) \<and>
   dtw_table_fl rnd32 [[Fin 1, Fin 1], [Fin 1, Fin 1]] [[Fin 1, Fin 1], [Fin 1, Fin 1]] ! 2 ! 2 = Fin (- (3 / 2 ^ 23)) \<and>
   computeDTW_fl rnd32 [[Fin 1, Fin 1], [Fin 1, Fin 1]] [[Fin 1, Fin 1], [Fin 1, Fin 1]] = Fin (1 + 1 / 2 ^ 23) \<and>
   fless (Fin 1) (computeDTW_fl rnd32 [[Fin 1, Fin 1], [Fin 1, Fin 1]] [[Fin 1, Fin 1], [Fin 1, Fin 1]]) \<and>
   faint = 17 / 2 ^ 78 \<and>
   cosineSimilarity_fl rnd32 [Fin faint] [Fin 1] = Fin (17 / 16) \<and>
   computeDTW_fl rnd32 [[Fin faint]] [[Fin 1]] = Fin (33 / 32)"
proof -
  have "faint = 17 / 2 ^ 78" by (simp add: faint_def)
  then show ?thesis
    by (simp add: cos_fl_ones computeDTW_fl_ones dtw_table_fl_cell dtw_cell_fl_ones step_cost_def fsub_def
        rnd32_vals cos_fl_faint computeDTW_fl_faint)
qed

text \<open>
  C6, amended.  For non-empty feature sequences (of total length below \<open>2\<^sup>3\<^sup>1\<close>), the score
  does not exceed 1 whenever every computed \<open>cosineSimilarity(seq1[i], seq2[j])\<close> compares
  less than or equal to 1 (so none is not-a-number): then every step cost \<open>1 - cosineSimilarity\<close> is not negative, \<open>dp[len1][len2]\<close> is not negative
  and \<open>1 - dp[len1][len2] / (len1 + len2) \<le> 1\<close>.  In exact arithmetic that is always so:
  every cosine similarity lies in \<open>[-1, 1]\<close>, every step cost in \<open>[0, 2]\<close>, and the score of
  non-empty sequences never exceeds 1.  In the arithmetic of the program some pair of
  non-empty sequences scores more than 1, by more than a rounding error (1.03125 or more),
  and some pair scores less than 0.
\<close>
theorem computeDTW_le_one:
  assumes "seq1 \<noteq> []" and "seq2 \<noteq> []" and "length seq1 + length seq2 < 2 ^ 31"
    and "\<forall>i < length seq1. \<forall>j < length seq2. fle (cosineSimilarity_fl rnd32 (seq1 ! i) (seq2 ! j)) (Fin 1)"
  shows "(\<forall>i j. i < length seq1 \<and> j < length seq2 \<longrightarrow> fle (Fin 0) (step_cost rnd32 (seq1 ! i) (seq2 ! j))) \<and>
    fle (Fin 0) (dtw_table_fl rnd32 seq1 seq2 ! length seq1 ! length seq2) \<and>
    fle (computeDTW_fl rnd32 seq1 seq2) (Fin 1) \<and>
    (\<forall>a b. cosineSimilarity_fl Fin (map Fin a) (map Fin b) = Fin (cosineSimilarity a b) \<and>
           step_cost Fin (map Fin a) (map Fin b) = Fin (1 - cosineSimilarity a b) \<and>
           - 1 \<le> cosineSimilarity a b \<and> cosineSimilarity a b \<le> 1 \<and>
           0 \<le> 1 - cosineSimilarity a b \<and> 1 - cosineSimilarity a b \<le> 2) \<and>
    (\<forall>s1 s2. s1 \<noteq> [] \<and> s2 \<noteq> [] \<longrightarrow>
        fle (Fin 0) (dtw_table_fl Fin (map (map Fin) s1) (map (map Fin) s2) ! length s1 ! length s2) \<and>
        fle (computeDTW_fl Fin (map (map Fin) s1) (map (map Fin) s2)) (Fin 1)) \<and>
    (\<exists>s1 s2. s1 \<noteq> [] \<and> s2 \<noteq> [] \<and> fle (Fin (33 / 32)) (computeDTW_fl rnd32 s1 s2)) \<and>
    (\<exists>s1 s2. s1 \<noteq> [] \<and> s2 \<noteq> [] \<and> fless (computeDTW_fl rnd32 s1 s2) (Fin 0))"
proof -
  have costs: "fle (Fin 0) (step_cost rnd32 (seq1 ! i) (seq2 ! j))"
    if "i < length seq1 \<and> j < length seq2" for i j
    using assms(4) that step_cost_nonneg[of "seq1 ! i" "seq2 ! j"] by (simp add: is_cost_iff)
  have cell: "fle (Fin 0) (dtw_table_fl rnd32 seq1 seq2 ! length seq1 ! length seq2)"
    using computeDTW_fl_bound(1)[OF assms] by (simp add: dtw_table_fl_cell is_cost_iff)
  have score: "fle (computeDTW_fl rnd32 seq1 seq2) (Fin 1)"
    by (rule computeDTW_fl_bound(2)[OF assms])
  have exact: "cosineSimilarity_fl Fin (map Fin a) (map Fin b) = Fin (cosineSimilarity a b) \<and>
           step_cost Fin (map Fin a) (map Fin b) = Fin (1 - cosineSimilarity a b) \<and>
           - 1 \<le> cosineSimilarity a b \<and> cosineSimilarity a b \<le> 1 \<and>
           0 \<le> 1 - cosineSimilarity a b \<and> 1 - cosineSimilarity a b \<le> 2" for a b
    using cosineSimilarity_bounds[of a b] by (simp add: cosineSimilarity_fl_exact step_cost_exact)
  have escore: "fle (Fin 0) (dtw_table_fl Fin (map (map Fin) s1) (map (map Fin) s2) ! length s1 ! length s2) \<and>
        fle (computeDTW_fl Fin (map (map Fin) s1) (map (map Fin) s2)) (Fin 1)"
    if "s1 \<noteq> [] \<and> s2 \<noteq> []" for s1 s2 :: "real list list"
  proof -
    from that have ne1: "s1 \<noteq> []" and ne2: "s2 \<noteq> []" by simp_all
    obtain r where r: "dtw_cell s1 s2 (length s1) (length s2) = Fin r" "0 \<le> r"
      "computeDTW s1 s2 = Fin (1 - r / real (length s1 + length s2))"
      using computeDTW_fin[OF ne1 ne2] by blast
    have "0 \<le> r / real (length s1 + length s2)" using r(2) by simp
    then have "fle (computeDTW s1 s2) (Fin 1)" using r(3) by simp
    moreover have "dtw_table_fl Fin (map (map Fin) s1) (map (map Fin) s2) ! length s1 ! length s2 = Fin r"
      using dtw_table_fl_cell[of "length s1" "map (map Fin) s1" "length s2" "map (map Fin) s2" Fin]
      by (simp add: dtw_cell_fl_exact r(1))
    ultimately show ?thesis using r(2) by (simp add: computeDTW_fl_exact)
  qed
  have "[[Fin faint]] \<noteq> [] \<and> [[Fin 1]] \<noteq> [] \<and>
        fle (Fin (33 / 32)) (computeDTW_fl rnd32 [[Fin faint]] [[Fin 1]])"
    by (simp add: computeDTW_fl_faint)
  then have above: "\<exists>s1 s2. s1 \<noteq> [] \<and> s2 \<noteq> [] \<and> fle (Fin (33 / 32)) (computeDTW_fl rnd32 s1 s2)" by blast
  have "[[Fin 1], [Fin 1], [Fin 1]] \<noteq> [] \<and> [[Fin (- 1)]] \<noteq> [] \<and>
        fless (computeDTW_fl rnd32 [[Fin 1], [Fin 1], [Fin 1]] [[Fin (- 1)]]) (Fin 0)"
    by (simp add: computeDTW_fl_below_zero)
  then have below: "\<exists>s1 s2. s1 \<noteq> [] \<and> s2 \<noteq> [] \<and> fless (computeDTW_fl rnd32 s1 s2) (Fin 0)" by blast
  show ?thesis
  proof (intro conjI allI impI)
    fix i j assume "i < length seq1 \<and> j < length seq2"
    then show "fle (Fin 0) (step_cost rnd32 (seq1 ! i) (seq2 ! j))" by (rule costs)
  next
    fix s1 s2 :: "real list list" assume h: "s1 \<noteq> [] \<and> s2 \<noteq> []"
    show "fle (Fin 0) (dtw_table_fl Fin (map (map Fin) s1) (map (map Fin) s2) ! length s1 ! length s2)"
      using escore[OF h] by (elim conjE)
    show "fle (computeDTW_fl Fin (map (map Fin) s1) (map (map Fin) s2)) (Fin 1)"
      using escore[OF h] by (elim conjE)
  qed (use cell score exact above below in blast)+
qed

theorem computeDTW_le_one_witness:
  "[[Fin 1], [Fin 1], [Fin 1]] \<noteq> [] \<and> [[Fin (- 1)]] \<noteq> [] \<and>
   cosineSimilarity_fl rnd32 [Fin 1] [Fin (- 1)] = Fin (- 1) \<and>
   fle (computeDTW_fl rnd32 [[Fin 1], [Fin 1], [Fin 1]] [[Fin (- 1)]]) (Fin 1) \<and>
   computeDTW_fl rnd32 [[Fin 1], [Fin 1], [Fin 1]] [[Fin (- 1)]] = Fin (- (1 / 2))"
proof -
  let ?s1 = "[[Fin 1], [Fin 1], [Fin 1]]" and ?s2 = "[[Fin (- 1)]]"
  have ne: "?s1 \<noteq> []" "?s2 \<noteq> []" by simp_all
  have small: "length ?s1 + length ?s2 < 2 ^ 31" by simp
  have le: "\<forall>i < length ?s1. \<forall>j < length ?s2. fle (cosineSimilarity_fl rnd32 (?s1 ! i) (?s2 ! j)) (Fin 1)"
    by (simp add: cos_fl_opposite nth_Cons')
  from computeDTW_le_one[OF ne small le]
  have "fle (computeDTW_fl rnd32 ?s1 ?s2) (Fin 1)" by (elim conjE)
  with ne show ?thesis by (simp add: cos_fl_opposite computeDTW_fl_below_zero)
qed

text \<open>
  C7, as stated, fails in the arithmetic of the program.  A zero vector against a vector
  whose squared norm overflows gives the denominator \<open>0 * infinity\<close>, not-a-number, which
  does not compare equal to zero, and the result is not-a-number instead of 0.  A vector
  that is not zero but whose squares underflow has the computed norm 0, and the result is 0
  instead of the quotient, which is 1 for the vector with itself.
\<close>
theorem cosineSimilarity_zero_norm_counterexample:
  "length [Fin 0] = length [Fin huge] \<and>
   cosineSimilarity_fl rnd32 [Fin 0] [Fin huge] = NaN \<and>
   cosineSimilarity_fl rnd32 [Fin tiny] [Fin tiny] = Fin 0 \<and>
   euclidean_norm [tiny] = tiny \<and> tiny \<noteq> 0 \<and>
   dot_product [tiny] [tiny] / (euclidean_norm [tiny] * euclidean_norm [tiny]) = 1"
  using tiny_pos by (simp add: cos_fl_zero_huge cos_fl_tiny euclidean_norm_def dot_product_def)

text \<open>
  C7, amended.  \<open>cosineSimilarity(a, b)\<close> is exactly 0 when the two vectors differ in
  dimensionality, and exactly 0 when the computed denominator
  \<open>sqrt(norm1) * sqrt(norm2)\<close> is zero, where the quotient would be an infinity or
  not-a-number; the denominator is zero whenever one vector is all zeros and the computed
  squared norm of the other is finite.  In all other cases the result is the computed dot
  product divided by the computed denominator, every operation rounded (the first three
  statements hold with every rounding).  In exact arithmetic the result is 0 when the sizes
  differ or either vector has zero Euclidean norm, and otherwise the dot product divided by
  the product of the Euclidean norms.
\<close>
theorem cosineSimilarity_cases:
  "(length a \<noteq> length b \<longrightarrow> cosineSimilarity_fl rnd a b = Fin 0) \<and>
   (length a = length b \<and> denom_fl rnd a b = Fin 0 \<longrightarrow>
      cosineSimilarity_fl rnd a b = Fin 0 \<and>
      fround rnd (fdiv (dot_fl rnd a b) (denom_fl rnd a b)) \<noteq> Fin 0) \<and>
   (length a = length b \<and> denom_fl rnd a b \<noteq> Fin 0 \<longrightarrow>
      cosineSimilarity_fl rnd a b = fround rnd (fdiv (dot_fl rnd a b) (denom_fl rnd a b))) \<and>
   (length a = length b \<and>
      ((\<forall>x \<in> set a. x = Fin 0) \<and> is_fin (dot_fl rnd32 b b) \<or>
       (\<forall>x \<in> set b. x = Fin 0) \<and> is_fin (dot_fl rnd32 a a)) \<longrightarrow>
      denom_fl rnd32 a b = Fin 0 \<and> cosineSimilarity_fl rnd32 a b = Fin 0) \<and>
   (\<forall>u v. cosineSimilarity_fl Fin (map Fin u) (map Fin v) =
      Fin (if length u \<noteq> length v then 0
           else if euclidean_norm u = 0 \<or> euclidean_norm v = 0 then 0
           else dot_product u v / (euclidean_norm u * euclidean_norm v)))"
proof (intro conjI allI impI)
  assume "length a \<noteq> length b"
  then show "cosineSimilarity_fl rnd a b = Fin 0" by (simp add: cosineSimilarity_fl_eq)
next
  assume h: "length a = length b \<and> denom_fl rnd a b = Fin 0"
  then show "cosineSimilarity_fl rnd a b = Fin 0" by (simp add: cosineSimilarity_fl_eq)
  show "fround rnd (fdiv (dot_fl rnd a b) (denom_fl rnd a b)) \<noteq> Fin 0"
    using h fround_fdiv_by_zero[of rnd "dot_fl rnd a b"] by simp
next
  assume "length a = length b \<and> denom_fl rnd a b \<noteq> Fin 0"
  then show "cosineSimilarity_fl rnd a b = fround rnd (fdiv (dot_fl rnd a b) (denom_fl rnd a b))"
    by (simp add: cosineSimilarity_fl_eq)
next
  assume h: "length a = length b \<and>
      ((\<forall>x \<in> set a. x = Fin 0) \<and> is_fin (dot_fl rnd32 b b) \<or>
       (\<forall>x \<in> set b. x = Fin 0) \<and> is_fin (dot_fl rnd32 a a))"
  then show d: "denom_fl rnd32 a b = Fin 0"
    using denom_fl_zero_left[of a b] denom_fl_zero_right[of b a] by blast
  then show "cosineSimilarity_fl rnd32 a b = Fin 0" using h by (simp add: cosineSimilarity_fl_eq)
next
  fix u v :: "real list"
  show "cosineSimilarity_fl Fin (map Fin u) (map Fin v) =
      Fin (if length u \<noteq> length v then 0
           else if euclidean_norm u = 0 \<or> euclidean_norm v = 0 then 0
           else dot_product u v / (euclidean_norm u * euclidean_norm v))"
    by (simp add: cosineSimilarity_fl_exact cosineSimilarity_eq)
qed

theorem cosineSimilarity_cases_witness:
  "cosineSimilarity_fl rnd32 [Fin 1] [Fin 2, Fin 3] = Fin 0 \<and>
   denom_fl rnd32 [Fin 0, Fin 0] [Fin 1, Fin 0] = Fin 0 \<and>
   cosineSimilarity_fl rnd32 [Fin 0, Fin 0] [Fin 1, Fin 0] = Fin 0 \<and>
   denom_fl rnd32 [Fin 1] [Fin (- 1)] = Fin 1 \<and>
   cosineSimilarity_fl rnd32 [Fin 1] [Fin (- 1)] = Fin (- 1) \<and>
   cosineSimilarity_fl Fin (map Fin [1, 0]) (map Fin [- 2, 0]) = Fin (- 1)"
proof -
  have m: "cosineSimilarity_fl rnd32 [Fin 1] [Fin 2, Fin 3] = Fin 0"
    using cosineSimilarity_cases[of "[Fin 1]" "[Fin 2, Fin 3]" rnd32] by simp
  have n: "dot_fl rnd32 [Fin 1, Fin 0] [Fin 1, Fin 0] = Fin 1"
    by (simp add: dot_fl_def rnd32_vals)
  have z: "denom_fl rnd32 [Fin 0, Fin 0] [Fin 1, Fin 0] = Fin 0 \<and>
      cosineSimilarity_fl rnd32 [Fin 0, Fin 0] [Fin 1, Fin 0] = Fin 0"
    using cosineSimilarity_cases[of "[Fin 0, Fin 0]" "[Fin 1, Fin 0]" rnd32] by (simp add: n)
  have d: "denom_fl rnd32 [Fin 1] [Fin (- 1)] = Fin 1"
    by (simp add: denom_fl_def dot_fl_def rnd32_vals)
  have q: "dot_fl rnd32 [Fin 1] [Fin (- 1)] = Fin (- 1)"
    by (simp add: dot_fl_def rnd32_vals)
  have o: "cosineSimilarity_fl rnd32 [Fin 1] [Fin (- 1)] = Fin (- 1)"
    using cosineSimilarity_cases[of "[Fin 1]" "[Fin (- 1)]" rnd32] by (simp add: d q rnd32_vals)
  have "\<forall>u v. cosineSimilarity_fl Fin (map Fin u) (map Fin v) =
      Fin (if length u \<noteq> length v then 0
           else if euclidean_norm u = 0 \<or> euclidean_norm v = 0 then 0
           else dot_product u v / (euclidean_norm u * euclidean_norm v))"
    using cosineSimilarity_cases[of "[]" "[]" Fin] by (elim conjE)
  from this[rule_format, of "[1, 0]" "[- 2, 0]"]
  have e: "cosineSimilarity_fl Fin (map Fin [1, 0]) (map Fin [- 2, 0]) = Fin (- 1)"
    by (simp add: euclidean_norm_def dot_product_def)
  show ?thesis using m z d o e by (intro conjI) simp_all
qed

subsection \<open>Empty sequences\<close>

text \<open>
  With an empty sequence the loops do not run and no similarity is computed; the theorem is
  about the table and the score of the exact model, which the rounded operations leave as
  they are (\<open>+infinity / n\<close> and \<open>1 - infinity\<close> are not rounded, and \<open>0 / 0\<close> is
  not-a-number).
\<close>

text \<open>
  C10. When exactly one of the two sequences is empty, \<open>dp[len1][len2]\<close> is \<open>+infinity\<close>
  from the initialisation, the total length \<open>len1 + len2\<close> is not zero, and the score is
  \<open>-infinity\<close>.  The total length is zero only when both sequences are empty; then the
  normalisation is \<open>0 / 0\<close> and the score is not-a-number, and that is the only case in which
  it is.
\<close>
theorem computeDTW_empty:
  "((seq1 = [] \<and> seq2 \<noteq> []) \<or> (seq1 \<noteq> [] \<and> seq2 = []) \<longrightarrow>
      dtw_table seq1 seq2 ! length seq1 ! length seq2 = PInf \<and>
      length seq1 + length seq2 \<noteq> 0 \<and>
      computeDTW seq1 seq2 = NInf) \<and>
   (length seq1 + length seq2 = 0 \<longleftrightarrow> seq1 = [] \<and> seq2 = []) \<and>
   (seq1 = [] \<and> seq2 = [] \<longrightarrow> dtw_table seq1 seq2 ! length seq1 ! length seq2 = Fin 0 \<and> computeDTW seq1 seq2 = NaN) \<and>
   (computeDTW seq1 seq2 = NaN \<longleftrightarrow> seq1 = [] \<and> seq2 = [])"
proof -
  have l: "dtw_table seq1 seq2 ! length seq1 ! length seq2 = PInf" "computeDTW seq1 seq2 = NInf"
    if "seq1 = []" "seq2 \<noteq> []"
    using that by (cases seq2; simp add: dtw_table_cell computeDTW_empty_left)+
  have r: "dtw_table seq1 seq2 ! length seq1 ! length seq2 = PInf" "computeDTW seq1 seq2 = NInf"
    if "seq1 \<noteq> []" "seq2 = []"
    using that by (cases seq1; simp add: dtw_table_cell computeDTW_empty_right)+
  have b: "dtw_table seq1 seq2 ! length seq1 ! length seq2 = Fin 0" "computeDTW seq1 seq2 = NaN"
    if "seq1 = []" "seq2 = []"
    using that by (simp_all add: dtw_table_cell computeDTW_empty_both)
  have n: "computeDTW seq1 seq2 \<noteq> NaN" if "seq1 \<noteq> [] \<or> seq2 \<noteq> []"
  proof (cases "seq1 \<noteq> [] \<and> seq2 \<noteq> []")
    case True
    then obtain x where "computeDTW seq1 seq2 = Fin x"
      using computeDTW_fin[of seq1 seq2] by blast
    then show ?thesis by simp
  next
    case False
    then show ?thesis using that l(2) r(2) by auto
  qed
  show ?thesis using l r b n by auto
qed

theorem computeDTW_empty_witness:
  "computeDTW [] [[1]] = NInf \<and> computeDTW [[1], [2]] [] = NInf \<and> computeDTW [] [] = NaN \<and>
   dtw_table [] [[1]] ! 0 ! 1 = PInf"
proof -
  have "computeDTW [] [[1]] = NInf \<and> dtw_table [] [[1]] ! 0 ! 1 = PInf"
    using computeDTW_empty[of "[]" "[[1]]"] by simp
  moreover have "computeDTW [[1], [2]] [] = NInf"
    using computeDTW_empty[of "[[1], [2]]" "[]"] by simp
  moreover have "computeDTW [] [] = NaN"
    using computeDTW_empty[of "[]" "[]"] by simp
  ultimately show ?thesis by blast
qed

end
